(* ===== verification/Prelude.thy ===== *)
theory Prelude
  imports Complex_Main "HOL-Library.AList" "HOL-Library.Word"
begin

text \<open>
  What every component shares: Python's ordered dictionaries, the few string
  operations the library uses (lower-casing, substring test, bounded replace,
  join, the \<open>format\<close> of a template), and the collections of facts the
  component proofs are run with.

  A string is the list of its bytes (UTF-8 where it is not ASCII).  A dictionary
  is an association list with distinct keys in insertion order: assigning to a
  key it holds replaces the value in place, assigning to a new key appends, as
  CPython's \<open>dict\<close> does.
\<close>

named_theorems dict_simps \<open>reading and the key order of a dictionary after an update\<close>
named_theorems string_simps \<open>evaluation of the string operations\<close>

named_theorems result_simps \<open>sequencing of results that may be errors\<close>

section \<open>Results\<close>

text \<open>A pure computation that may raise: \<^const>\<open>Inl\<close> the exception.\<close>

definition res_bind :: "'e + 'a \<Rightarrow> ('a \<Rightarrow> 'e + 'b) \<Rightarrow> 'e + 'b" where
  "res_bind r f = (case r of Inl e \<Rightarrow> Inl e | Inr x \<Rightarrow> f x)"

lemma res_bind_simps [simp, result_simps]:
  "res_bind (Inl e) f = Inl e" "res_bind (Inr x) f = f x"
  by (simp_all add: res_bind_def)

lemma res_bind_Inr_iff [result_simps]:
  "res_bind r f = Inr y \<longleftrightarrow> (\<exists>x. r = Inr x \<and> f x = Inr y)"
  by (cases r) auto

lemma res_bind_Inl_iff [result_simps]:
  "res_bind r f = Inl e \<longleftrightarrow> r = Inl e \<or> (\<exists>x. r = Inr x \<and> f x = Inl e)"
  by (cases r) auto

section \<open>Ordered dictionaries\<close>

type_synonym ('k, 'v) dict = "('k \<times> 'v) list"

abbreviation dict_get :: "('k, 'v) dict \<Rightarrow> 'k \<Rightarrow> 'v option" where
  "dict_get d k \<equiv> map_of d k"

abbreviation dict_keys :: "('k, 'v) dict \<Rightarrow> 'k list" where
  "dict_keys d \<equiv> map fst d"

definition dict_has :: "('k, 'v) dict \<Rightarrow> 'k \<Rightarrow> bool" where
  "dict_has d k \<longleftrightarrow> k \<in> set (dict_keys d)"

definition dict_set :: "'k \<Rightarrow> 'v \<Rightarrow> ('k, 'v) dict \<Rightarrow> ('k, 'v) dict" where
  "dict_set k v d = AList.update k v d"

text \<open>\<open>d.update(e)\<close>, and a chain of assignments in the order of \<open>e\<close>.\<close>

fun dict_update :: "('k, 'v) dict \<Rightarrow> ('k, 'v) dict \<Rightarrow> ('k, 'v) dict" where
  "dict_update d [] = d"
| "dict_update d ((k, v) # e) = dict_update (dict_set k v d) e"

text \<open>\<open>if v is not None: d[k] = v\<close>\<close>

definition dict_opt :: "'k \<Rightarrow> 'v option \<Rightarrow> ('k, 'v) dict \<Rightarrow> ('k, 'v) dict" where
  "dict_opt k v d = (case v of None \<Rightarrow> d | Some x \<Rightarrow> dict_set k x d)"

lemma dict_set_Nil [simp]: "dict_set k v [] = [(k, v)]"
  by (simp add: dict_set_def)

lemma dict_set_Cons [simp]:
  "dict_set k v ((k', v') # d) = (if k' = k then (k, v) # d else (k', v') # dict_set k v d)"
  by (simp add: dict_set_def)

lemma dict_set_get [dict_simps]: "dict_get (dict_set k v d) = (dict_get d)(k \<mapsto> v)"
  unfolding dict_set_def by (rule AList.update_conv')

lemma dict_set_keys [dict_simps]:
  "dict_keys (dict_set k v d) = (if k \<in> set (dict_keys d) then dict_keys d else dict_keys d @ [k])"
  unfolding dict_set_def by (rule AList.update_keys)

lemma dict_set_distinct [intro]: "distinct (dict_keys d) \<Longrightarrow> distinct (dict_keys (dict_set k v d))"
  by (simp add: dict_simps)

lemma dict_has_get: "dict_has d k \<longleftrightarrow> dict_get d k \<noteq> None"
  by (auto simp: dict_has_def map_of_eq_None_iff)

lemma dict_set_fresh: "k \<notin> set (dict_keys d) \<Longrightarrow> dict_set k v d = d @ [(k, v)]"
  by (induction d) auto

lemma dict_update_get [dict_simps]:
  "distinct (dict_keys e) \<Longrightarrow> dict_get (dict_update d e) k = (case dict_get e k of None \<Rightarrow> dict_get d k | Some v \<Rightarrow> Some v)"
proof (induction d e rule: dict_update.induct)
  case (1 d)
  then show ?case by simp
next
  case (2 d k' v' e)
  from 2 have "dict_get (dict_update (dict_set k' v' d) e) k
      = (case dict_get e k of None \<Rightarrow> dict_get (dict_set k' v' d) k | Some v \<Rightarrow> Some v)"
    by simp
  moreover have "k = k' \<Longrightarrow> dict_get e k = None"
    using "2.prems" by (auto simp: map_of_eq_None_iff)
  ultimately show ?case by (auto simp: dict_simps split: option.split)
qed

lemma dict_update_keys_prefix: "\<exists>ks. dict_keys (dict_update d e) = dict_keys d @ ks"
proof (induction d e rule: dict_update.induct)
  case (2 d k v e)
  then obtain ks where "dict_keys (dict_update (dict_set k v d) e) = dict_keys (dict_set k v d) @ ks"
    by blast
  then show ?case by (auto simp: dict_simps split: if_splits)
qed simp

lemma dict_update_keys_set [dict_simps]:
  "set (dict_keys (dict_update d e)) = set (dict_keys d) \<union> set (dict_keys e)"
  by (induction d e rule: dict_update.induct) (auto simp: dict_set_keys split: if_splits)

lemma dict_update_distinct [intro]:
  "distinct (dict_keys d) \<Longrightarrow> distinct (dict_keys (dict_update d e))"
  by (induction d e rule: dict_update.induct) (auto simp: dict_set_distinct)

lemma dict_update_fresh:
  "distinct (dict_keys e) \<Longrightarrow> set (dict_keys e) \<inter> set (dict_keys d) = {} \<Longrightarrow> dict_update d e = d @ e"
proof (induction d e rule: dict_update.induct)
  case (2 d k v e)
  then have "dict_update (d @ [(k, v)]) e = (d @ [(k, v)]) @ e"
    using dict_set_fresh [of k d v] by auto
  with 2 show ?case by (simp add: dict_set_fresh)
qed simp

lemma dict_update_append: "dict_update d (e @ f) = dict_update (dict_update d e) f"
  by (induction d e rule: dict_update.induct) auto

section \<open>The dictionary interface\<close>

text \<open>
  What the builders of reports and the trace rely on: a store that answers the
  last value assigned to a key, keeps the position of a key it already had and
  appends a new one.
\<close>

locale ordered_store =
  fixes get :: "'d \<Rightarrow> 'k \<Rightarrow> 'v option"
    and put :: "'k \<Rightarrow> 'v \<Rightarrow> 'd \<Rightarrow> 'd"
    and order :: "'d \<Rightarrow> 'k list"
  assumes get_put: "get (put k v d) = (get d)(k \<mapsto> v)"
    and order_put: "order (put k v d) = (if k \<in> set (order d) then order d else order d @ [k])"
    and get_order: "get d k \<noteq> None \<longleftrightarrow> k \<in> set (order d)"
begin

lemma get_put_same: "get (put k v d) k = Some v"
  by (simp add: get_put)

lemma get_put_other: "k \<noteq> k' \<Longrightarrow> get (put k v d) k' = get d k'"
  by (simp add: get_put)

lemma put_keeps_position: "k \<in> set (order d) \<Longrightarrow> order (put k v d) = order d"
  by (simp add: order_put)

lemma put_put_order: "order (put k v' (put k v d)) = order (put k v d)"
  by (simp add: order_put)

lemma order_prefix: "\<exists>ks. order (put k v d) = order d @ ks"
  by (simp add: order_put)

lemma order_distinct: "distinct (order d) \<Longrightarrow> distinct (order (put k v d))"
  by (simp add: order_put)

lemma order_foldr_prefix: "\<exists>ks. order (foldr (\<lambda>(k, v). put k v) e d) = order d @ ks"
proof (induction e)
  case (Cons p e)
  then obtain ks where ks: "order (foldr (\<lambda>(k, v). put k v) e d) = order d @ ks" by blast
  obtain k v where "p = (k, v)" by (cases p)
  with ks show ?case using order_prefix [of k v "foldr (\<lambda>(k, v). put k v) e d"] by auto
qed simp

end

interpretation dict_store: ordered_store map_of dict_set dict_keys
  by unfold_locales (auto simp: dict_simps map_of_eq_None_iff)

section \<open>Strings\<close>

text \<open>\<open>str.lower()\<close>, on the letters of ASCII.\<close>

definition lower_char :: "char \<Rightarrow> char" where
  "lower_char c = (if 65 \<le> (of_char c :: nat) \<and> (of_char c :: nat) \<le> 90 then char_of (of_char c + 32 :: nat) else c)"

definition lower :: "string \<Rightarrow> string" where
  "lower s = map lower_char s"

fun starts_with :: "string \<Rightarrow> string \<Rightarrow> bool" where
  "starts_with [] s = True"
| "starts_with (p # ps) [] = False"
| "starts_with (p # ps) (c # s) = (p = c \<and> starts_with ps s)"

text \<open>\<open>needle in s\<close>\<close>

fun contains :: "string \<Rightarrow> string \<Rightarrow> bool" where
  "contains needle [] = starts_with needle []"
| "contains needle (c # s) = (starts_with needle (c # s) \<or> contains needle s)"

text \<open>\<open>s.replace(old, new, 1)\<close>\<close>

fun replace_first :: "string \<Rightarrow> string \<Rightarrow> string \<Rightarrow> string" where
  "replace_first old new [] = (if old = [] then new else [])"
| "replace_first old new (c # s) =
    (if starts_with old (c # s) then new @ drop (length old) (c # s)
     else c # replace_first old new s)"

text \<open>\<open>sep.join(parts)\<close>\<close>

fun join :: "string \<Rightarrow> string list \<Rightarrow> string" where
  "join sep [] = []"
| "join sep [s] = s"
| "join sep (s # t # ss) = s @ sep @ join sep (t # ss)"

lemma starts_with_append: "starts_with p s \<longleftrightarrow> (\<exists>r. s = p @ r)"
  by (induction p s rule: starts_with.induct) auto

lemma contains_iff: "contains needle s \<longleftrightarrow> (\<exists>u v. s = u @ needle @ v)"
proof (induction s)
  case Nil
  then show ?case by (simp add: starts_with_append)
next
  case (Cons c s)
  show ?case
  proof
    assume "contains needle (c # s)"
    then consider "starts_with needle (c # s)" | "contains needle s" by auto
    then show "\<exists>u v. c # s = u @ needle @ v"
    proof cases
      case 1
      then have "\<exists>v. c # s = [] @ needle @ v" by (simp add: starts_with_append)
      then show ?thesis by blast
    next
      case 2
      with Cons obtain u v where "s = u @ needle @ v" by blast
      then have "c # s = (c # u) @ needle @ v" by simp
      then show ?thesis by blast
    qed
  next
    assume "\<exists>u v. c # s = u @ needle @ v"
    then obtain u v where uv: "c # s = u @ needle @ v" by blast
    show "contains needle (c # s)"
    proof (cases u)
      case Nil
      with uv have "starts_with needle (c # s)" by (auto simp: starts_with_append)
      then show ?thesis by simp
    next
      case (Cons d u')
      with uv have "s = u' @ needle @ v" by simp
      with Cons.IH show ?thesis by auto
    qed
  qed
qed

lemma contains_append [intro]: "contains needle (u @ needle @ v)"
  by (auto simp: contains_iff)

lemma replace_first_absent: "\<not> contains old s \<Longrightarrow> replace_first old new s = s"
  by (induction s) (auto simp: starts_with_append)

text \<open>
  \<open>template.format(**fields)\<close>: replaces each \<open>{name}\<close> by the field's
  text, once, left to right; \<^const>\<open>None\<close> where Python raises (an unknown
  field, an unbalanced brace).
\<close>

fun format_from :: "(string \<Rightarrow> string option) \<Rightarrow> string option \<Rightarrow> string \<Rightarrow> string option" where
  "format_from fields None [] = Some []"
| "format_from fields (Some name) [] = None"
| "format_from fields None (c # s) =
    (if c = CHR ''{'' then format_from fields (Some []) s
     else if c = CHR ''}'' then None
     else map_option ((#) c) (format_from fields None s))"
| "format_from fields (Some name) (c # s) =
    (if c = CHR ''}'' then
       (case fields name of
          None \<Rightarrow> None
        | Some text \<Rightarrow> map_option ((@) text) (format_from fields None s))
     else format_from fields (Some (name @ [c])) s)"

definition str_format :: "(string, string) dict \<Rightarrow> string \<Rightarrow> string option" where
  "str_format fields template = format_from (dict_get fields) None template"

lemma format_from_plain:
  "CHR ''{'' \<notin> set s \<Longrightarrow> CHR ''}'' \<notin> set s \<Longrightarrow> format_from fields None s = Some s"
  by (induction s) auto

text \<open>A template whose braces balance around known field names always formats.\<close>

fun template_ok :: "string list \<Rightarrow> string option \<Rightarrow> string \<Rightarrow> bool" where
  "template_ok names None [] = True"
| "template_ok names (Some name) [] = False"
| "template_ok names None (c # s) =
    (if c = CHR ''{'' then template_ok names (Some []) s
     else if c = CHR ''}'' then False
     else template_ok names None s)"
| "template_ok names (Some name) (c # s) =
    (if c = CHR ''}'' then name \<in> set names \<and> template_ok names None s
     else template_ok names (Some (name @ [c])) s)"

lemma format_from_ok:
  "template_ok names name s \<Longrightarrow> (\<And>n. n \<in> set names \<Longrightarrow> fields n \<noteq> None)
    \<Longrightarrow> \<exists>text. format_from fields name s = Some text"
proof (induction names name s rule: template_ok.induct)
  case (4 names name c s)
  then show ?case by (cases "c = CHR ''}''") fastforce+
qed (auto split: if_splits)

text \<open>The dash of the English sentences, as its UTF-8 bytes.\<close>

definition em_dash :: string where
  "em_dash = [char_of (226 :: nat), char_of (128 :: nat), char_of (148 :: nat)]"

end
