(* ===== verification/Stages.thy ===== *)
theory Stages
  imports Prelude
begin

text \<open>
  The fixed stage vocabulary of \<open>src/src/blesession/stages.py\<close>: the seven primary
  stages, their order, and the mapping of a device's own stage name to a primary
  one.  A stage map is a dictionary from device stage to primary stage.
\<close>

definition UNREACHABLE :: string where "UNREACHABLE = ''unreachable''"
definition CONNECT :: string where "CONNECT = ''connect''"
definition SESSION :: string where "SESSION = ''session''"
definition AUTH :: string where "AUTH = ''auth''"
definition TRANSFER :: string where "TRANSFER = ''transfer''"
definition FINISH :: string where "FINISH = ''finish''"
definition DISCONNECT :: string where "DISCONNECT = ''disconnect''"

definition PRIMARY :: "string set" where
  "PRIMARY = {UNREACHABLE, CONNECT, SESSION, AUTH, TRANSFER, FINISH, DISCONNECT}"

definition ORDER :: "string list" where
  "ORDER = [UNREACHABLE, CONNECT, SESSION, AUTH, TRANSFER, FINISH, DISCONNECT]"

type_synonym stage_map = "(string, string) dict"

fun primary_of :: "string option \<Rightarrow> stage_map option \<Rightarrow> string option" where
  "primary_of None stage_map = None"
| "primary_of (Some name) stage_map =
    (if name \<in> PRIMARY then Some name
     else case stage_map of
       None \<Rightarrow> Some name
     | Some m \<Rightarrow> (if m \<noteq> [] \<and> dict_has m name then dict_get m name else Some name))"

lemmas stage_defs =
  UNREACHABLE_def CONNECT_def SESSION_def AUTH_def TRANSFER_def FINISH_def DISCONNECT_def

text \<open>The stage names are distinct; this is all the other components need of their spelling.\<close>

lemma stages_distinct [simp]:
  "UNREACHABLE \<noteq> CONNECT" "UNREACHABLE \<noteq> SESSION" "UNREACHABLE \<noteq> AUTH" "UNREACHABLE \<noteq> TRANSFER"
  "UNREACHABLE \<noteq> FINISH" "UNREACHABLE \<noteq> DISCONNECT" "CONNECT \<noteq> UNREACHABLE" "CONNECT \<noteq> SESSION"
  "CONNECT \<noteq> AUTH" "CONNECT \<noteq> TRANSFER" "CONNECT \<noteq> FINISH" "CONNECT \<noteq> DISCONNECT"
  "SESSION \<noteq> UNREACHABLE" "SESSION \<noteq> CONNECT" "SESSION \<noteq> AUTH" "SESSION \<noteq> TRANSFER"
  "SESSION \<noteq> FINISH" "SESSION \<noteq> DISCONNECT" "AUTH \<noteq> UNREACHABLE" "AUTH \<noteq> CONNECT"
  "AUTH \<noteq> SESSION" "AUTH \<noteq> TRANSFER" "AUTH \<noteq> FINISH" "AUTH \<noteq> DISCONNECT"
  "TRANSFER \<noteq> UNREACHABLE" "TRANSFER \<noteq> CONNECT" "TRANSFER \<noteq> SESSION" "TRANSFER \<noteq> AUTH"
  "TRANSFER \<noteq> FINISH" "TRANSFER \<noteq> DISCONNECT" "FINISH \<noteq> UNREACHABLE" "FINISH \<noteq> CONNECT"
  "FINISH \<noteq> SESSION" "FINISH \<noteq> AUTH" "FINISH \<noteq> TRANSFER" "FINISH \<noteq> DISCONNECT"
  "DISCONNECT \<noteq> UNREACHABLE" "DISCONNECT \<noteq> CONNECT" "DISCONNECT \<noteq> SESSION" "DISCONNECT \<noteq> AUTH"
  "DISCONNECT \<noteq> TRANSFER" "DISCONNECT \<noteq> FINISH"
  by (simp_all add: stage_defs)

lemma primary_mem [simp]:
  "UNREACHABLE \<in> PRIMARY" "CONNECT \<in> PRIMARY" "SESSION \<in> PRIMARY" "AUTH \<in> PRIMARY"
  "TRANSFER \<in> PRIMARY" "FINISH \<in> PRIMARY" "DISCONNECT \<in> PRIMARY"
  by (simp_all add: PRIMARY_def)

lemma order_is_primary: "distinct ORDER \<and> set ORDER = PRIMARY"
  by (simp add: ORDER_def PRIMARY_def)

lemma primary_of_primary [simp]: "name \<in> PRIMARY \<Longrightarrow> primary_of (Some name) m = Some name"
  by simp

lemma primary_of_mapped:
  "name \<notin> PRIMARY \<Longrightarrow> dict_get m name = Some p \<Longrightarrow> primary_of (Some name) (Some m) = Some p"
  by (auto simp: dict_has_get)

lemma primary_of_unknown:
  "name \<notin> PRIMARY \<Longrightarrow> dict_get m name = None \<Longrightarrow> primary_of (Some name) (Some m) = Some name"
  by (auto simp: dict_has_get)

lemma primary_of_None_iff [simp]: "primary_of name m = None \<longleftrightarrow> name = None"
  by (cases name) (auto simp: dict_has_get split: option.splits)

lemma primary_of_in_PRIMARY:
  assumes "ran (dict_get m) \<subseteq> PRIMARY" and "primary_of (Some name) (Some m) = Some p"
  shows "p \<in> PRIMARY \<or> p = name \<and> dict_get m name = None"
proof (cases "name \<in> PRIMARY")
  case False
  show ?thesis
  proof (cases "dict_get m name")
    case None
    with False assms(2) show ?thesis using primary_of_unknown [OF False None] by simp
  next
    case (Some q)
    with False assms(2) have "p = q" using primary_of_mapped [OF False Some] by simp
    moreover from Some have "q \<in> ran (dict_get m)" by (rule ranI)
    ultimately show ?thesis using assms(1) by blast
  qed
qed (use assms(2) in simp)

lemma primary_of_idem_aux:
  assumes "ran (dict_get m) \<subseteq> PRIMARY" and "primary_of (Some n) (Some m) = Some p"
  shows "primary_of (Some p) (Some m) = Some p"
  using primary_of_in_PRIMARY [OF assms]
proof
  assume "p = n \<and> dict_get m n = None"
  then show ?thesis using primary_of_unknown [of n m] primary_of_primary [of n] by metis
qed (rule primary_of_primary)

text \<open>
  Mapping a stage name to the primary vocabulary is stable: with a map into the seven primary stages the
  result is a primary stage or the unmapped name itself, and mapping it again changes nothing.
\<close>

lemma primary_of_stable:
  assumes "ran (dict_get m) \<subseteq> PRIMARY" and "primary_of (Some name) (Some m) = Some p"
  shows "(p \<in> PRIMARY \<or> p = name \<and> dict_get m name = None) \<and> primary_of (Some p) (Some m) = Some p"
  using primary_of_in_PRIMARY [OF assms] primary_of_idem_aux [OF assms] by blast

end
