(* ===== verification/Values.thy ===== *)
theory Values
  imports Prelude
begin

text \<open>
  The Python values a report, a trace or a device hands over, and how they are
  written out: \<open>str\<close>, \<open>repr\<close> of a float, the \<open>:g\<close> and \<open>:.2f\<close>
  formats, \<open>round\<close>.  Seconds are exact rationals (the ideal of the program's
  floats); an integer is unbounded.  \<open>PyObj\<close> is any other object: an identity,
  its truth value and its text.
\<close>

type_synonym bytes = "8 word list"
type_synonym seconds = rat

datatype pyval =
    PyNone
  | PyBool bool
  | PyInt int
  | PyFloat rat
  | PyStr string
  | PyBytes bytes
  | PyObj nat bool string

definition is_none :: "pyval \<Rightarrow> bool" where
  "is_none v \<longleftrightarrow> v = PyNone"

text \<open>\<open>bool(v)\<close>\<close>

fun truthy :: "pyval \<Rightarrow> bool" where
  "truthy PyNone = False"
| "truthy (PyBool b) = b"
| "truthy (PyInt i) = (i \<noteq> 0)"
| "truthy (PyFloat x) = (x \<noteq> 0)"
| "truthy (PyStr s) = (s \<noteq> [])"
| "truthy (PyBytes b) = (b \<noteq> [])"
| "truthy (PyObj _ t _) = t"

text \<open>\<open>isinstance(v, int)\<close> and its value: a bool is an int.\<close>

fun as_int :: "pyval \<Rightarrow> int option" where
  "as_int (PyInt i) = Some i"
| "as_int (PyBool b) = Some (if b then 1 else 0)"
| "as_int _ = None"

fun is_bool :: "pyval \<Rightarrow> bool" where
  "is_bool (PyBool _) = True"
| "is_bool _ = False"

text \<open>\<open>v == n\<close> for an integer \<open>n\<close>.\<close>

fun equals_int :: "pyval \<Rightarrow> int \<Rightarrow> bool" where
  "equals_int (PyFloat x) n = (x = of_int n)"
| "equals_int v n = (as_int v = Some n)"

section \<open>Decimal text\<close>

definition digit_char :: "nat \<Rightarrow> char" where
  "digit_char n = ''0123456789abcdef'' ! n"

fun digits :: "nat \<Rightarrow> string" where
  "digits n = (if n < 10 then [digit_char n] else digits (n div 10) @ [digit_char (n mod 10)])"

declare digits.simps [simp del]

definition int_text :: "int \<Rightarrow> string" where
  "int_text i = (if i < 0 then ''-'' @ digits (nat (- i)) else digits (nat i))"

text \<open>The nearest integer, ties to even.\<close>

definition round_half_even :: "rat \<Rightarrow> int" where
  "round_half_even x =
     (let f = \<lfloor>x\<rfloor>; r = x - of_int f
      in if r < 1 / 2 then f else if 1 / 2 < r then f + 1 else if even f then f else f + 1)"

text \<open>\<open>round(x, 3)\<close>\<close>

definition round3 :: "rat \<Rightarrow> rat" where
  "round3 x = of_int (round_half_even (x * 1000)) / 1000"

definition pow10 :: "int \<Rightarrow> rat" where
  "pow10 k = (if 0 \<le> k then 10 ^ nat k else 1 / 10 ^ nat (- k))"

text \<open>The exponent of the leading decimal digit of a positive number.\<close>

definition lead_exp :: "rat \<Rightarrow> int" where
  "lead_exp x =
     (if 1 \<le> x then int (length (digits (nat \<lfloor>x\<rfloor>))) - 1
      else - int (length (digits (nat (\<lceil>1 / x\<rceil> - 1)))))"

text \<open>\<open>n\<close> significant digits of a positive number, and the exponent of the first.\<close>

definition sig_round :: "nat \<Rightarrow> rat \<Rightarrow> int \<times> int" where
  "sig_round n x =
     (let e = lead_exp x; m = round_half_even (x / pow10 (e - (int n - 1)))
      in if m = 10 ^ n then (10 ^ (n - 1), e + 1) else (m, e))"

definition strip_zeros :: "string \<Rightarrow> string" where
  "strip_zeros s = rev (dropWhile (\<lambda>c. c = CHR ''0'') (rev s))"

definition point :: "string \<Rightarrow> string \<Rightarrow> string" where
  "point whole fraction = (if fraction = [] then whole else whole @ ''.'' @ fraction)"

definition exponent_text :: "int \<Rightarrow> string" where
  "exponent_text e =
     (let d = digits (nat \<bar>e\<bar>)
      in ''e'' @ (if e < 0 then ''-'' else ''+'') @ (if length d < 2 then ''0'' @ d else d))"

text \<open>
  The text of significant digits \<open>ds\<close> whose first has exponent \<open>e\<close>: plain below
  the exponent bound \<open>hi\<close> (and from \<open>-4\<close> on), scientific otherwise.
\<close>

definition plain_digits :: "string \<Rightarrow> int \<Rightarrow> string \<times> string" where
  "plain_digits ds e =
     (if 0 \<le> e
      then (take (nat e + 1) (ds @ replicate (nat e + 1 - length ds) (CHR ''0'')), drop (nat e + 1) ds)
      else (''0'', replicate (nat (- e) - 1) (CHR ''0'') @ ds))"

text \<open>\<open>f"{x:g}"\<close>\<close>

definition fmt_g :: "rat \<Rightarrow> string" where
  "fmt_g x =
     (if x = 0 then ''0'' else
      (let (m, e) = sig_round 6 \<bar>x\<bar>;
           ds = digits (nat m);
           text = (if - 4 \<le> e \<and> e < 6
                   then (case plain_digits ds e of (whole, fraction) \<Rightarrow> point whole (strip_zeros fraction))
                   else point (take 1 ds) (strip_zeros (drop 1 ds)) @ exponent_text e)
       in (if x < 0 then ''-'' else []) @ text))"

text \<open>\<open>f"{x:.2f}"\<close>\<close>

definition fmt_2f :: "rat \<Rightarrow> string" where
  "fmt_2f x =
     (let m = nat (round_half_even (\<bar>x\<bar> * 100)); fraction = digits (m mod 100)
      in (if x < 0 then ''-'' else []) @ digits (m div 100) @ ''.''
         @ (if length fraction < 2 then ''0'' @ fraction else fraction))"

text \<open>
  \<open>repr(x)\<close>: the shortest decimal text that reads back as the number, 17 digits
  when none is exact.
\<close>

fun least_exact :: "rat \<Rightarrow> nat \<Rightarrow> nat \<Rightarrow> nat" where
  "least_exact x n 0 = n"
| "least_exact x n (Suc left) =
    (let (m, e) = sig_round n x
     in if of_int m * pow10 (e - (int n - 1)) = x then n else least_exact x (n + 1) left)"

definition float_text :: "rat \<Rightarrow> string" where
  "float_text x =
     (if x = 0 then ''0.0'' else
      (let n = least_exact \<bar>x\<bar> 1 16;
           (m, e) = sig_round n \<bar>x\<bar>;
           ds = strip_zeros (digits (nat m));
           text = (if - 4 \<le> e \<and> e < 16
                   then (case plain_digits ds e of (whole, fraction) \<Rightarrow>
                           whole @ ''.'' @ (if fraction = [] then ''0'' else fraction))
                   else point (take 1 ds) (drop 1 ds) @ exponent_text e)
       in (if x < 0 then ''-'' else []) @ text))"

text \<open>\<open>str(v)\<close>; the text of a bytes object is that of its printable form.\<close>

fun byte_text :: "char \<Rightarrow> 8 word \<Rightarrow> string" where
  "byte_text quote b =
     (let n = unat b; c = char_of n in
      if c = quote then [CHR 0x5C, quote]
      else if n = 92 then [CHR 0x5C, CHR 0x5C]
      else if n = 9 then [CHR 0x5C, CHR ''t'']
      else if n = 10 then [CHR 0x5C, CHR ''n'']
      else if n = 13 then [CHR 0x5C, CHR ''r'']
      else if 32 \<le> n \<and> n < 127 then [c]
      else [CHR 0x5C, CHR ''x'', digit_char (n div 16), digit_char (n mod 16)])"

definition bytes_text :: "bytes \<Rightarrow> string" where
  "bytes_text b =
     (let quote = (if 39 \<in> set (map unat b) \<and> 34 \<notin> set (map unat b) then CHR 0x22 else CHR 0x27)
      in ''b'' @ [quote] @ concat (map (byte_text quote) b) @ [quote])"

fun py_str :: "pyval \<Rightarrow> string" where
  "py_str PyNone = ''None''"
| "py_str (PyBool b) = (if b then ''True'' else ''False'')"
| "py_str (PyInt i) = int_text i"
| "py_str (PyFloat x) = float_text x"
| "py_str (PyStr s) = s"
| "py_str (PyBytes b) = bytes_text b"
| "py_str (PyObj _ _ s) = s"

section \<open>Facts about the number text\<close>

lemma digits_nonempty [simp]: "digits n \<noteq> []"
  by (subst digits.simps) simp

lemma int_text_nonempty [simp]: "int_text i \<noteq> []"
  by (simp add: int_text_def)

lemma round_half_even_of_int [simp]: "round_half_even (of_int i) = i"
  by (simp add: round_half_even_def Let_def)

lemma round3_0 [simp]: "round3 0 = 0"
  using round_half_even_of_int [of 0] by (simp add: round3_def)

lemma round_half_even_near: "\<bar>of_int (round_half_even x) - x\<bar> \<le> 1 / 2"
proof -
  have lo: "of_int \<lfloor>x\<rfloor> \<le> x" and hi: "x < of_int \<lfloor>x\<rfloor> + 1" by linarith+
  show ?thesis
    using lo hi by (auto simp: round_half_even_def Let_def abs_le_iff split: if_splits)
qed

lemma round3_near: "\<bar>round3 x - x\<bar> \<le> 1 / 2000"
proof -
  have "round3 x - x = (of_int (round_half_even (x * 1000)) - x * 1000) / 1000"
    by (simp add: round3_def field_simps)
  then have "\<bar>round3 x - x\<bar> = \<bar>of_int (round_half_even (x * 1000)) - x * 1000\<bar> / 1000"
    by (simp only: abs_divide abs_numeral)
  with round_half_even_near [of "x * 1000"] show ?thesis by simp
qed

lemma round3_nonneg: "0 \<le> x \<Longrightarrow> 0 \<le> round3 x"
proof -
  assume "0 \<le> x"
  then have "0 \<le> \<lfloor>x * 1000\<rfloor>" by simp
  then have "0 \<le> round_half_even (x * 1000)"
    by (auto simp: round_half_even_def Let_def)
  then show "0 \<le> round3 x" by (simp add: round3_def)
qed

section \<open>Evaluation\<close>

named_theorems number_text \<open>evaluates the number formats on concrete numbers\<close>

lemma floor_rat_quotient [number_text]:
  "\<lfloor>(numeral a / numeral b :: rat)\<rfloor> = numeral a div numeral b"
  "\<lfloor>(1 / numeral b :: rat)\<rfloor> = 1 div numeral b"
  "\<lceil>(numeral a / numeral b :: rat)\<rceil> = - (- numeral a div numeral b)"
  "\<lceil>(1 / numeral b :: rat)\<rceil> = - (- 1 div numeral b)"
  using floor_divide_of_int_eq [of "numeral a" "numeral b", where ?'a = rat]
    floor_divide_of_int_eq [of 1 "numeral b", where ?'a = rat]
    floor_divide_of_int_eq [of "- numeral a" "numeral b", where ?'a = rat]
    floor_divide_of_int_eq [of "- 1" "numeral b", where ?'a = rat]
  by (simp_all add: ceiling_def)

lemmas number_defs [number_text] =
  int_text_def digit_char_def digits.simps round_half_even_def round3_def pow10_def lead_exp_def
  sig_round_def strip_zeros_def point_def exponent_text_def plain_digits_def fmt_g_def fmt_2f_def

lemma number_text_examples:
  "int_text (- 85) = ''-85''" "fmt_g 5 = ''5''" "fmt_g (1 / 20) = ''0.05''" "fmt_g (5 / 2) = ''2.5''"
  "fmt_g 1200000 = ''1.2e+06''" "fmt_g (1 / 100000) = ''1e-05''" "fmt_2f (1 / 3) = ''0.33''"
  by (simp_all add: number_text Let_def)

end
