(* ===== verification/Errors.thy ===== *)
theory Errors
  imports Stages Values
begin

text \<open>
  The exceptions of \<open>src/src/blesession/errors.py\<close>, and as much of Python's exception
  classes as the library tests with \<open>isinstance\<close>.  A class is a value of
  \<open>pyclass\<close> with its method resolution order; \<open>DerivedC\<close> is a class an
  integration derives (from one base), with its own \<open>stage\<close> and \<open>retryable\<close>
  where it sets them.  An exception is its class, what \<open>str()\<close> of it gives (which may
  itself raise), the attributes the library reads with \<open>getattr\<close> and its cause.
\<close>

section \<open>Classes\<close>

datatype pyclass =
    BaseExceptionC | CancelledErrorC | KeyboardInterruptC
  | ExceptionC | WarningC | DeprecationWarningC | ValueErrorC | TypeErrorC | KeyErrorC
  | RuntimeErrorC | AssertionErrorC | OSErrorC | ConnectionErrorC | TimeoutErrorC | BleakErrorC
  | BleSessionErrorC | UnreachableC | ConnectFailedC | SessionDroppedC | GattMismatchC
  | DeviceErrorC | NotificationTimeoutC | WriteTimeoutC | AttemptTimedOutC
  | DerivedC string pyclass "string option" "bool option"

fun class_name :: "pyclass \<Rightarrow> string" where
  "class_name BaseExceptionC = ''BaseException''"
| "class_name CancelledErrorC = ''CancelledError''"
| "class_name KeyboardInterruptC = ''KeyboardInterrupt''"
| "class_name ExceptionC = ''Exception''"
| "class_name WarningC = ''Warning''"
| "class_name DeprecationWarningC = ''DeprecationWarning''"
| "class_name ValueErrorC = ''ValueError''"
| "class_name TypeErrorC = ''TypeError''"
| "class_name KeyErrorC = ''KeyError''"
| "class_name RuntimeErrorC = ''RuntimeError''"
| "class_name AssertionErrorC = ''AssertionError''"
| "class_name OSErrorC = ''OSError''"
| "class_name ConnectionErrorC = ''ConnectionError''"
| "class_name TimeoutErrorC = ''TimeoutError''"
| "class_name BleakErrorC = ''BleakError''"
| "class_name BleSessionErrorC = ''BleSessionError''"
| "class_name UnreachableC = ''Unreachable''"
| "class_name ConnectFailedC = ''ConnectFailed''"
| "class_name SessionDroppedC = ''SessionDropped''"
| "class_name GattMismatchC = ''GattMismatch''"
| "class_name DeviceErrorC = ''DeviceError''"
| "class_name NotificationTimeoutC = ''NotificationTimeout''"
| "class_name WriteTimeoutC = ''WriteTimeout''"
| "class_name AttemptTimedOutC = ''AttemptTimedOut''"
| "class_name (DerivedC name _ _ _) = name"

text \<open>\<open>cls.__mro__\<close>, without \<open>object\<close>.\<close>

abbreviation os_error_mro :: "pyclass list" where
  "os_error_mro \<equiv> [OSErrorC, ExceptionC, BaseExceptionC]"

fun mro :: "pyclass \<Rightarrow> pyclass list" where
  "mro BaseExceptionC = [BaseExceptionC]"
| "mro CancelledErrorC = [CancelledErrorC, BaseExceptionC]"
| "mro KeyboardInterruptC = [KeyboardInterruptC, BaseExceptionC]"
| "mro ExceptionC = [ExceptionC, BaseExceptionC]"
| "mro WarningC = [WarningC, ExceptionC, BaseExceptionC]"
| "mro DeprecationWarningC = [DeprecationWarningC, WarningC, ExceptionC, BaseExceptionC]"
| "mro ValueErrorC = [ValueErrorC, ExceptionC, BaseExceptionC]"
| "mro TypeErrorC = [TypeErrorC, ExceptionC, BaseExceptionC]"
| "mro KeyErrorC = [KeyErrorC, ExceptionC, BaseExceptionC]"
| "mro RuntimeErrorC = [RuntimeErrorC, ExceptionC, BaseExceptionC]"
| "mro AssertionErrorC = [AssertionErrorC, ExceptionC, BaseExceptionC]"
| "mro OSErrorC = os_error_mro"
| "mro ConnectionErrorC = ConnectionErrorC # os_error_mro"
| "mro TimeoutErrorC = TimeoutErrorC # os_error_mro"
| "mro BleakErrorC = [BleakErrorC, ExceptionC, BaseExceptionC]"
| "mro BleSessionErrorC = BleSessionErrorC # ConnectionErrorC # os_error_mro"
| "mro UnreachableC = UnreachableC # BleSessionErrorC # ConnectionErrorC # os_error_mro"
| "mro ConnectFailedC = ConnectFailedC # BleSessionErrorC # ConnectionErrorC # os_error_mro"
| "mro SessionDroppedC = SessionDroppedC # BleSessionErrorC # ConnectionErrorC # os_error_mro"
| "mro GattMismatchC = GattMismatchC # BleSessionErrorC # ConnectionErrorC # os_error_mro"
| "mro DeviceErrorC = DeviceErrorC # BleSessionErrorC # ConnectionErrorC # os_error_mro"
| "mro NotificationTimeoutC =
    NotificationTimeoutC # BleSessionErrorC # ConnectionErrorC # TimeoutErrorC # os_error_mro"
| "mro WriteTimeoutC =
    WriteTimeoutC # NotificationTimeoutC # BleSessionErrorC # ConnectionErrorC # TimeoutErrorC
      # os_error_mro"
| "mro AttemptTimedOutC =
    AttemptTimedOutC # BleSessionErrorC # ConnectionErrorC # TimeoutErrorC # os_error_mro"
| "mro (DerivedC name base stage retryable) = DerivedC name base stage retryable # mro base"

definition issubclass :: "pyclass \<Rightarrow> pyclass \<Rightarrow> bool" where
  "issubclass c d \<longleftrightarrow> d \<in> set (mro c)"

text \<open>The class attribute \<open>stage\<close>, the first found along the resolution order.\<close>

fun class_stage :: "pyclass \<Rightarrow> string option" where
  "class_stage UnreachableC = Some UNREACHABLE"
| "class_stage ConnectFailedC = Some CONNECT"
| "class_stage SessionDroppedC = Some SESSION"
| "class_stage GattMismatchC = Some SESSION"
| "class_stage (DerivedC _ base stage _) = (case stage of Some s \<Rightarrow> Some s | None \<Rightarrow> class_stage base)"
| "class_stage _ = None"

fun class_retryable :: "pyclass \<Rightarrow> bool" where
  "class_retryable GattMismatchC = False"
| "class_retryable (DerivedC _ base _ retryable) =
    (case retryable of Some r \<Rightarrow> r | None \<Rightarrow> class_retryable base)"
| "class_retryable _ = True"

section \<open>Exceptions\<close>

record exc_attrs =
  a_stage :: "string option"
  a_detail :: "string option"
  a_retryable :: bool
  a_code :: pyval
  a_step :: "string option"
  a_timeout :: "seconds option"

datatype exc =
  Exc (exc_class: pyclass) (exc_str: "exc + string") (exc_attrs: exc_attrs) (exc_cause: "exc option")

definition isinstance :: "exc \<Rightarrow> pyclass \<Rightarrow> bool" where
  "isinstance e c \<longleftrightarrow> issubclass (exc_class e) c"

abbreviation isinstance_opt :: "exc option \<Rightarrow> pyclass \<Rightarrow> bool" where
  "isinstance_opt e c \<equiv> (case e of None \<Rightarrow> False | Some x \<Rightarrow> isinstance x c)"

text \<open>What the library reads with \<open>getattr(exc, name, default)\<close>.\<close>

abbreviation attr_stage :: "exc \<Rightarrow> string option" where "attr_stage e \<equiv> a_stage (exc_attrs e)"
abbreviation attr_detail :: "exc \<Rightarrow> string option" where "attr_detail e \<equiv> a_detail (exc_attrs e)"
abbreviation attr_retryable :: "exc \<Rightarrow> bool" where "attr_retryable e \<equiv> a_retryable (exc_attrs e)"

text \<open>An exception that is not the library's: none of the attributes, so the defaults.\<close>

definition no_attrs :: exc_attrs where
  "no_attrs = \<lparr>a_stage = None, a_detail = None, a_retryable = True, a_code = PyNone,
     a_step = None, a_timeout = None\<rparr>"

definition plain_exc :: "pyclass \<Rightarrow> string \<Rightarrow> exc" where
  "plain_exc c text = Exc c (Inr text) no_attrs None"

definition with_cause :: "exc \<Rightarrow> exc \<Rightarrow> exc" where
  "with_cause e cause = Exc (exc_class e) (exc_str e) (exc_attrs e) (Some cause)"

section \<open>The library's constructors\<close>

text \<open>\<open>BleSessionError.__init__\<close> on an instance of class \<open>cls\<close>: the message, and the
  instance attributes over the class ones.\<close>

definition BleSessionError :: "pyclass \<Rightarrow> string \<Rightarrow> string option \<Rightarrow> string option \<Rightarrow> bool option \<Rightarrow> exc" where
  "BleSessionError cls message stage detail retryable =
     Exc cls (Inr message)
       \<lparr>a_stage = (case stage of Some s \<Rightarrow> Some s | None \<Rightarrow> class_stage cls),
        a_detail = detail,
        a_retryable = (case retryable of Some r \<Rightarrow> r | None \<Rightarrow> class_retryable cls),
        a_code = PyNone, a_step = None, a_timeout = None\<rparr>
       None"

definition Unreachable :: "string \<Rightarrow> bool \<Rightarrow> exc" where
  "Unreachable address connectable =
     BleSessionError UnreachableC
       (''No '' @ (if connectable then ''connectable radio'' else ''radio'') @ '' sees '' @ address
        @ '' (out of range, asleep, or the adapter / proxy is down)'') None None None"

definition ConnectFailed :: "string \<Rightarrow> string option \<Rightarrow> exc" where
  "ConnectFailed message detail = BleSessionError ConnectFailedC message None detail None"

definition SessionDropped :: "string \<Rightarrow> string option \<Rightarrow> exc" where
  "SessionDropped message detail = BleSessionError SessionDroppedC message None detail None"

definition GattMismatch :: "string \<Rightarrow> bool option \<Rightarrow> exc" where
  "GattMismatch message retryable = BleSessionError GattMismatchC message None None retryable"

fun set_attrs :: "(exc_attrs \<Rightarrow> exc_attrs) \<Rightarrow> exc \<Rightarrow> exc" where
  "set_attrs f (Exc c s a cause) = Exc c s (f a) cause"

definition DeviceError :: "string \<Rightarrow> pyval \<Rightarrow> bool option \<Rightarrow> string option \<Rightarrow> string option \<Rightarrow> exc" where
  "DeviceError message code retryable stage detail =
     set_attrs (\<lambda>a. a\<lparr>a_code := code\<rparr>) (BleSessionError DeviceErrorC message stage detail retryable)"

definition NotificationTimeout_init :: "pyclass \<Rightarrow> seconds \<Rightarrow> string \<Rightarrow> string option \<Rightarrow> exc" where
  "NotificationTimeout_init cls timeout step message =
     set_attrs (\<lambda>a. a\<lparr>a_step := Some step, a_timeout := Some timeout\<rparr>)
       (BleSessionError cls
          (case message of
             Some m \<Rightarrow> if m \<noteq> [] then m
               else ''No response from device within '' @ fmt_g timeout @ ''s after '' @ step
           | None \<Rightarrow> ''No response from device within '' @ fmt_g timeout @ ''s after '' @ step)
          None (Some step) None)"

definition NotificationTimeout :: "seconds \<Rightarrow> string \<Rightarrow> string option \<Rightarrow> exc" where
  "NotificationTimeout timeout step message =
     NotificationTimeout_init NotificationTimeoutC timeout step message"

definition WriteTimeout :: "seconds \<Rightarrow> string \<Rightarrow> exc" where
  "WriteTimeout timeout step =
     NotificationTimeout_init WriteTimeoutC timeout step
       (Some (''A write did not complete within '' @ fmt_g timeout @ ''s during '' @ step))"

definition AttemptTimedOut :: "seconds \<Rightarrow> string option \<Rightarrow> string option \<Rightarrow> exc" where
  "AttemptTimedOut timeout stage detail =
     set_attrs (\<lambda>a. a\<lparr>a_timeout := Some timeout\<rparr>)
       (BleSessionError AttemptTimedOutC
          (''Attempt timed out after '' @ fmt_g timeout @ ''s; the BLE stack stopped answering'')
          stage detail None)"

text \<open>\<open>str(exc) or type(exc).__name__\<close>; \<^const>\<open>Inl\<close> when \<open>str(exc)\<close> raises.\<close>

definition error_text :: "exc \<Rightarrow> exc + string" where
  "error_text e =
     (case exc_str e of
        Inl e' \<Rightarrow> Inl e'
      | Inr s \<Rightarrow> Inr (if s \<noteq> [] then s else class_name (exc_class e)))"

section \<open>The class hierarchy\<close>

lemma issubclass_refl [simp]: "issubclass c c"
  by (cases c) (simp_all add: issubclass_def)

lemma mro_trans_aux: "d \<in> set (mro c) \<Longrightarrow> set (mro d) \<subseteq> set (mro c)"
  by (induction c) auto

lemma issubclass_trans: "issubclass c d \<Longrightarrow> issubclass d e \<Longrightarrow> issubclass c e"
  using mro_trans_aux by (auto simp: issubclass_def)

lemma issubclass_Derived [simp]:
  "issubclass (DerivedC n b s r) c \<longleftrightarrow> c = DerivedC n b s r \<or> issubclass b c"
  by (auto simp: issubclass_def)

text \<open>What a class of the library, or one derived from it, is an instance of.\<close>

lemma ble_session_error_supers:
  assumes "issubclass c BleSessionErrorC"
  shows "issubclass c ConnectionErrorC" "issubclass c OSErrorC" "issubclass c ExceptionC"
  using assms issubclass_trans [of c BleSessionErrorC] by (simp_all add: issubclass_def)

lemma base_exception_top: "issubclass c BaseExceptionC"
  by (induction c) (simp_all add: issubclass_def)

lemma cancelled_not_exception [simp]: "\<not> issubclass CancelledErrorC ExceptionC"
  by (simp add: issubclass_def)

lemma isinstance_trans: "isinstance e c \<Longrightarrow> issubclass c d \<Longrightarrow> isinstance e d"
  by (auto simp: isinstance_def intro: issubclass_trans)

subsection \<open>Reading the library's errors\<close>

lemma exc_sel_BleSessionError [simp]:
  "exc_class (BleSessionError c m s d r) = c"
  "exc_str (BleSessionError c m s d r) = Inr m"
  "attr_stage (BleSessionError c m s d r) = (case s of Some x \<Rightarrow> Some x | None \<Rightarrow> class_stage c)"
  "attr_detail (BleSessionError c m s d r) = d"
  "attr_retryable (BleSessionError c m s d r) = (case r of Some b \<Rightarrow> b | None \<Rightarrow> class_retryable c)"
  by (simp_all add: BleSessionError_def)

lemma exc_sel_set_attrs [simp]:
  "exc_class (set_attrs f e) = exc_class e"
  "exc_str (set_attrs f e) = exc_str e"
  "exc_attrs (set_attrs f e) = f (exc_attrs e)"
  "exc_cause (set_attrs f e) = exc_cause e"
  by (cases e; simp)+

lemma exc_sel_with_cause [simp]:
  "exc_class (with_cause e c) = exc_class e"
  "exc_str (with_cause e c) = exc_str e"
  "exc_attrs (with_cause e c) = exc_attrs e"
  "exc_cause (with_cause e c) = Some c"
  by (simp_all add: with_cause_def)

lemma exc_sel_plain [simp]:
  "exc_class (plain_exc c t) = c" "exc_str (plain_exc c t) = Inr t"
  "attr_stage (plain_exc c t) = None" "attr_detail (plain_exc c t) = None"
  "attr_retryable (plain_exc c t)"
  by (simp_all add: plain_exc_def no_attrs_def)

lemma exc_class_lib [simp]:
  "exc_class (Unreachable a b) = UnreachableC"
  "exc_class (ConnectFailed m d) = ConnectFailedC"
  "exc_class (SessionDropped m d) = SessionDroppedC"
  "exc_class (GattMismatch m r) = GattMismatchC"
  "exc_class (DeviceError m c r s d) = DeviceErrorC"
  "exc_class (NotificationTimeout t st msg) = NotificationTimeoutC"
  "exc_class (WriteTimeout t st) = WriteTimeoutC"
  "exc_class (AttemptTimedOut t s d) = AttemptTimedOutC"
  by (simp_all add: Unreachable_def ConnectFailed_def SessionDropped_def GattMismatch_def
      DeviceError_def NotificationTimeout_def NotificationTimeout_init_def WriteTimeout_def
      AttemptTimedOut_def)

lemma attr_stage_lib [simp]:
  "attr_stage (Unreachable a b) = Some UNREACHABLE"
  "attr_stage (ConnectFailed m d) = Some CONNECT"
  "attr_stage (SessionDropped m d) = Some SESSION"
  "attr_stage (GattMismatch m r) = Some SESSION"
  "attr_stage (DeviceError m c r s d) = s"
  "attr_stage (NotificationTimeout t st msg) = None"
  "attr_stage (WriteTimeout t st) = None"
  "attr_stage (AttemptTimedOut t s d) = s"
  by (simp_all add: Unreachable_def ConnectFailed_def SessionDropped_def GattMismatch_def
      DeviceError_def NotificationTimeout_def NotificationTimeout_init_def WriteTimeout_def
      AttemptTimedOut_def split: option.split)

lemma attr_detail_lib [simp]:
  "attr_detail (Unreachable a b) = None"
  "attr_detail (ConnectFailed m d) = d"
  "attr_detail (SessionDropped m d) = d"
  "attr_detail (GattMismatch m r) = None"
  "attr_detail (DeviceError m c r s d) = d"
  "attr_detail (NotificationTimeout t st msg) = Some st"
  "attr_detail (WriteTimeout t st) = Some st"
  "attr_detail (AttemptTimedOut t s d) = d"
  by (simp_all add: Unreachable_def ConnectFailed_def SessionDropped_def GattMismatch_def
      DeviceError_def NotificationTimeout_def NotificationTimeout_init_def WriteTimeout_def
      AttemptTimedOut_def)

lemma attr_retryable_lib [simp]:
  "attr_retryable (Unreachable ad b)"
  "attr_retryable (ConnectFailed m d)"
  "attr_retryable (SessionDropped m d)"
  "attr_retryable (GattMismatch m r) = (r = Some True)"
  "attr_retryable (DeviceError m c r s d) = (r \<noteq> Some False)"
  "attr_retryable (NotificationTimeout t st msg)"
  "attr_retryable (WriteTimeout t st)"
  "attr_retryable (AttemptTimedOut t s d)"
  by (auto simp: Unreachable_def ConnectFailed_def SessionDropped_def GattMismatch_def
      DeviceError_def NotificationTimeout_def NotificationTimeout_init_def WriteTimeout_def
      AttemptTimedOut_def split: option.split)

lemma isinstance_lib [simp]:
  "isinstance (SessionDropped m d) c = issubclass SessionDroppedC c"
  "isinstance (ConnectFailed m d) c = issubclass ConnectFailedC c"
  "isinstance (GattMismatch m r) c = issubclass GattMismatchC c"
  "isinstance (NotificationTimeout t st msg) c = issubclass NotificationTimeoutC c"
  "isinstance (WriteTimeout t st) c = issubclass WriteTimeoutC c"
  "isinstance (AttemptTimedOut t s d) c = issubclass AttemptTimedOutC c"
  "isinstance (Unreachable a b) c = issubclass UnreachableC c"
  "isinstance (DeviceError m code r s d) c = issubclass DeviceErrorC c"
  "isinstance (plain_exc k txt) c = issubclass k c"
  "isinstance (with_cause e e') c = isinstance e c"
  by (simp_all add: isinstance_def)

text \<open>The table of \<open>isinstance\<close> tests on the library's leaf classes, for the simplifier.\<close>

lemmas issubclass_eval = issubclass_def mro.simps

section \<open>Properties\<close>

lemma ble_session_not_cancelled:
  "issubclass c BleSessionErrorC \<Longrightarrow> \<not> issubclass c CancelledErrorC"
  by (induction c) (simp_all add: issubclass_eval)

text \<open>Whatever the library raises, or a class derived from it, is caught by an integration's
  \<open>except (BleakError, ConnectionError, TimeoutError, OSError)\<close> and by \<open>except Exception\<close>,
  and is never taken for a cancellation.\<close>

lemma library_errors_are_connection_errors:
  assumes "isinstance e BleSessionErrorC"
  shows "isinstance e ConnectionErrorC \<and> isinstance e OSErrorC \<and> isinstance e ExceptionC
    \<and> \<not> isinstance e CancelledErrorC"
  using assms ble_session_error_supers ble_session_not_cancelled by (simp add: isinstance_def)

end
