(* ===== verification/Link.thy ===== *)
theory Link
  imports Values
begin

text \<open>
  Which radio a link went over (\<open>src/src/blesession/link.py\<close>).  The private attributes the
  module probes are a record: what \<open>client._connected_scanner\<close> is, and the backend's
  \<open>_source\<close>, \<open>source\<close> and \<open>_device_path\<close>; a missing attribute reads as
  \<^const>\<open>PyNone\<close>, as \<open>getattr(..., None)\<close> gives it.
\<close>

record link_info =
  link_via :: pyval
  link_source :: "string option"
  link_proxy :: "bool option"

definition no_link_info :: link_info where
  "no_link_info = \<lparr>link_via = PyNone, link_source = None, link_proxy = None\<rparr>"

datatype device_details = DetailsDict "(string, pyval) dict" | DetailsOther

record ble_device =
  dev_address :: string
  dev_details :: device_details

record backend =
  b__source :: pyval
  b_source :: pyval
  b__device_path :: pyval

record client_internals =
  connected_scanner :: pyval
  backend_of :: "backend option"

definition lookup_truthy :: "(string, pyval) dict \<Rightarrow> string \<Rightarrow> pyval option" where
  "lookup_truthy d k = (case dict_get d k of Some v \<Rightarrow> if truthy v then Some v else None | None \<Rightarrow> None)"

definition advertising_source :: "ble_device \<Rightarrow> string option" where
  "advertising_source dev =
     (case dev_details dev of
        DetailsOther \<Rightarrow> None
      | DetailsDict d \<Rightarrow>
          (case lookup_truthy d ''source'' of
             Some v \<Rightarrow> Some (py_str v)
           | None \<Rightarrow>
               (case lookup_truthy d ''scanner'' of
                  Some v \<Rightarrow> Some (py_str v)
                | None \<Rightarrow> None)))"

definition is_proxy :: "ble_device \<Rightarrow> bool" where
  "is_proxy dev =
     (case dev_details dev of DetailsOther \<Rightarrow> False | DetailsDict d \<Rightarrow> dict_has d ''source'')"

definition connected_via :: "client_internals \<Rightarrow> pyval" where
  "connected_via c =
     (if connected_scanner c \<noteq> PyNone then connected_scanner c
      else case backend_of c of
        None \<Rightarrow> PyNone
      | Some b \<Rightarrow>
          (if truthy (b__source b) then PyStr (py_str (b__source b))
           else if truthy (b_source b) then PyStr (py_str (b_source b))
           else if truthy (b__device_path b) then PyStr (py_str (b__device_path b))
           else PyNone))"

definition probe_link :: "client_internals \<Rightarrow> ble_device \<Rightarrow> link_info" where
  "probe_link c dev =
     \<lparr>link_via = connected_via c, link_source = advertising_source dev, link_proxy = Some (is_proxy dev)\<rparr>"

lemma connected_via_scanner [simp]:
  "connected_scanner c \<noteq> PyNone \<Longrightarrow> connected_via c = connected_scanner c"
  by (simp add: connected_via_def)

lemma connected_via_None_iff:
  "connected_via c = PyNone \<longleftrightarrow>
     connected_scanner c = PyNone \<and>
     (\<forall>b. backend_of c = Some b \<longrightarrow> \<not> truthy (b__source b) \<and> \<not> truthy (b_source b) \<and> \<not> truthy (b__device_path b))"
  by (auto simp: connected_via_def split: option.splits)

lemma advertising_source_dict:
  "dev_details dev = DetailsDict d \<Longrightarrow> lookup_truthy d ''source'' = Some v \<Longrightarrow>
     advertising_source dev = Some (py_str v)"
  by (simp add: advertising_source_def)

text \<open>A device whose advertisement names a usable source is reached through a proxy.\<close>

lemma source_implies_proxy:
  "dev_details dev = DetailsDict d \<Longrightarrow> lookup_truthy d ''source'' = Some v \<Longrightarrow> is_proxy dev"
  by (auto simp: is_proxy_def lookup_truthy_def dict_has_get split: option.splits)

end
