(* ===== verification/Hass.thy ===== *)
theory Hass
  imports Errors Link
begin

text \<open>
  What only Home Assistant knows (\<open>src/src/blesession/hass.py\<close>).  Home Assistant is a
  parameter, the record \<open>hass\<close>: which objects are scanners, the scanner of a source id,
  the source of the last advertisement, how many scanners see an address, the device handle; each
  lookup may raise.  A scanner has an identity, a name, whether it is a remote one (a proxy) and
  what its advertisement lookup gives for an address: the RSSI, or nothing.
\<close>

record scanner =
  sc_id :: nat
  sc_name :: string
  sc_remote :: bool
  sc_seen :: "string \<Rightarrow> exc + pyval option"

record hass =
  scanner_object :: "nat \<Rightarrow> scanner option"
  scanner_by_source :: "string \<Rightarrow> exc + scanner option"
  last_service_source :: "string \<Rightarrow> exc + string option"
  scanner_devices :: "string \<Rightarrow> exc + nat"
  device_from_address :: "string \<Rightarrow> bool \<Rightarrow> exc + ble_device option"

definition ble_device_or_raise :: "hass \<Rightarrow> string \<Rightarrow> bool \<Rightarrow> exc + ble_device" where
  "ble_device_or_raise h address connectable =
     res_bind (device_from_address h address connectable) (\<lambda>device.
       case device of None \<Rightarrow> Inl (Unreachable address connectable) | Some d \<Rightarrow> Inr d)"

definition scanner_for :: "hass \<Rightarrow> pyval \<Rightarrow> exc + scanner option" where
  "scanner_for h v =
     (case v of
        PyObj i _ _ \<Rightarrow> Inr (scanner_object h i)
      | PyStr s \<Rightarrow> if s \<noteq> [] then scanner_by_source h s else Inr None
      | _ \<Rightarrow> Inr None)"

definition opt_str :: "string option \<Rightarrow> pyval" where
  "opt_str s = (case s of None \<Rightarrow> PyNone | Some x \<Rightarrow> PyStr x)"

text \<open>The scanner whose advertisement was strongest, before and after the fallback.\<close>

definition advertised_scanner :: "hass \<Rightarrow> string \<Rightarrow> link_info option \<Rightarrow> exc + scanner option" where
  "advertised_scanner h address link =
     res_bind (scanner_for h (case link of None \<Rightarrow> PyNone | Some l \<Rightarrow> opt_str (link_source l))) (\<lambda>adv.
       case adv of
         Some s \<Rightarrow> Inr (Some s)
       | None \<Rightarrow>
           res_bind (last_service_source h address) (\<lambda>info.
             case info of None \<Rightarrow> Inr None | Some src \<Rightarrow> scanner_by_source h src))"

definition or_else :: "'a option \<Rightarrow> 'a option \<Rightarrow> 'a option" where
  "or_else a b = (case a of None \<Rightarrow> b | Some x \<Rightarrow> Some x)"

text \<open>The RSSI fact: an advertisement lookup that raises loses only the RSSI.\<close>

definition rssi_fact :: "scanner option \<Rightarrow> string \<Rightarrow> exc + (string, pyval) dict" where
  "rssi_fact sc address =
     (case sc of
        None \<Rightarrow> Inr []
      | Some s \<Rightarrow>
          (case sc_seen s address of
             Inl e \<Rightarrow> if isinstance e ExceptionC then Inr [] else Inl e
           | Inr None \<Rightarrow> Inr []
           | Inr (Some rssi) \<Rightarrow> Inr [(''rssi'', rssi)]))"

definition read_radio_facts :: "hass \<Rightarrow> string \<Rightarrow> link_info option \<Rightarrow> exc + (string, pyval) dict" where
  "read_radio_facts h address link =
     res_bind (advertised_scanner h address link) (\<lambda>advertised.
     res_bind (scanner_for h (case link of None \<Rightarrow> PyNone | Some l \<Rightarrow> link_via l)) (\<lambda>took.
       let connected = or_else took advertised;
           route = (case connected of
               Some s \<Rightarrow> [(''via'', PyStr (sc_name s)), (''via_type'', PyStr (if sc_remote s then ''proxy'' else ''adapter''))]
             | None \<Rightarrow>
                 (case link of
                    Some l \<Rightarrow> if truthy (link_via l) then [(''via'', PyStr (py_str (link_via l)))] else []
                  | None \<Rightarrow> []));
           unconfirmed = (if connected \<noteq> None \<and> took = None then [(''via_unconfirmed'', PyBool True)] else []);
           other = (case (advertised, connected) of
               (Some a, Some c) \<Rightarrow> if sc_id a \<noteq> sc_id c then [(''advertised_via'', PyStr (sc_name a))] else []
             | _ \<Rightarrow> [])
       in res_bind (rssi_fact (or_else connected advertised) address) (\<lambda>rssi.
          res_bind (scanner_devices h address) (\<lambda>n.
            Inr (route @ unconfirmed @ rssi @ [(''paths'', PyInt (int n))] @ other)))))"

text \<open>\<open>@_never_raises\<close>: a lookup that fails yields no facts.\<close>

definition never_raises :: "exc + (string, pyval) dict \<Rightarrow> exc + (string, pyval) dict" where
  "never_raises r =
     (case r of Inl e \<Rightarrow> if isinstance e ExceptionC then Inr [] else Inl e | Inr d \<Rightarrow> Inr d)"

definition radio_facts :: "hass \<Rightarrow> string \<Rightarrow> link_info option \<Rightarrow> exc + (string, pyval) dict" where
  "radio_facts h address link = never_raises (read_radio_facts h address link)"

lemma never_raises_Inl: "never_raises r = Inl e \<Longrightarrow> \<not> isinstance e ExceptionC"
  by (auto simp: never_raises_def split: sum.splits if_splits)

lemma read_radio_facts_keys:
  assumes "read_radio_facts h address link = Inr d"
  shows "distinct (dict_keys d) \<and>
    set (dict_keys d) \<subseteq> {''via'', ''via_type'', ''rssi'', ''paths'', ''advertised_via'', ''via_unconfirmed''}"
proof -
  have rssi: "r = [] \<or> (\<exists>v. r = [(''rssi'', v)])" if "rssi_fact sc address = Inr r" for sc r
    using that by (auto simp: rssi_fact_def split: option.splits sum.splits if_splits)
  show ?thesis
    using assms unfolding read_radio_facts_def Let_def
    by (auto simp: result_simps split: option.splits if_splits dest!: rssi)
qed

section \<open>Properties\<close>

text \<open>
  C39: The route in the facts is the radio the link really went over: when the link knows its scanner,
  that scanner gives \<open>via\<close>, the route is not marked unconfirmed, and the radio heard best is named
  beside it exactly when it is another one.
\<close>

theorem route_is_the_links_scanner:
  assumes "radio_facts h address (Some l) = Inr d" and "d \<noteq> []"
    and "scanner_for h (link_via l) = Inr (Some c)"
    and "advertised_scanner h address (Some l) = Inr (Some a)"
  shows "dict_get d ''via'' = Some (PyStr (sc_name c))
    \<and> dict_get d ''via_type'' = Some (PyStr (if sc_remote c then ''proxy'' else ''adapter''))
    \<and> dict_get d ''via_unconfirmed'' = None
    \<and> dict_get d ''advertised_via'' = (if sc_id a = sc_id c then None else Some (PyStr (sc_name a)))"
proof -
  from assms(1,2) have "read_radio_facts h address (Some l) = Inr d"
    by (auto simp: radio_facts_def never_raises_def split: sum.splits if_splits)
  with assms(3,4) obtain r n where "rssi_fact (Some c) address = Inr r" and
    d: "d = [(''via'', PyStr (sc_name c)), (''via_type'', PyStr (if sc_remote c then ''proxy'' else ''adapter''))]
        @ r @ [(''paths'', PyInt (int n))]
        @ (if sc_id a \<noteq> sc_id c then [(''advertised_via'', PyStr (sc_name a))] else [])"
    by (auto simp: read_radio_facts_def result_simps or_else_def split: sum.splits if_splits)
  moreover from this(1) have "r = [] \<or> (\<exists>v. r = [(''rssi'', v)])"
    by (auto simp: rssi_fact_def split: sum.splits option.splits if_splits)
  ultimately show ?thesis by auto
qed

text \<open>A proxy took a link the local adapter heard best.\<close>

definition two_radios :: hass where
  "two_radios =
     (let proxy = \<lparr>sc_id = 1, sc_name = ''proxy-1'', sc_remote = True, sc_seen = \<lambda>_. Inr (Some (PyInt (- 70)))\<rparr>;
          hci0 = \<lparr>sc_id = 2, sc_name = ''hci0'', sc_remote = False, sc_seen = \<lambda>_. Inr None\<rparr>
      in \<lparr>scanner_object = (\<lambda>i. None),
          scanner_by_source = (\<lambda>s. Inr (if s = ''p1'' then Some proxy else if s = ''hci0'' then Some hci0 else None)),
          last_service_source = (\<lambda>_. Inr None), scanner_devices = (\<lambda>_. Inr 2),
          device_from_address = (\<lambda>_ _. Inr None)\<rparr>)"

theorem route_is_the_links_scanner_witness:
  "\<exists>d. radio_facts two_radios ''AA:BB'' (Some \<lparr>link_via = PyStr ''p1'', link_source = Some ''hci0'', link_proxy = Some True\<rparr>) = Inr d
     \<and> dict_get d ''via'' = Some (PyStr ''proxy-1'') \<and> dict_get d ''advertised_via'' = Some (PyStr ''hci0'')"
proof -
  let ?link = "\<lparr>link_via = PyStr ''p1'', link_source = Some ''hci0'', link_proxy = Some True\<rparr>"
  let ?proxy = "\<lparr>sc_id = 1, sc_name = ''proxy-1'', sc_remote = True, sc_seen = \<lambda>_. Inr (Some (PyInt (- 70)))\<rparr>"
  let ?hci0 = "\<lparr>sc_id = 2, sc_name = ''hci0'', sc_remote = False, sc_seen = \<lambda>_. Inr None\<rparr>"
  have via: "scanner_for two_radios (link_via ?link) = Inr (Some ?proxy)"
    and adv: "advertised_scanner two_radios ''AA:BB'' (Some ?link) = Inr (Some ?hci0)"
    by (simp_all add: scanner_for_def advertised_scanner_def two_radios_def Let_def opt_str_def result_simps)
  obtain d where d: "radio_facts two_radios ''AA:BB'' (Some ?link) = Inr d" "d \<noteq> []"
    using via adv
    by (simp add: radio_facts_def never_raises_def read_radio_facts_def result_simps or_else_def rssi_fact_def)
       (simp add: two_radios_def Let_def result_simps)
  from route_is_the_links_scanner [OF d via adv] d show ?thesis by auto
qed

end
