(* ===== verification/Gatt.thy ===== *)
theory Gatt
  imports Errors
begin

text \<open>
  Finding a characteristic and the size of one write (\<open>src/src/blesession/gatt.py\<close>).  bleak's
  objects are parameters: \<open>get_service\<close> is \<open>client.services.get_service\<close> (reading
  \<open>client.services\<close> may itself raise), \<open>get_characteristic\<close> the method of a service;
  a characteristic is its properties and what reading its write size gives; \<open>mtu_size\<close>
  is what reading \<open>client.mtu_size\<close> gives, and whether a warning was emitted on the way.
\<close>

definition ATT_OVERHEAD :: int where "ATT_OVERHEAD = 3"
definition DEFAULT_WRITE_SIZE :: int where "DEFAULT_WRITE_SIZE = 20"

record gatt_char =
  properties :: "string list"
  max_write_without_response_size :: "exc + pyval"

text \<open>What one write can carry, and where the figure came from.\<close>

datatype size_source = FromCharacteristic | FromMtu | FromDefault

record write_limit_info =
  size :: int
  mtu :: "int option"
  size_from :: size_source

fun source_text :: "size_source \<Rightarrow> string" where
  "source_text FromCharacteristic = ''characteristic''"
| "source_text FromMtu = ''mtu''"
| "source_text FromDefault = ''default''"

definition limit_facts :: "write_limit_info \<Rightarrow> (string, pyval) dict" where
  "limit_facts l =
     (case mtu l of None \<Rightarrow> [] | Some m \<Rightarrow> [(''mtu'', PyInt m)])
     @ [(''write_size'', PyInt (size l)), (''write_size_source'', PyStr (source_text (size_from l)))]"

section \<open>The lookup\<close>

text \<open>The \<open>properties\<close> argument: a bare string is one property.\<close>

datatype required = One string | Many "string list"

fun required_list :: "required \<Rightarrow> string list" where
  "required_list (One p) = [p]"
| "required_list (Many ps) = ps"

text \<open>\<open>size < n\<close> on a Python value; \<^const>\<open>None\<close> where the comparison raises.\<close>

fun less_than :: "pyval \<Rightarrow> int \<Rightarrow> bool option" where
  "less_than (PyFloat x) n = Some (x < of_int n)"
| "less_than v n = map_option (\<lambda>i. i < n) (as_int v)"

text \<open>\<open>except BleakError as exc: raise GattMismatch(..., retryable=True) from exc\<close>\<close>

definition lookup_failed :: "string \<Rightarrow> exc \<Rightarrow> exc" where
  "lookup_failed label e =
     (if isinstance e BleakErrorC then
        (case exc_str e of
           Inl e' \<Rightarrow> e'
         | Inr text \<Rightarrow> with_cause (GattMismatch (label @ '' GATT lookup failed: '' @ text) (Some True)) e)
      else e)"

definition characteristic_or_raise ::
  "(string \<Rightarrow> exc + 's option) \<Rightarrow> ('s \<Rightarrow> string \<Rightarrow> exc + gatt_char option) \<Rightarrow> string \<Rightarrow> string
    \<Rightarrow> required \<Rightarrow> int option \<Rightarrow> string \<Rightarrow> exc + gatt_char" where
  "characteristic_or_raise get_service get_characteristic service_uuid char_uuid required min_write_size label =
     (case get_service service_uuid of
        Inl e \<Rightarrow> Inl (lookup_failed label e)
      | Inr None \<Rightarrow> Inl (GattMismatch (label @ '' service '' @ service_uuid @ '' is missing'') None)
      | Inr (Some service) \<Rightarrow>
     (case get_characteristic service char_uuid of
        Inl e \<Rightarrow> Inl (lookup_failed label e)
      | Inr None \<Rightarrow> Inl (GattMismatch (label @ '' characteristic '' @ char_uuid @ '' is missing'') None)
      | Inr (Some char) \<Rightarrow>
          (let missing = filter (\<lambda>p. p \<notin> set (properties char)) (required_list required)
           in if missing \<noteq> [] then
                Inl (GattMismatch (label @ '' characteristic '' @ char_uuid @ '' lacks '' @ join '', '' missing
                  @ '' (has '' @ (if join '', '' (properties char) \<noteq> [] then join '', '' (properties char) else ''none'') @ '')'')
                  None)
              else case min_write_size of
                None \<Rightarrow> Inr char
              | Some n \<Rightarrow>
                  res_bind (max_write_without_response_size char) (\<lambda>sz.
                    case less_than sz n of
                      None \<Rightarrow> Inl (plain_exc TypeErrorC ''not supported between instances'')
                    | Some True \<Rightarrow>
                        Inl (GattMismatch (label @ '' write size '' @ py_str sz @ '' is too small for the protocol's ''
                          @ int_text n @ ''-byte frames'') (Some True))
                    | Some False \<Rightarrow> Inr char))))"

section \<open>The size of one write\<close>

definition reported_mtu :: "exc + pyval \<times> bool \<Rightarrow> exc + int option" where
  "reported_mtu mtu_size =
     (case mtu_size of
        Inl e \<Rightarrow> if isinstance e ExceptionC then Inr None else Inl e
      | Inr (value, caught) \<Rightarrow>
          (case as_int value of
             None \<Rightarrow> Inr None
           | Some m \<Rightarrow> if caught \<or> is_bool value \<or> m \<le> ATT_OVERHEAD then Inr None else Inr (Some m)))"

definition reported_write_size :: "gatt_char option \<Rightarrow> exc + int option" where
  "reported_write_size char =
     (case char of
        None \<Rightarrow> Inr None
      | Some c \<Rightarrow>
          (case max_write_without_response_size c of
             Inl e \<Rightarrow> if isinstance e ExceptionC then Inr None else Inl e
           | Inr value \<Rightarrow>
               (case as_int value of
                  None \<Rightarrow> Inr None
                | Some n \<Rightarrow> if \<not> is_bool value \<and> n > 0 then Inr (Some n) else Inr None)))"

definition write_limit ::
  "exc + pyval \<times> bool \<Rightarrow> gatt_char option \<Rightarrow> bool \<Rightarrow> int \<Rightarrow> exc + write_limit_info" where
  "write_limit mtu_size char response fallback =
     res_bind (reported_mtu mtu_size) (\<lambda>m.
       let from_mtu = map_option (\<lambda>x. x - ATT_OVERHEAD) m;
           of_mtu = (case from_mtu of
               Some s \<Rightarrow> Inr \<lparr>size = s, mtu = m, size_from = FromMtu\<rparr>
             | None \<Rightarrow> Inr \<lparr>size = fallback, mtu = m, size_from = FromDefault\<rparr>)
       in if \<not> response then
            res_bind (reported_write_size char) (\<lambda>sz.
              case sz of
                Some s \<Rightarrow> if s > DEFAULT_WRITE_SIZE
                          then Inr \<lparr>size = s, mtu = m, size_from = FromCharacteristic\<rparr> else of_mtu
              | None \<Rightarrow> of_mtu)
          else of_mtu)"

lemma reported_mtu_bound: "reported_mtu r = Inr (Some m) \<Longrightarrow> ATT_OVERHEAD < m"
  by (auto simp: reported_mtu_def split: sum.splits option.splits if_splits prod.splits)

lemma reported_write_size_bound: "reported_write_size c = Inr (Some n) \<Longrightarrow> 0 < n"
  by (auto simp: reported_write_size_def split: sum.splits option.splits if_splits)

lemma reported_mtu_warned [simp]: "reported_mtu (Inr (v, True)) = Inr None"
  by (auto simp: reported_mtu_def split: option.split)

lemma reported_never_raises_exceptions:
  "reported_mtu r = Inl e \<Longrightarrow> \<not> isinstance e ExceptionC"
  "reported_write_size c = Inl e \<Longrightarrow> \<not> isinstance e ExceptionC"
  by (auto simp: reported_mtu_def reported_write_size_def split: sum.splits option.splits if_splits prod.splits)

section \<open>Properties\<close>

text \<open>The lookup hands back a characteristic exactly when the device has the service and the
  characteristic, it has every property asked for, and its write size is not known to be too small.\<close>

lemma characteristic_accepted:
  "characteristic_or_raise gs gc service_uuid char_uuid props min_size label = Inr c \<longleftrightarrow>
    (\<exists>service. gs service_uuid = Inr (Some service) \<and> gc service char_uuid = Inr (Some c)
      \<and> set (required_list props) \<subseteq> set (properties c)
      \<and> (case min_size of None \<Rightarrow> True
         | Some n \<Rightarrow> (\<exists>v. max_write_without_response_size c = Inr v \<and> less_than v n = Some False)))"
proof -
  have missing: "filter (\<lambda>p. p \<notin> set (properties d)) (required_list props) = [] \<longleftrightarrow>
      set (required_list props) \<subseteq> set (properties d)" for d
    by (auto simp: filter_empty_conv)
  show ?thesis
    by (auto simp: characteristic_or_raise_def Let_def missing res_bind_def
        split: sum.split option.split bool.split)
qed

text \<open>The device lacks something the protocol needs.\<close>

definition lacking ::
  "(string \<Rightarrow> exc + 's option) \<Rightarrow> ('s \<Rightarrow> string \<Rightarrow> exc + gatt_char option) \<Rightarrow> string \<Rightarrow> string \<Rightarrow> required \<Rightarrow> bool" where
  "lacking gs gc service_uuid char_uuid props =
     (case gs service_uuid of
        Inl e \<Rightarrow> False
      | Inr None \<Rightarrow> True
      | Inr (Some service) \<Rightarrow>
          (case gc service char_uuid of
             Inl e \<Rightarrow> False
           | Inr None \<Rightarrow> True
           | Inr (Some c) \<Rightarrow> \<not> set (required_list props) \<subseteq> set (properties c)))"

text \<open>A bleak lookup as documented: what it raises is a \<open>BleakError\<close> with a printable text.\<close>

definition bleak_lookup :: "exc + 'a \<Rightarrow> bool" where
  "bleak_lookup r = (case r of Inl e \<Rightarrow> isinstance e BleakErrorC \<and> \<not> isl (exc_str e) | Inr _ \<Rightarrow> True)"

text \<open>
  C37: When the lookup refuses a device, the error is a \<open>GattMismatch\<close>, and it is final exactly
  when the service, the characteristic or a property is missing; a lookup that failed and a write
  size that is too small (the MTU may not be negotiated yet) may be retried.
\<close>

theorem mismatch_final_iff_lacking:
  assumes "bleak_lookup (gs service_uuid)"
    and "\<forall>service. bleak_lookup (gc service char_uuid)"
    and "\<forall>service c. gc service char_uuid = Inr (Some c) \<longrightarrow>
           (\<exists>v. max_write_without_response_size c = Inr (PyInt v))"
    and "characteristic_or_raise gs gc service_uuid char_uuid props min_size label = Inl e"
  shows "isinstance e GattMismatchC \<and> (attr_retryable e \<longleftrightarrow> \<not> lacking gs gc service_uuid char_uuid props)"
proof -
  have failed: "isinstance (lookup_failed label x) GattMismatchC \<and> attr_retryable (lookup_failed label x)"
    if "bleak_lookup (Inl x :: exc + 'b)" for x
    using that by (cases "exc_str x") (auto simp: bleak_lookup_def lookup_failed_def)
  have missing: "filter (\<lambda>p. p \<notin> set (properties d)) (required_list props) = [] \<longleftrightarrow>
      set (required_list props) \<subseteq> set (properties d)" for d
    by (auto simp: filter_empty_conv)
  show ?thesis
  proof (cases "gs service_uuid")
    case (Inl x)
    with assms(1,4) failed show ?thesis
      by (auto simp: characteristic_or_raise_def lacking_def bleak_lookup_def)
  next
    case (Inr found)
    show ?thesis
    proof (cases found)
      case None
      with Inr assms(4) show ?thesis by (auto simp: characteristic_or_raise_def lacking_def)
    next
      case (Some service)
      show ?thesis
      proof (cases "gc service char_uuid")
        case (Inl x)
        with assms(2) have "bleak_lookup (Inl x :: exc + gatt_char option)" by metis
        with Inr Some Inl assms(4) failed show ?thesis
          by (auto simp: characteristic_or_raise_def lacking_def bleak_lookup_def)
      next
        case found: (Inr c)
        with Inr Some assms(3,4) show ?thesis
          by (cases c) (fastforce simp: characteristic_or_raise_def lacking_def Let_def missing
              res_bind_def split: option.splits bool.splits if_splits)+
      qed
    qed
  qed
qed

text \<open>A client with one service and one characteristic, which only notifies.\<close>

definition notify_only :: gatt_char where
  "notify_only = \<lparr>properties = [''notify''], max_write_without_response_size = Inr (PyInt 20)\<rparr>"

theorem mismatch_final_iff_lacking_witness:
  "(\<exists>e. characteristic_or_raise (\<lambda>_. Inr (Some ())) (\<lambda>_ _. Inr (Some notify_only)) ''180f'' ''2a19''
          (Many [''write'']) None ''tag'' = Inl e \<and> isinstance e GattMismatchC \<and> \<not> attr_retryable e)
   \<and> (\<exists>e. characteristic_or_raise (\<lambda>_. Inr (Some ())) (\<lambda>_ _. Inr (Some notify_only)) ''180f'' ''2a19''
          (One ''notify'') (Some 100) ''tag'' = Inl e \<and> isinstance e GattMismatchC \<and> attr_retryable e)"
proof -
  let ?find = "characteristic_or_raise (\<lambda>_. Inr (Some ())) (\<lambda>_ _. Inr (Some notify_only)) ''180f'' ''2a19''"
  have size: "\<forall>service c. (Inr (Some notify_only) :: exc + gatt_char option) = Inr (Some c) \<longrightarrow>
      (\<exists>v. max_write_without_response_size c = Inr (PyInt v))"
    by (simp add: notify_only_def)
  note spec = mismatch_final_iff_lacking
    [of "\<lambda>_. Inr (Some ())" "''180f''" "\<lambda>_ _. Inr (Some notify_only)" "''2a19''"]
  obtain e1 where e1: "?find (Many [''write'']) None ''tag'' = Inl e1"
    by (simp add: characteristic_or_raise_def notify_only_def)
  obtain e2 where e2: "?find (One ''notify'') (Some 100) ''tag'' = Inl e2"
    by (simp add: characteristic_or_raise_def notify_only_def res_bind_def)
  from spec [OF _ _ _ e1] spec [OF _ _ _ e2] e1 e2 size show ?thesis
    by (auto simp: lacking_def notify_only_def bleak_lookup_def)
qed

text \<open>
  C38: The size of one write says where it came from and keeps to it: the characteristic's own figure
  is used only for a write without response and only above the 20-byte default; the MTU's is the MTU
  less the ATT header, and positive; otherwise it is the fallback, and no MTU is claimed.  No ordinary
  exception of the backend escapes.
\<close>

theorem write_limit_sound:
  "case write_limit mtu_size char response fallback of
     Inl e \<Rightarrow> \<not> isinstance e ExceptionC
   | Inr l \<Rightarrow>
       (case size_from l of
          FromCharacteristic \<Rightarrow> \<not> response \<and> DEFAULT_WRITE_SIZE < size l
            \<and> reported_write_size char = Inr (Some (size l))
        | FromMtu \<Rightarrow> 0 < size l \<and> mtu l = Some (size l + ATT_OVERHEAD)
        | FromDefault \<Rightarrow> size l = fallback \<and> mtu l = None)"
  using reported_never_raises_exceptions(1) [of mtu_size] reported_never_raises_exceptions(2) [of char]
    reported_mtu_bound [of mtu_size]
  by (auto simp: write_limit_def Let_def res_bind_def split: sum.split option.split)

end
