(* ===== verification/Trace.thy ===== *)
theory Trace
  imports Errors Link
begin

text \<open>
  The session trace of \<open>src/src/blesession/trace.py\<close>: the seconds per stage in the order
  the stages finished, the stack of running stages (innermost last), the stage a failure hit, the
  noted facts and the link.  The context manager \<open>timed\<close> is its two halves here,
  \<open>timed_enter\<close> and \<open>timed_exit\<close>; the theory Runtime runs a body between them.
\<close>

record session_trace =
  stage_map :: "stage_map option"
  raw_timings :: "(string, seconds) dict"
  stage_stack :: "string list"
  failed_stage :: "string option"
  trace_facts :: "(string, pyval) dict"
  trace_link :: "link_info option"

definition new_trace :: "stage_map option \<Rightarrow> session_trace" where
  "new_trace m =
     \<lparr>stage_map = m, raw_timings = [], stage_stack = [], failed_stage = None, trace_facts = [], trace_link = None\<rparr>"

definition current_stage :: "session_trace \<Rightarrow> string option" where
  "current_stage t = (if stage_stack t = [] then None else Some (last (stage_stack t)))"

section \<open>Timing stages\<close>

definition add_seconds :: "string \<Rightarrow> seconds \<Rightarrow> session_trace \<Rightarrow> session_trace" where
  "add_seconds name s t =
     t\<lparr>raw_timings := dict_set name
         ((case dict_get (raw_timings t) name of None \<Rightarrow> 0 | Some x \<Rightarrow> x) + s) (raw_timings t)\<rparr>"

definition timed_enter :: "string \<Rightarrow> session_trace \<Rightarrow> session_trace" where
  "timed_enter name t = t\<lparr>stage_stack := stage_stack t @ [name]\<rparr>"

text \<open>\<open>except BaseException: if self.failed_stage is None: self.failed_stage = name\<close>\<close>

definition fail_stage :: "string \<Rightarrow> session_trace \<Rightarrow> session_trace" where
  "fail_stage name t = (if failed_stage t = None then t\<lparr>failed_stage := Some name\<rparr> else t)"

definition timed_exit :: "string \<Rightarrow> bool \<Rightarrow> seconds \<Rightarrow> session_trace \<Rightarrow> session_trace" where
  "timed_exit name raised elapsed t =
     (let t1 = (if raised then fail_stage name t else t);
          t2 = t1\<lparr>stage_stack := butlast (stage_stack t1)\<rparr>
      in add_seconds name elapsed t2)"

definition record_stage :: "string \<Rightarrow> seconds \<Rightarrow> session_trace \<Rightarrow> session_trace" where
  "record_stage name s t = add_seconds name s t"

definition forgive :: "string option \<Rightarrow> session_trace \<Rightarrow> session_trace" where
  "forgive name t =
     (if name = None \<or> failed_stage t = name then t\<lparr>failed_stage := None\<rparr> else t)"

section \<open>Where a failure hit\<close>

definition failed_primary :: "session_trace \<Rightarrow> string option" where
  "failed_primary t = primary_of (failed_stage t) (stage_map t)"

definition failed_detail :: "session_trace \<Rightarrow> string option" where
  "failed_detail t =
     (if failed_stage t = None \<or> failed_stage t = failed_primary t then None else failed_stage t)"

definition failure :: "session_trace \<Rightarrow> exc option \<Rightarrow> string option \<times> string option" where
  "failure t exc =
     (case exc of
        None \<Rightarrow> (None, None)
      | Some e \<Rightarrow>
          (case failed_primary t of
             None \<Rightarrow> (attr_stage e, attr_detail e)
           | Some s \<Rightarrow>
               (if failed_detail t = None \<and> attr_stage e = Some s
                then (Some s, attr_detail e)
                else (Some s, failed_detail t))))"

section \<open>Facts and the published form\<close>

fun note_facts :: "(string, pyval) dict \<Rightarrow> session_trace \<Rightarrow> session_trace" where
  "note_facts [] t = t"
| "note_facts ((k, v) # kvs) t =
    note_facts kvs (if v = PyNone then t else t\<lparr>trace_facts := dict_set k v (trace_facts t)\<rparr>)"

definition timings :: "session_trace \<Rightarrow> (string, seconds) dict" where
  "timings t = map (\<lambda>(name, s). (name, round3 s)) (raw_timings t)"

definition stage_seconds :: "session_trace \<Rightarrow> (string, pyval) dict" where
  "stage_seconds t = map (\<lambda>(name, s). (name @ ''_s'', PyFloat s)) (timings t)"

definition as_dict :: "session_trace \<Rightarrow> (string, pyval) dict" where
  "as_dict t =
     dict_update
       (dict_update
          (case failed_stage t of
             Some s \<Rightarrow> if s \<noteq> [] then [(''failed_stage'', PyStr s)] else []
           | None \<Rightarrow> [])
          (trace_facts t))
       (stage_seconds t)"

section \<open>Facts about the trace\<close>

text \<open>Fields each operation leaves alone.\<close>

lemma add_seconds_sel [simp]:
  "stage_map (add_seconds n s t) = stage_map t" "stage_stack (add_seconds n s t) = stage_stack t"
  "failed_stage (add_seconds n s t) = failed_stage t" "trace_facts (add_seconds n s t) = trace_facts t"
  "trace_link (add_seconds n s t) = trace_link t"
  by (simp_all add: add_seconds_def)

lemma fail_sel [simp]:
  "stage_map (fail_stage n t) = stage_map t" "stage_stack (fail_stage n t) = stage_stack t"
  "raw_timings (fail_stage n t) = raw_timings t" "trace_facts (fail_stage n t) = trace_facts t" "trace_link (fail_stage n t) = trace_link t"
  "failed_stage (fail_stage n t) = (case failed_stage t of None \<Rightarrow> Some n | Some s \<Rightarrow> Some s)"
  by (auto simp: fail_stage_def split: option.split)

lemma timed_enter_sel [simp]:
  "stage_map (timed_enter n t) = stage_map t" "stage_stack (timed_enter n t) = stage_stack t @ [n]"
  "raw_timings (timed_enter n t) = raw_timings t" "failed_stage (timed_enter n t) = failed_stage t"
  "trace_facts (timed_enter n t) = trace_facts t" "trace_link (timed_enter n t) = trace_link t"
  by (simp_all add: timed_enter_def)

lemma timed_exit_sel [simp]:
  "stage_map (timed_exit n r s t) = stage_map t" "stage_stack (timed_exit n r s t) = butlast (stage_stack t)"
  "trace_facts (timed_exit n r s t) = trace_facts t" "trace_link (timed_exit n r s t) = trace_link t"
  "failed_stage (timed_exit n r s t) =
     (case failed_stage t of None \<Rightarrow> if r then Some n else None | Some f \<Rightarrow> Some f)"
  by (auto simp: timed_exit_def Let_def split: option.split)

lemma timed_exit_timings:
  "raw_timings (timed_exit n r s t) = raw_timings (add_seconds n s t)"
  by (simp add: timed_exit_def Let_def add_seconds_def)

lemma note_sel [simp]:
  "stage_map (note_facts kvs t) = stage_map t" "stage_stack (note_facts kvs t) = stage_stack t"
  "raw_timings (note_facts kvs t) = raw_timings t" "failed_stage (note_facts kvs t) = failed_stage t"
  "trace_link (note_facts kvs t) = trace_link t"
  by (induction kvs t rule: note_facts.induct) auto

lemma note_get:
  "distinct (dict_keys kvs) \<Longrightarrow>
   dict_get (trace_facts (note_facts kvs t)) k =
     (case dict_get kvs k of
        Some v \<Rightarrow> if v = PyNone then dict_get (trace_facts t) k else Some v
      | None \<Rightarrow> dict_get (trace_facts t) k)"
proof (induction kvs t rule: note_facts.induct)
  case (2 k' v kvs t)
  from "2.prems" have "k = k' \<Longrightarrow> dict_get kvs k = None"
    by (auto simp: map_of_eq_None_iff)
  with 2 show ?case by (auto simp: dict_simps split: option.splits)
qed simp

text \<open>The seconds a stage has collected, and their total.\<close>

definition seconds_of :: "session_trace \<Rightarrow> string \<Rightarrow> seconds" where
  "seconds_of t name = (case dict_get (raw_timings t) name of None \<Rightarrow> 0 | Some s \<Rightarrow> s)"

definition total_seconds :: "session_trace \<Rightarrow> seconds" where
  "total_seconds t = sum_list (map snd (raw_timings t))"

lemma seconds_of_add [simp]:
  "seconds_of (add_seconds n s t) m = seconds_of t m + (if m = n then s else 0)"
  by (auto simp: seconds_of_def add_seconds_def dict_simps split: option.split)

lemma sum_dict_set:
  fixes d :: "('k, rat) dict"
  shows "sum_list (map snd (dict_set k v d)) =
    sum_list (map snd d) - (case dict_get d k of None \<Rightarrow> 0 | Some x \<Rightarrow> x) + v"
  by (induction d) auto

lemma total_seconds_add [simp]: "total_seconds (add_seconds n s t) = total_seconds t + s"
  by (auto simp: total_seconds_def add_seconds_def sum_dict_set split: option.split)

lemma timings_keys: "dict_keys (timings t) = dict_keys (raw_timings t)"
  by (simp add: timings_def split_def comp_def)

lemma failed_detail_None:
  "failed_detail t = None \<longleftrightarrow> failed_stage t = None \<or> failed_stage t = failed_primary t"
  by (auto simp: failed_detail_def)

lemma failed_primary_None [simp]: "failed_primary t = None \<longleftrightarrow> failed_stage t = None"
  by (simp add: failed_primary_def)

lemma failure_None [simp]: "failure t None = (None, None)"
  by (simp add: failure_def)

lemma failure_untimed: "failed_stage t = None \<Longrightarrow> failure t (Some e) = (attr_stage e, attr_detail e)"
  by (simp add: failure_def failed_primary_def)

lemma failure_stage: "failed_stage t \<noteq> None \<Longrightarrow> fst (failure t (Some e)) = failed_primary t"
  by (auto simp: failure_def split: option.splits)

lemma forgive_None_sel [simp]: "failed_stage (forgive None t) = None"
  by (simp add: forgive_def)

lemma forgive_other: "failed_stage t \<noteq> Some n \<Longrightarrow> forgive (Some n) t = t"
  by (simp add: forgive_def)

lemma forgive_fail: "failed_stage t = None \<Longrightarrow> forgive (Some n) (fail_stage n t) = t"
  by (cases t) (simp add: forgive_def fail_stage_def)

text \<open>The trace is the authority on the stage of a failure and the error only fills in.\<close>

lemma failure_trace_first:
  "failure t (Some e) =
     (if failed_stage t = None then (attr_stage e, attr_detail e)
      else (failed_primary t,
            if failed_stage t \<noteq> failed_primary t then failed_stage t
            else if attr_stage e = failed_primary t then attr_detail e else None))"
proof (cases "failed_stage t")
  case None
  then show ?thesis by (simp add: failure_untimed)
next
  case (Some s)
  then obtain p where p: "failed_primary t = Some p" using failed_primary_None by (cases "failed_primary t") auto
  show ?thesis using Some p by (auto simp: failure_def failed_detail_def)
qed

end
