(* ===== verification/Runtime.thy ===== *)
theory Runtime
  imports Trace
begin

text \<open>
  The event loop as the library sees it: one task that runs until it waits, and a world that moves
  while it does.  The loop and \<open>asyncio.timeout\<close>, \<open>asyncio.sleep\<close> and \<open>asyncio.Lock\<close> are Python's
  standard library; their model follows CPython's documented behaviour (a scope fires once, by
  cancelling the task where it waits, and turns the cancellation into a TimeoutError on its way out
  only when no other cancellation is outstanding).  On top of it are the two wrappers of
  \<open>src/src/blesession/trace.py\<close> that need a running body: \<open>timed\<close> and \<open>traced\<close>.

  A coroutine is a function of the world; its outcome is a value, an exception, or
  \<open>Hang\<close>: a wait that nothing in the world's future ends.  Computation takes no time, waiting
  does; what the other tasks and the radio do meanwhile is the world's \<open>agenda\<close>, an arbitrary
  list of timed signals.
\<close>

section \<open>The world\<close>

datatype 'a outcome = Return 'a | Raise exc | Hang

text \<open>A running \<open>asyncio.timeout\<close>: when it fires, whether it has, and how many cancellations
  were requested when it was entered.\<close>

record scope =
  deadline :: "seconds option"
  fired :: bool
  base :: nat

text \<open>What can happen while the task waits: other code changes the shared memory, somebody cancels
  the task, another task takes or releases the lock.\<close>

datatype 'm signal = Change "'m \<Rightarrow> 'm" | CancelTask | LockTaken | LockReleased

datatype owner = Nobody | Me | Other

text \<open>\<open>scopes\<close> is innermost first; \<open>cancels\<close> is \<open>task.cancelling()\<close>; \<open>live\<close> and
  \<open>scratch\<close> are the trace and the \<open>state\<close> dictionary of the attempt that is running.\<close>

record 'm world =
  now :: seconds
  cancels :: nat
  scopes :: "scope list"
  agenda :: "(seconds \<times> 'm signal) list"
  holder :: owner
  live :: session_trace
  scratch :: "(string, pyval) dict"
  mem :: 'm

type_synonym ('a, 'm) co = "'m world \<Rightarrow> 'a outcome \<times> 'm world"

section \<open>Sequencing\<close>

definition ret :: "'a \<Rightarrow> ('a, 'm) co" where
  "ret x w = (Return x, w)"

definition throw :: "exc \<Rightarrow> ('a, 'm) co" where
  "throw e w = (Raise e, w)"

definition bind :: "('a, 'm) co \<Rightarrow> ('a \<Rightarrow> ('b, 'm) co) \<Rightarrow> ('b, 'm) co" where
  "bind f g w =
     (case f w of
        (Return x, w') \<Rightarrow> g x w'
      | (Raise e, w') \<Rightarrow> (Raise e, w')
      | (Hang, w') \<Rightarrow> (Hang, w'))"

text \<open>\<open>try: f except c as e: h e\<close> for a test \<open>c\<close> of the exception.\<close>

definition catch :: "('a, 'm) co \<Rightarrow> (exc \<Rightarrow> bool) \<Rightarrow> (exc \<Rightarrow> ('a, 'm) co) \<Rightarrow> ('a, 'm) co" where
  "catch f c h w =
     (case f w of
        (Raise e, w') \<Rightarrow> if c e then h e w' else (Raise e, w')
      | r \<Rightarrow> r)"

text \<open>\<open>try: f finally: g\<close>; an exception of \<open>g\<close> replaces the outcome.\<close>

definition finally_do :: "('a, 'm) co \<Rightarrow> (unit, 'm) co \<Rightarrow> ('a, 'm) co" where
  "finally_do f g w =
     (case f w of
        (Hang, w') \<Rightarrow> (Hang, w')
      | (r, w') \<Rightarrow>
          (case g w' of
             (Return _, w'') \<Rightarrow> (r, w'')
           | (Raise e, w'') \<Rightarrow> (Raise e, w'')
           | (Hang, w'') \<Rightarrow> (Hang, w'')))"

definition update :: "('m world \<Rightarrow> 'm world) \<Rightarrow> (unit, 'm) co" where
  "update f w = (Return (), f w)"

section \<open>Waiting\<close>

fun deliver :: "'m signal \<Rightarrow> 'm world \<Rightarrow> 'm world" where
  "deliver (Change f) w = w\<lparr>mem := f (mem w)\<rparr>"
| "deliver CancelTask w = w\<lparr>cancels := cancels w + 1\<rparr>"
| "deliver LockTaken w = (if holder w = Nobody then w\<lparr>holder := Other\<rparr> else w)"
| "deliver LockReleased w = (if holder w = Other then w\<lparr>holder := Nobody\<rparr> else w)"

definition deliver_due :: "seconds \<Rightarrow> 'm world \<Rightarrow> 'm world" where
  "deliver_due t w =
     fold (\<lambda>(_, s). deliver s) (takeWhile (\<lambda>(s, _). s \<le> t) (agenda w))
       (w\<lparr>agenda := dropWhile (\<lambda>(s, _). s \<le> t) (agenda w)\<rparr>)"

definition pending :: "scope \<Rightarrow> bool" where
  "pending s \<longleftrightarrow> deadline s \<noteq> None \<and> \<not> fired s"

definition due :: "seconds \<Rightarrow> scope \<Rightarrow> bool" where
  "due t s \<longleftrightarrow> \<not> fired s \<and> (case deadline s of None \<Rightarrow> False | Some d \<Rightarrow> d \<le> t)"

definition fire_due :: "seconds \<Rightarrow> 'm world \<Rightarrow> 'm world" where
  "fire_due t w =
     w\<lparr>scopes := map (\<lambda>s. if due t s then s\<lparr>fired := True\<rparr> else s) (scopes w),
       cancels := cancels w + length (filter (due t) (scopes w))\<rparr>"

definition advance :: "seconds \<Rightarrow> 'm world \<Rightarrow> 'm world" where
  "advance t w = fire_due t (deliver_due t (w\<lparr>now := t\<rparr>))"

fun earliest :: "seconds list \<Rightarrow> seconds option" where
  "earliest [] = None"
| "earliest (t # ts) = (case earliest ts of None \<Rightarrow> Some t | Some u \<Rightarrow> Some (min t u))"

definition wake_times :: "seconds option \<Rightarrow> 'm world \<Rightarrow> seconds list" where
  "wake_times until w =
     (case until of None \<Rightarrow> [] | Some u \<Rightarrow> [u])
     @ (case agenda w of [] \<Rightarrow> [] | (t, _) # _ \<Rightarrow> [t])
     @ map (the \<circ> deadline) (filter pending (scopes w))"

definition next_time :: "seconds option \<Rightarrow> 'm world \<Rightarrow> seconds option" where
  "next_time until w = map_option (max (now w)) (earliest (wake_times until w))"

definition cancelled_error :: exc where
  "cancelled_error = plain_exc CancelledErrorC []"

definition reached :: "seconds option \<Rightarrow> seconds \<Rightarrow> bool" where
  "reached until t \<longleftrightarrow> (case until of None \<Rightarrow> False | Some u \<Rightarrow> u \<le> t)"

lemma earliest_None [simp]: "earliest ts = None \<longleftrightarrow> ts = []"
  by (cases ts) (auto split: option.splits)

lemma earliest_mem: "earliest ts = Some t \<Longrightarrow> t \<in> set ts"
  by (induction ts arbitrary: t) (auto simp: min_def split: option.splits if_splits)

lemma earliest_le: "earliest ts = Some t \<Longrightarrow> u \<in> set ts \<Longrightarrow> t \<le> u"
  by (induction ts arbitrary: t) (auto split: option.splits)

lemma fold_deliver_sel:
  "agenda (fold (\<lambda>(_, s). deliver s) xs w) = agenda w"
  "scopes (fold (\<lambda>(_, s). deliver s) xs w) = scopes w"
  "now (fold (\<lambda>(_, s). deliver s) xs w) = now w"
  "live (fold (\<lambda>(_, s). deliver s) xs w) = live w"
  "scratch (fold (\<lambda>(_, s). deliver s) xs w) = scratch w"
proof (induction xs arbitrary: w)
  case (Cons x xs)
  obtain t s where x: "x = (t, s)" by (cases x)
  { case 1 show ?case using Cons(1) by (cases s) (simp_all add: x)
  next case 2 show ?case using Cons(2) by (cases s) (simp_all add: x)
  next case 3 show ?case using Cons(3) by (cases s) (simp_all add: x)
  next case 4 show ?case using Cons(4) by (cases s) (simp_all add: x)
  next case 5 show ?case using Cons(5) by (cases s) (simp_all add: x) }
qed simp_all

lemma advance_sel [simp]:
  "now (advance t w) = t"
  "agenda (advance t w) = dropWhile (\<lambda>(s, _). s \<le> t) (agenda w)"
  "scopes (advance t w) = map (\<lambda>s. if due t s then s\<lparr>fired := True\<rparr> else s) (scopes w)"
  "live (advance t w) = live w"
  "scratch (advance t w) = scratch w"
  by (simp_all add: advance_def fire_due_def deliver_due_def fold_deliver_sel)

definition cancel_count :: "(seconds \<times> 'm signal) list \<Rightarrow> nat" where
  "cancel_count xs = length (filter (\<lambda>(_, s). case s of CancelTask \<Rightarrow> True | _ \<Rightarrow> False) xs)"

lemma cancel_count_simps [simp]:
  "cancel_count [] = 0"
  "cancel_count (xs @ ys) = cancel_count xs + cancel_count ys"
  "cancel_count ((t, CancelTask) # xs) = Suc (cancel_count xs)"
  "cancel_count ((t, Change f) # xs) = cancel_count xs"
  "cancel_count ((t, LockTaken) # xs) = cancel_count xs"
  "cancel_count ((t, LockReleased) # xs) = cancel_count xs"
  by (simp_all add: cancel_count_def)

lemma fold_deliver_cancels:
  "cancels (fold (\<lambda>(_, s). deliver s) xs w) = cancels w + cancel_count xs"
proof (induction xs arbitrary: w)
  case (Cons x xs)
  obtain t s where "x = (t, s)" by (cases x)
  with Cons show ?case by (cases s) simp_all
qed simp

lemma advance_cancels:
  "cancels (advance t w) =
     cancels w + cancel_count (takeWhile (\<lambda>(s, _). s \<le> t) (agenda w)) + length (filter (due t) (scopes w))"
  by (simp add: advance_def fire_due_def deliver_due_def fold_deliver_cancels fold_deliver_sel)

text \<open>A step that neither fires a scope nor reaches the awaited time has used the agenda.\<close>

lemma step_uses_agenda:
  assumes "next_time until w = Some t" and "cancels (advance t w) = cancels w" and "\<not> reached until t"
  shows "length (agenda (advance t w)) < length (agenda w)"
proof -
  from assms(1) obtain u where u: "earliest (wake_times until w) = Some u" and t: "t = max (now w) u"
    by (auto simp: next_time_def)
  from u have mem: "u \<in> set (wake_times until w)" by (rule earliest_mem)
  have "until \<noteq> Some u" using assms(3) t by (auto simp: reached_def)
  moreover have "u \<notin> set (map (the \<circ> deadline) (filter pending (scopes w)))"
  proof
    assume "u \<in> set (map (the \<circ> deadline) (filter pending (scopes w)))"
    then obtain s where s: "s \<in> set (scopes w)" "pending s" "u = the (deadline s)" by auto
    then have "due t s" using t by (auto simp: due_def pending_def)
    with s have "filter (due t) (scopes w) \<noteq> []" by (auto simp: filter_empty_conv)
    with assms(2) show False by (simp add: advance_cancels)
  qed
  ultimately obtain s rest where "agenda w = (u, s) # rest"
    using mem by (cases "agenda w") (auto simp: wake_times_def split: option.splits)
  moreover have "u \<le> t" using t by simp
  ultimately show ?thesis
    using length_dropWhile_le [of "\<lambda>(s, _). s \<le> t" rest] by simp
qed

text \<open>Wait until \<open>ready\<close> holds or the time \<open>until\<close> is reached.  Everything due at the same
  time happens before the task runs again, and a cancellation among it wins.\<close>

function park :: "seconds option \<Rightarrow> ('m world \<Rightarrow> bool) \<Rightarrow> (unit, 'm) co" where
  "park until ready w =
     (case next_time until w of
        None \<Rightarrow> (Hang, w)
      | Some t \<Rightarrow>
          (let w' = advance t w
           in if cancels w < cancels w' then (Raise cancelled_error, w')
              else if ready w' \<or> reached until t then (Return (), w')
              else park until ready w'))"
  by pat_completeness auto
termination
  by (relation "measure (\<lambda>(_, _, w). length (agenda w))")
     (use step_uses_agenda in \<open>auto simp: advance_cancels\<close>)

declare park.simps [simp del]

section \<open>The standard library's building blocks\<close>

text \<open>\<open>asyncio.sleep\<close>; zero or less gives the loop one turn.\<close>

definition sleep :: "seconds \<Rightarrow> (unit, 'm) co" where
  "sleep d w = park (Some (now w + max 0 d)) (\<lambda>_. False) w"

definition push_scope :: "seconds option \<Rightarrow> 'm world \<Rightarrow> 'm world" where
  "push_scope t w =
     w\<lparr>scopes := \<lparr>deadline = map_option (\<lambda>s. now w + s) t, fired = False, base = cancels w\<rparr> # scopes w\<rparr>"

definition pop_scope :: "'m world \<Rightarrow> 'm world" where
  "pop_scope w =
     w\<lparr>scopes := tl (scopes w), cancels := (if fired (hd (scopes w)) then cancels w - 1 else cancels w)\<rparr>"

definition timeout_error :: exc where
  "timeout_error = plain_exc TimeoutErrorC []"

text \<open>What \<open>__aexit__\<close> makes of the outcome: the cancellation it asked for becomes a TimeoutError,
  unless another cancellation is outstanding.\<close>

definition scope_outcome :: "scope \<Rightarrow> nat \<Rightarrow> 'a outcome \<Rightarrow> 'a outcome" where
  "scope_outcome s n r =
     (case r of
        Raise e \<Rightarrow>
          if fired s \<and> n \<le> base s \<and> isinstance e CancelledErrorC
          then Raise (with_cause timeout_error e) else Raise e
      | _ \<Rightarrow> r)"

text \<open>\<open>async with asyncio.timeout(t) as scope: f\<close>, with \<open>scope.expired()\<close>.\<close>

definition with_timeout ::
  "seconds option \<Rightarrow> ('a, 'm) co \<Rightarrow> 'm world \<Rightarrow> ('a outcome \<times> bool) \<times> 'm world" where
  "with_timeout t f w =
     (let (r, w1) = f (push_scope t w);
          s = hd (scopes w1);
          w2 = pop_scope w1
      in ((scope_outcome s (cancels w2) r, fired s), w2))"

definition bounded :: "seconds option \<Rightarrow> ('a, 'm) co \<Rightarrow> ('a, 'm) co" where
  "bounded t f w = (let ((r, _), w') = with_timeout t f w in (r, w'))"

text \<open>\<open>asyncio.Lock\<close>\<close>

definition acquire :: "(unit, 'm) co" where
  "acquire w =
     (if holder w = Nobody then (Return (), w\<lparr>holder := Me\<rparr>)
      else case park None (\<lambda>w. holder w = Nobody) w of
        (Return _, w') \<Rightarrow> (Return (), w'\<lparr>holder := Me\<rparr>)
      | (r, w') \<Rightarrow> (r, w'))"

definition release :: "(unit, 'm) co" where
  "release w = (Return (), w\<lparr>holder := Nobody\<rparr>)"

text \<open>\<open>async with lock if lock is not None else nullcontext(): f\<close>\<close>

definition with_lock :: "bool \<Rightarrow> ('a, 'm) co \<Rightarrow> ('a, 'm) co" where
  "with_lock use_lock f =
     (if use_lock then bind acquire (\<lambda>_. finally_do f release) else f)"

section \<open>Timed stages\<close>

fun is_raise :: "'a outcome \<Rightarrow> bool" where
  "is_raise (Raise e) = True"
| "is_raise (Return x) = False"
| "is_raise Hang = False"

text \<open>\<open>with trace.timed(name): f\<close>\<close>

definition timed :: "string \<Rightarrow> ('a, 'm) co \<Rightarrow> ('a, 'm) co" where
  "timed name f w =
     (case f (w\<lparr>live := timed_enter name (live w)\<rparr>) of
        (Hang, w') \<Rightarrow> (Hang, w')
      | (r, w') \<Rightarrow> (r, w'\<lparr>live := timed_exit name (is_raise r) (now w' - now w) (live w')\<rparr>))"

text \<open>A method decorated with \<open>@traced(stage)\<close>, on a host that has a trace or none.\<close>

definition traced :: "string \<Rightarrow> bool \<Rightarrow> ('a, 'm) co \<Rightarrow> ('a, 'm) co" where
  "traced stage has_trace method = (if has_trace then timed stage method else method)"

text \<open>A world at rest.\<close>

definition idle :: "'m \<Rightarrow> 'm world" where
  "idle m = \<lparr>now = 0, cancels = 0, scopes = [], agenda = [], holder = Nobody, live = new_trace None,
     scratch = [], mem = m\<rparr>"

end
