(* ===== verification/RuntimeLaws.thy ===== *)
theory RuntimeLaws
  imports Runtime
begin

text \<open>
  What every coroutine built from the loop's operations keeps.  A \<open>world_frame\<close> is a relation
  between the worlds before and after that waiting respects; \<open>scoped_frame\<close> is one that timeouts
  respect too.  Its lemmas lift it through sequencing, handlers, cleanup, waits, sleeps and scopes.
  \<open>frame\<close>, the interpretation used most, says that time moves forward, that the running scopes
  are the same up to those that fired, and that every cancellation is accounted for.  \<open>polite b\<close>
  adds what a bound relies on: under a pending deadline a coroutine neither hangs nor ends more than
  \<open>b\<close> seconds late, and does not hide that the deadline cancelled it.
\<close>

definition keeps :: "('m world \<Rightarrow> 'm world \<Rightarrow> bool) \<Rightarrow> ('a, 'm) co \<Rightarrow> bool" where
  "keeps R f \<longleftrightarrow> (\<forall>w. R w (snd (f w)))"

lemma keepsI: "(\<And>w. R w (snd (f w))) \<Longrightarrow> keeps R f"
  by (simp add: keeps_def)

lemma keepsD: "keeps R f \<Longrightarrow> f w = (r, w') \<Longrightarrow> R w w'"
  unfolding keeps_def by (metis snd_conv)

lemma snd_bounded: "snd (bounded t f w) = snd (with_timeout t f w)"
  by (simp add: bounded_def split: prod.split)

section \<open>Frames\<close>

locale world_frame =
  fixes R :: "'m world \<Rightarrow> 'm world \<Rightarrow> bool"
  assumes R_refl: "R w w"
    and R_trans: "R u v \<Longrightarrow> R v w \<Longrightarrow> R u w"
    and R_advance: "now w \<le> t \<Longrightarrow> R w (advance t w)"
begin

lemma keeps_ret: "keeps R (ret x)"
  by (simp add: keeps_def ret_def R_refl)

lemma keeps_throw: "keeps R (throw e)"
  by (simp add: keeps_def throw_def R_refl)

lemma keeps_bind: "keeps R f \<Longrightarrow> (\<And>x. keeps R (g x)) \<Longrightarrow> keeps R (bind f g)"
  unfolding keeps_def bind_def
  by (auto split: prod.split outcome.split) (metis R_trans snd_conv)+

lemma keeps_catch: "keeps R f \<Longrightarrow> (\<And>e. keeps R (h e)) \<Longrightarrow> keeps R (catch f c h)"
  unfolding keeps_def catch_def
  by (auto split: prod.split outcome.split) (metis R_trans snd_conv)+

lemma keeps_finally: "keeps R f \<Longrightarrow> keeps R g \<Longrightarrow> keeps R (finally_do f g)"
  unfolding keeps_def finally_do_def
  by (auto split: prod.split outcome.split) (metis R_trans snd_conv)+

lemma R_park: "R w (snd (park until ready w))"
proof (induction until ready w rule: park.induct)
  case (1 until ready w)
  show ?case
  proof (cases "next_time until w")
    case None
    then show ?thesis by (simp add: park.simps R_refl)
  next
    case (Some t)
    then have "R w (advance t w)" by (auto simp: next_time_def intro: R_advance)
    then show ?thesis
      using 1 Some by (subst park.simps) (auto simp: Let_def intro: R_trans)
  qed
qed

lemma keeps_park: "keeps R (park until ready)"
  by (rule keepsI) (rule R_park)

lemma keeps_sleep: "keeps R (sleep d)"
  by (rule keepsI) (simp add: sleep_def R_park)

end

locale scoped_frame = world_frame +
  assumes R_scope: "R (push_scope t w) w' \<Longrightarrow> R w (pop_scope w')"
begin

lemma R_with_timeout: "keeps R f \<Longrightarrow> R w (snd (with_timeout t f w))"
  unfolding with_timeout_def Let_def keeps_def
  by (auto split: prod.split) (metis R_scope snd_conv)

lemma keeps_bounded: "keeps R f \<Longrightarrow> keeps R (bounded t f)"
  by (rule keepsI) (simp add: snd_bounded R_with_timeout)

end

section \<open>The standard frame\<close>

definition scope_le :: "scope \<Rightarrow> scope \<Rightarrow> bool" where
  "scope_le s s' \<longleftrightarrow> deadline s' = deadline s \<and> base s' = base s \<and> (fired s \<longrightarrow> fired s')"

definition fired_count :: "scope list \<Rightarrow> nat" where
  "fired_count ss = length (filter fired ss)"

definition frame :: "'m world \<Rightarrow> 'm world \<Rightarrow> bool" where
  "frame w w' \<longleftrightarrow>
     now w \<le> now w' \<and> list_all2 scope_le (scopes w) (scopes w') \<and>
     (\<exists>used. agenda w = used @ agenda w' \<and>
        cancels w' + fired_count (scopes w) = cancels w + fired_count (scopes w') + cancel_count used)"

lemma scope_le_refl [simp]: "scope_le s s"
  by (simp add: scope_le_def)

lemma scope_le_trans: "scope_le a b \<Longrightarrow> scope_le b c \<Longrightarrow> scope_le a c"
  by (auto simp: scope_le_def)

lemma fired_count_simps [simp]:
  "fired_count [] = 0" "fired_count (s # ss) = (if fired s then 1 else 0) + fired_count ss"
  by (simp_all add: fired_count_def)

lemma fired_count_mono: "list_all2 scope_le ss ss' \<Longrightarrow> fired_count ss \<le> fired_count ss'"
  by (induction rule: list_all2_induct) (auto simp: scope_le_def)

lemma fired_count_due:
  "fired_count (map (\<lambda>s. if due t s then s\<lparr>fired := True\<rparr> else s) ss)
     = fired_count ss + length (filter (due t) ss)"
  by (induction ss) (auto simp: due_def)

lemma frame_refl: "frame w w"
  by (auto simp: frame_def list_all2_refl)

lemma frame_trans:
  assumes "frame u v" and "frame v w"
  shows "frame u w"
proof -
  have "list_all2 scope_le (scopes u) (scopes w)"
    using assms by (auto simp: frame_def intro: list_all2_trans [OF scope_le_trans])
  moreover obtain x y where "agenda u = x @ agenda v" "agenda v = y @ agenda w"
    and "cancels v + fired_count (scopes u) = cancels u + fired_count (scopes v) + cancel_count x"
    and "cancels w + fired_count (scopes v) = cancels v + fired_count (scopes w) + cancel_count y"
    using assms unfolding frame_def by blast
  then have "agenda u = (x @ y) @ agenda w \<and>
      cancels w + fired_count (scopes u) = cancels u + fired_count (scopes w) + cancel_count (x @ y)"
    by simp
  ultimately show ?thesis using assms unfolding frame_def by (auto intro: order_trans)
qed

lemma frame_advance: "now w \<le> t \<Longrightarrow> frame w (advance t w)"
  unfolding frame_def
  by (auto simp: advance_cancels fired_count_due list_all2_map2 scope_le_def
      intro!: list_all2_refl exI [of _ "takeWhile (\<lambda>(s, _). s \<le> t) (agenda w)"])

lemma frame_scope:
  assumes "frame (push_scope t w) w'"
  shows "frame w (pop_scope w')"
proof -
  from assms obtain s ss used where ss: "scopes w' = s # ss" "list_all2 scope_le (scopes w) ss"
    and rest: "now w \<le> now w'" "agenda w = used @ agenda w'"
      "cancels w' + fired_count (scopes w) = cancels w + fired_count (scopes w') + cancel_count used"
    by (auto simp: frame_def push_scope_def list_all2_Cons1)
  then show ?thesis
    using fired_count_mono [OF ss(2)]
    by (auto simp: frame_def pop_scope_def intro!: exI [of _ used])
qed

interpretation frm: scoped_frame frame
  by unfold_locales (auto intro: frame_refl frame_advance frame_scope elim: frame_trans)

section \<open>Politeness\<close>

text \<open>Scope \<open>i\<close> still has its deadline \<open>d\<close> ahead of it.\<close>

definition still :: "'m world \<Rightarrow> nat \<Rightarrow> seconds \<Rightarrow> bool" where
  "still w i d \<longleftrightarrow> i < length (scopes w) \<and> deadline (scopes w ! i) = Some d \<and> \<not> fired (scopes w ! i)"

fun was_cancelled :: "'a outcome \<Rightarrow> bool" where
  "was_cancelled (Raise e) = isinstance e CancelledErrorC"
| "was_cancelled (Return x) = False"
| "was_cancelled Hang = False"

definition prompt :: "seconds \<Rightarrow> ('a, 'm) co \<Rightarrow> bool" where
  "prompt b f \<longleftrightarrow>
     (\<forall>w r w' i d. f w = (r, w') \<longrightarrow> still w i d \<longrightarrow>
        now w' \<le> max (now w) d + b \<and> r \<noteq> Hang \<and> (still w' i d \<or> was_cancelled r))"

definition polite :: "seconds \<Rightarrow> ('a, 'm) co \<Rightarrow> bool" where
  "polite b f \<longleftrightarrow> 0 \<le> b \<and> keeps frame f \<and> prompt b f"

text \<open>A coroutine that ends by itself within \<open>b\<close> seconds, and one that raises nothing but a
  cancellation.\<close>

definition ends_within :: "seconds \<Rightarrow> ('a, 'm) co \<Rightarrow> bool" where
  "ends_within b f \<longleftrightarrow> (\<forall>w. now (snd (f w)) \<le> now w + b \<and> fst (f w) \<noteq> Hang)"

lemma ends_withinD: "ends_within b f \<Longrightarrow> f w = (r, w') \<Longrightarrow> r \<noteq> Hang \<and> now w' \<le> now w + b"
  unfolding ends_within_def by (metis fst_conv snd_conv)

lemma ends_withinI: "(\<And>w r w'. f w = (r, w') \<Longrightarrow> r \<noteq> Hang \<and> now w' \<le> now w + b) \<Longrightarrow> ends_within b f"
  unfolding ends_within_def by (metis prod.collapse)

lemma ends_within_weaken: "ends_within b f \<Longrightarrow> b \<le> c \<Longrightarrow> ends_within c f"
  by (auto simp: ends_within_def) (meson add_left_mono order_trans)

definition mild :: "('a, 'm) co \<Rightarrow> bool" where
  "mild f \<longleftrightarrow> (\<forall>w e. fst (f w) = Raise e \<longrightarrow> isinstance e CancelledErrorC)"

text \<open>A change of the world that leaves the loop alone.\<close>

definition quiet :: "('m world \<Rightarrow> 'm world) \<Rightarrow> bool" where
  "quiet f \<longleftrightarrow> (\<forall>w. now (f w) = now w \<and> scopes (f w) = scopes w \<and> agenda (f w) = agenda w \<and> cancels (f w) = cancels w)"

lemma exception_not_cancelled: "issubclass c ExceptionC \<Longrightarrow> \<not> issubclass c CancelledErrorC"
  by (induction c) (simp_all add: issubclass_eval)

lemma isinstance_exception_not_cancelled: "isinstance e ExceptionC \<Longrightarrow> \<not> isinstance e CancelledErrorC"
  by (simp add: isinstance_def exception_not_cancelled)

lemma promptI:
  assumes "\<And>w r w' i d. f w = (r, w') \<Longrightarrow> still w i d \<Longrightarrow>
    now w' \<le> max (now w) d + b \<and> r \<noteq> Hang \<and> (still w' i d \<or> was_cancelled r)"
  shows "prompt b f"
  using assms unfolding prompt_def by blast

lemma promptD:
  "prompt b f \<Longrightarrow> f w = (r, w') \<Longrightarrow> still w i d \<Longrightarrow>
    now w' \<le> max (now w) d + b \<and> r \<noteq> Hang \<and> (still w' i d \<or> was_cancelled r)"
  unfolding prompt_def by blast

lemma politeD:
  "polite b f \<Longrightarrow> 0 \<le> b" "polite b f \<Longrightarrow> keeps frame f" "polite b f \<Longrightarrow> prompt b f"
  by (simp_all add: polite_def)

lemma quiet_frame: "quiet f \<Longrightarrow> frame w (f w)"
  by (auto simp: quiet_def frame_def list_all2_refl)

lemma quiet_still: "quiet f \<Longrightarrow> still (f w) i d = still w i d"
  by (simp add: quiet_def still_def)

lemma quiet_now: "quiet f \<Longrightarrow> now (f w) = now w"
  by (simp add: quiet_def)

lemma polite_mono: "polite b f \<Longrightarrow> b \<le> c \<Longrightarrow> polite c f"
  unfolding polite_def prompt_def by (auto, fastforce)

lemma polite_ret: "polite 0 (ret x)"
  by (simp add: polite_def frm.keeps_ret prompt_def ret_def)

lemma polite_throw: "polite 0 (throw e)"
  by (simp add: polite_def frm.keeps_throw prompt_def throw_def)

lemma polite_update: "quiet f \<Longrightarrow> polite 0 (update f)"
  by (simp add: polite_def keeps_def prompt_def update_def quiet_frame quiet_still quiet_now)

lemma prompt_bind:
  assumes f: "prompt b f" and g: "\<And>x. prompt c (g x)" and "0 \<le> b" "0 \<le> c"
  shows "prompt (b + c) (bind f g)"
proof (rule promptI)
  fix w r w' i d
  assume run: "bind f g w = (r, w')" and s: "still w i d"
  obtain r1 w1 where f1: "f w = (r1, w1)" by (cases "f w")
  note p1 = promptD [OF f f1 s]
  show "now w' \<le> max (now w) d + (b + c) \<and> r \<noteq> Hang \<and> (still w' i d \<or> was_cancelled r)"
  proof (cases r1)
    case (Return x)
    with run f1 have g1: "g x w1 = (r, w')" by (simp add: bind_def)
    from p1 Return have "still w1 i d" by simp
    from promptD [OF g g1 this] p1 assms(3,4) show ?thesis by (auto simp: max_def split: if_splits)
  qed (use p1 run f1 assms(3,4) in \<open>auto simp: bind_def\<close>)
qed

lemma polite_bind:
  "polite b f \<Longrightarrow> (\<And>x. polite c (g x)) \<Longrightarrow> polite (b + c) (bind f g)"
  by (auto simp: polite_def intro: frm.keeps_bind prompt_bind)

lemma prompt_catch:
  assumes f: "prompt b f" and h: "\<And>e. t e \<Longrightarrow> prompt c (h e)" and "0 \<le> b" "0 \<le> c"
    and t: "\<And>e. t e \<Longrightarrow> \<not> isinstance e CancelledErrorC"
  shows "prompt (b + c) (catch f t h)"
proof (rule promptI)
  fix w r w' i d
  assume run: "catch f t h w = (r, w')" and s: "still w i d"
  obtain r1 w1 where f1: "f w = (r1, w1)" by (cases "f w")
  note p1 = promptD [OF f f1 s]
  show "now w' \<le> max (now w) d + (b + c) \<and> r \<noteq> Hang \<and> (still w' i d \<or> was_cancelled r)"
  proof (cases r1)
    case (Raise e)
    show ?thesis
    proof (cases "t e")
      case True
      with run f1 Raise have h1: "h e w1 = (r, w')" by (simp add: catch_def)
      from p1 Raise t [OF True] have "still w1 i d" by simp
      from promptD [OF h [OF True] h1 this] p1 assms(3,4) show ?thesis by (auto simp: max_def split: if_splits)
    qed (use p1 run f1 Raise assms(3,4) in \<open>auto simp: catch_def\<close>)
  qed (use p1 run f1 assms(3,4) in \<open>auto simp: catch_def\<close>)
qed

lemma polite_catch:
  "polite b f \<Longrightarrow> (\<And>e. polite c (h e)) \<Longrightarrow> (\<And>e. t e \<Longrightarrow> \<not> isinstance e CancelledErrorC) \<Longrightarrow>
     polite (b + c) (catch f t h)"
  by (auto simp: polite_def intro: frm.keeps_catch prompt_catch)

text \<open>Cleanup: it ends by itself, so the whole is late by at most what both are.\<close>

lemma prompt_finally:
  assumes f: "prompt b f" and g: "prompt c g" "ends_within c g" "mild g" and "0 \<le> b" "0 \<le> c"
  shows "prompt (b + c) (finally_do f g)"
proof (rule promptI)
  fix w r w' i d
  assume run: "finally_do f g w = (r, w')" and s: "still w i d"
  obtain r1 w1 where f1: "f w = (r1, w1)" by (cases "f w")
  obtain r2 w2 where g1: "g w1 = (r2, w2)" by (cases "g w1")
  note p1 = promptD [OF f f1 s]
  have w': "w' = w2" and r: "r = (case r2 of Return _ \<Rightarrow> r1 | Raise e \<Rightarrow> Raise e | Hang \<Rightarrow> Hang)"
    using run f1 g1 p1 by (auto simp: finally_do_def split: outcome.splits)
  have "now w2 \<le> now w1 + c" "r2 \<noteq> Hang" using ends_withinD [OF g(2) g1] by simp_all
  moreover have "was_cancelled r2" if "r2 = Raise e" for e
    using g(3) g1 that unfolding mild_def by (metis fst_conv was_cancelled.simps(1))
  ultimately show "now w' \<le> max (now w) d + (b + c) \<and> r \<noteq> Hang \<and> (still w' i d \<or> was_cancelled r)"
    using p1 promptD [OF g(1) g1] w' r by (cases r2) auto
qed

lemma polite_finally:
  "polite b f \<Longrightarrow> polite c g \<Longrightarrow> ends_within c g \<Longrightarrow> mild g \<Longrightarrow> polite (b + c) (finally_do f g)"
  by (auto simp: polite_def intro: frm.keeps_finally prompt_finally)

subsection \<open>Waits\<close>

lemma still_wakes:
  assumes "still w i d"
  obtains t where "next_time until w = Some t" and "t \<le> max (now w) d"
proof -
  have "d \<in> (the \<circ> deadline) ` {s \<in> set (scopes w). pending s}"
    by (rule image_eqI [of _ _ "scopes w ! i"]) (use assms in \<open>auto simp: still_def pending_def\<close>)
  then have "d \<in> set (wake_times until w)" by (auto simp: wake_times_def)
  then obtain u where "earliest (wake_times until w) = Some u" "u \<le> d"
    using earliest_le by (cases "earliest (wake_times until w)") auto
  then show thesis by (intro that) (auto simp: next_time_def)
qed

lemma advance_still:
  "still w i d \<Longrightarrow> cancels (advance t w) = cancels w \<Longrightarrow> still (advance t w) i d"
  by (auto simp: still_def advance_cancels filter_empty_conv)

lemma prompt_park: "prompt 0 (park until ready)"
proof (rule promptI)
  show "now w' \<le> max (now w) d + 0 \<and> r \<noteq> Hang \<and> (still w' i d \<or> was_cancelled r)"
    if "park until ready w = (r, w')" "still w i d" for w r w' i d
    using that
  proof (induction until ready w arbitrary: r w' rule: park.induct)
    case (1 until ready w)
    obtain t where t: "next_time until w = Some t" "t \<le> max (now w) d"
      using still_wakes [OF "1.prems"(2)] by blast
    show ?case
    proof (cases "cancels w < cancels (advance t w)")
      case True
      with "1.prems"(1) t show ?thesis
        by (subst (asm) park.simps) (auto simp: Let_def cancelled_error_def issubclass_eval)
    next
      case False
      then have still: "still (advance t w) i d"
        using advance_still [OF "1.prems"(2)] by (simp add: advance_cancels)
      show ?thesis
      proof (cases "ready (advance t w) \<or> reached until t")
        case True
        with False "1.prems"(1) t still show ?thesis by (subst (asm) park.simps) (auto simp: Let_def)
      next
        case not: False
        have "park until ready (advance t w) = (r, w')"
          using "1.prems"(1) t False not by (subst (asm) park.simps) (simp add: Let_def)
        from "1.IH" [OF t(1) refl False not this still] t(2) show ?thesis by auto
      qed
    qed
  qed
qed

lemma polite_park: "polite 0 (park until ready)"
  by (simp add: polite_def frm.keeps_park prompt_park)

lemma polite_sleep: "polite 0 (sleep d)"
proof -
  have "prompt 0 (sleep d :: (unit, 'm) co)"
    by (rule promptI) (use promptD [OF prompt_park] in \<open>unfold sleep_def, blast\<close>)
  then show ?thesis by (simp add: polite_def frm.keeps_sleep)
qed

lemma frame_fields [simp]:
  "frame (w\<lparr>live := t\<rparr>) w' = frame w w'" "frame w (w'\<lparr>live := t\<rparr>) = frame w w'"
  "frame (w\<lparr>holder := h\<rparr>) w' = frame w w'" "frame w (w'\<lparr>holder := h\<rparr>) = frame w w'"
  "frame (w\<lparr>scratch := s\<rparr>) w' = frame w w'" "frame w (w'\<lparr>scratch := s\<rparr>) = frame w w'"
  "frame (w\<lparr>mem := m\<rparr>) w' = frame w w'" "frame w (w'\<lparr>mem := m\<rparr>) = frame w w'"
  by (simp_all add: frame_def)

lemma still_fields [simp]:
  "still (w\<lparr>live := t\<rparr>) i d = still w i d" "still (w\<lparr>holder := h\<rparr>) i d = still w i d"
  "still (w\<lparr>scratch := s\<rparr>) i d = still w i d" "still (w\<lparr>mem := m\<rparr>) i d = still w i d"
  by (simp_all add: still_def)

lemma quiet_fields [simp]:
  "quiet (\<lambda>w. w\<lparr>live := t w\<rparr>)" "quiet (\<lambda>w. w\<lparr>holder := h w\<rparr>)"
  "quiet (\<lambda>w. w\<lparr>scratch := s w\<rparr>)" "quiet (\<lambda>w. w\<lparr>mem := m w\<rparr>)"
  by (simp_all add: quiet_def)

subsection \<open>Scopes\<close>

lemma scope_outcome_cases:
  "scope_outcome s n r = r \<or>
     (\<exists>e. r = Raise e \<and> fired s \<and> n \<le> base s \<and> isinstance e CancelledErrorC
        \<and> scope_outcome s n r = Raise (with_cause timeout_error e))"
  by (cases r) (auto simp: scope_outcome_def)

lemma scope_outcome_Hang [simp]: "scope_outcome s n r = Hang \<longleftrightarrow> r = Hang"
  by (cases r) (auto simp: scope_outcome_def)

lemma scope_outcome_Return [simp]: "scope_outcome s n r = Return x \<longleftrightarrow> r = Return x"
  by (cases r) (auto simp: scope_outcome_def)

text \<open>A scope around a body that keeps the frame: what it makes of the body's outcome.\<close>

lemma with_timeout_run:
  assumes "keeps frame f" and "f (push_scope t w) = (r, w1)"
  obtains s ss where "scopes w1 = s # ss" and "list_all2 scope_le (scopes w) ss"
    and "deadline s = map_option (\<lambda>x. now w + x) t" and "base s = cancels w"
    and "with_timeout t f w = ((scope_outcome s (cancels (pop_scope w1)) r, fired s), pop_scope w1)"
proof -
  have "frame (push_scope t w) w1" using keepsD [OF assms] .
  then obtain s ss where s: "scopes w1 = s # ss" "list_all2 scope_le (scopes w) ss"
    "deadline s = map_option (\<lambda>x. now w + x) t" "base s = cancels w"
    by (auto simp: frame_def push_scope_def list_all2_Cons1 scope_le_def)
  then show thesis using assms(2) by (intro that) (auto simp: with_timeout_def Let_def)
qed

lemma pop_scope_sel [simp]:
  "now (pop_scope w) = now w" "agenda (pop_scope w) = agenda w" "scopes (pop_scope w) = tl (scopes w)"
  "live (pop_scope w) = live w" "mem (pop_scope w) = mem w" "holder (pop_scope w) = holder w"
  "scratch (pop_scope w) = scratch w"
  by (simp_all add: pop_scope_def)

lemma push_scope_sel [simp]:
  "now (push_scope t w) = now w" "agenda (push_scope t w) = agenda w" "cancels (push_scope t w) = cancels w"
  "live (push_scope t w) = live w" "mem (push_scope t w) = mem w" "holder (push_scope t w) = holder w"
  "scratch (push_scope t w) = scratch w"
  "scopes (push_scope t w) =
     \<lparr>deadline = map_option (\<lambda>s. now w + s) t, fired = False, base = cancels w\<rparr> # scopes w"
  by (simp_all add: push_scope_def)

text \<open>The uncancel rule: a scope that fired does not take a cancellation an outer scope also asked
  for.\<close>

lemma fired_twice_not_converted:
  assumes "frame (push_scope t w) w1" and "scopes w1 = s # ss" and "fired s"
    and "still w i d" and "\<not> still w1 (Suc i) d"
  shows "\<not> cancels (pop_scope w1) \<le> cancels w"
proof -
  have all: "list_all2 scope_le (scopes w) ss" using assms(1,2) by (simp add: frame_def)
  have i: "i < length (scopes w)" "i < length ss" and le: "scope_le (scopes w ! i) (ss ! i)"
    using assms(4) all by (auto simp: still_def list_all2_conv_all_nth)
  have f: "fired (ss ! i)" "\<not> fired (scopes w ! i)"
    using assms(2,4,5) i le by (auto simp: still_def scope_le_def)
  have split: "ss = take i ss @ ss ! i # drop (Suc i) ss"
    "scopes w = take i (scopes w) @ scopes w ! i # drop (Suc i) (scopes w)"
    using i by (simp_all add: id_take_nth_drop)
  have count: "fired_count (xs @ ys) = fired_count xs + fired_count ys" for xs ys
    by (simp add: fired_count_def)
  have "fired_count (scopes w) < fired_count ss"
    using fired_count_mono [of "take i (scopes w)" "take i ss"]
      fired_count_mono [of "drop (Suc i) (scopes w)" "drop (Suc i) ss"]
      list_all2_takeI [OF all] list_all2_dropI [OF all] f
    by (subst split(1), subst split(2)) (simp add: count less_Suc_eq_le add_mono)
  with assms(1,2,3) show ?thesis by (auto simp: frame_def pop_scope_def)
qed

lemma prompt_bounded:
  assumes "polite b f"
  shows "prompt b (bounded t f)"
proof (rule promptI)
  fix w r w' i d
  assume run: "bounded t f w = (r, w')" and s: "still w i d"
  obtain r1 w1 where f1: "f (push_scope t w) = (r1, w1)" by (cases "f (push_scope t w)")
  obtain sc ss where sc: "scopes w1 = sc # ss"
    "base sc = cancels w"
    "with_timeout t f w = ((scope_outcome sc (cancels (pop_scope w1)) r1, fired sc), pop_scope w1)"
    by (rule with_timeout_run [OF politeD(2) [OF assms] f1])
  have "still (push_scope t w) (Suc i) d" using s by (simp add: still_def)
  from promptD [OF politeD(3) [OF assms] f1 this]
  have p: "now w1 \<le> max (now w) d + b" "r1 \<noteq> Hang" "still w1 (Suc i) d \<or> was_cancelled r1" by simp_all
  have r: "r = scope_outcome sc (cancels (pop_scope w1)) r1" and w': "w' = pop_scope w1"
    using run sc(3) by (auto simp: bounded_def)
  have "still w' i d \<or> was_cancelled r"
  proof (cases "still w1 (Suc i) d")
    case True
    then show ?thesis using sc(1) w' by (simp add: still_def)
  next
    case False
    then have "\<not> fired sc \<or> \<not> cancels (pop_scope w1) \<le> base sc"
      using fired_twice_not_converted [OF keepsD [OF politeD(2) [OF assms] f1] sc(1) _ s] sc(2) by auto
    then have "r = r1" using r by (cases r1) (auto simp: scope_outcome_def)
    with p(3) False show ?thesis by simp
  qed
  then show "now w' \<le> max (now w) d + b \<and> r \<noteq> Hang \<and> (still w' i d \<or> was_cancelled r)"
    using p r w' by simp
qed

lemma polite_bounded: "polite b f \<Longrightarrow> polite b (bounded t f)"
  by (auto simp: polite_def frm.keeps_bounded) (simp add: polite_def prompt_bounded)

text \<open>A bound really bounds: a polite body under \<open>asyncio.timeout(t)\<close> ends in time.\<close>

lemma ends_within_bounded:
  assumes "polite b f"
  shows "ends_within (max 0 t + b) (bounded (Some t) f)"
proof -
  have "now (snd (bounded (Some t) f w)) \<le> now w + (max 0 t + b) \<and> fst (bounded (Some t) f w) \<noteq> Hang" for w
  proof -
    obtain r1 w1 where f1: "f (push_scope (Some t) w) = (r1, w1)" by (cases "f (push_scope (Some t) w)")
    have "still (push_scope (Some t) w) 0 (now w + t)" by (simp add: still_def)
    from promptD [OF politeD(3) [OF assms] f1 this]
    have "now w1 \<le> now w + (max 0 t + b)" "r1 \<noteq> Hang" by (auto simp: max_def split: if_splits)
    then show ?thesis using f1 by (simp add: bounded_def with_timeout_def Let_def)
  qed
  then show ?thesis by (simp add: ends_within_def)
qed

lemma ends_within_sleep: "ends_within (max 0 d) (sleep d)"
proof -
  have "park (Some u) ready w = (r, w') \<Longrightarrow> now w' \<le> max (now w) u \<and> r \<noteq> Hang" for u ready r w' and w :: "'m world"
  proof (induction "Some u" ready w arbitrary: r w' rule: park.induct)
    case (1 ready w)
    have "u \<in> set (wake_times (Some u) w)" by (simp add: wake_times_def)
    then obtain v where "earliest (wake_times (Some u) w) = Some v" "v \<le> u"
      using earliest_le by (cases "earliest (wake_times (Some u) w)") auto
    then obtain t where t: "next_time (Some u) w = Some t" "t \<le> max (now w) u"
      by (auto simp: next_time_def)
    show ?case
    proof (cases "cancels w < cancels (advance t w) \<or> ready (advance t w) \<or> reached (Some u) t")
      case True
      with "1.prems" t show ?thesis
        by (subst (asm) park.simps) (auto simp: Let_def split: if_splits)
    next
      case False
      then have "park (Some u) ready (advance t w) = (r, w')"
        using "1.prems" t by (subst (asm) park.simps) (simp add: Let_def)
      from "1.hyps" [OF t(1) refl _ _ this] False t(2) show ?thesis by auto
    qed
  qed
  then show ?thesis
    unfolding ends_within_def sleep_def by (metis (no_types, lifting) add_increasing2 le_max_iff_disj max.absorb2 max.cobounded1 order_refl prod.collapse)
qed

subsection \<open>Locks, stages and sequences that end\<close>

lemma frame_acquire: "keeps frame acquire"
  by (rule keepsI) (auto simp: acquire_def frame_refl split: prod.split outcome.split
      dest: keepsD [OF frm.keeps_park])

lemma polite_acquire: "polite 0 acquire"
proof -
  have "prompt 0 (acquire :: (unit, 'm) co)"
  proof (rule promptI)
    fix w :: "'m world" and r w' i d
    assume "acquire w = (r, w')" and s: "still w i d"
    then show "now w' \<le> max (now w) d + 0 \<and> r \<noteq> Hang \<and> (still w' i d \<or> was_cancelled r)"
      using promptD [OF prompt_park _ s, of None "\<lambda>w. holder w = Nobody"]
      by (cases "park None (\<lambda>w. holder w = Nobody) w")
         (fastforce simp: acquire_def split: if_splits outcome.splits)
  qed
  then show ?thesis by (simp add: polite_def frame_acquire)
qed

lemma release_update: "release = update (\<lambda>w. w\<lparr>holder := Nobody\<rparr>)"
  by (simp add: release_def update_def fun_eq_iff)

lemma ends_within_update: "quiet f \<Longrightarrow> ends_within 0 (update f)"
  by (simp add: ends_within_def update_def quiet_now)

lemma mild_update: "mild (update f)"
  by (simp add: mild_def update_def)

lemma polite_with_lock:
  assumes "polite b f"
  shows "polite b (with_lock u f)"
proof -
  have "polite (0 + (b + 0)) (bind acquire (\<lambda>_. finally_do f release))"
    unfolding release_update
    by (intro polite_bind polite_acquire polite_finally assms polite_update ends_within_update mild_update) simp_all
  with assms show ?thesis by (simp add: with_lock_def)
qed

lemma keeps_timed_frame:
  assumes "keeps frame f"
  shows "keeps frame (timed n f)"
proof (rule keepsI)
  fix w
  show "frame w (snd (timed n f w))"
    using keepsD [OF assms, of "w\<lparr>live := timed_enter n (live w)\<rparr>"]
    by (auto simp: timed_def split: prod.split outcome.split)
qed

lemma polite_timed:
  assumes "polite b f"
  shows "polite b (timed n f)"
proof -
  have "prompt b (timed n f)"
  proof (rule promptI)
    fix w r w' i d
    assume run: "timed n f w = (r, w')" and s: "still w i d"
    obtain r1 w1 where f1: "f (w\<lparr>live := timed_enter n (live w)\<rparr>) = (r1, w1)"
      by (cases "f (w\<lparr>live := timed_enter n (live w)\<rparr>)")
    from promptD [OF politeD(3) [OF assms] f1, of i d] s
    show "now w' \<le> max (now w) d + b \<and> r \<noteq> Hang \<and> (still w' i d \<or> was_cancelled r)"
      using run f1 by (cases r1) (auto simp: timed_def)
  qed
  then show ?thesis using assms keeps_timed_frame by (auto simp: polite_def)
qed

lemma polite_traced: "polite b f \<Longrightarrow> polite b (traced n h f)"
  by (simp add: traced_def polite_timed)

lemma ends_within_ret: "ends_within 0 (ret x)"
  by (simp add: ends_within_def ret_def)

lemma ends_within_throw: "ends_within 0 (throw e)"
  by (simp add: ends_within_def throw_def)

lemma ends_within_pause: "ends_within (max 0 d) (if d > 0 then sleep d else ret ())"
  using ends_within_sleep [of d] ends_within_ret [of "()"] by (auto simp: max_def)

lemma ends_within_bind:
  assumes "ends_within b f" and "\<And>x. ends_within c (g x)" and "0 \<le> c"
  shows "ends_within (b + c) (bind f g)"
proof -
  have "now (snd (bind f g w)) \<le> now w + (b + c) \<and> fst (bind f g w) \<noteq> Hang" for w
  proof -
    obtain r w1 where f: "f w = (r, w1)" by (cases "f w")
    have "now w1 \<le> now w + b" "r \<noteq> Hang" using ends_withinD [OF assms(1) f] by simp_all
    moreover have "now (snd (g x w1)) \<le> now w1 + c" "fst (g x w1) \<noteq> Hang" for x
      using assms(2) unfolding ends_within_def by blast+
    ultimately show ?thesis
      using f assms(3) by (cases r) (auto simp: bind_def intro: order_trans, smt (verit) add.assoc add_right_mono order_trans)
  qed
  then show ?thesis by (simp add: ends_within_def)
qed

lemma ends_within_catch:
  assumes "ends_within b f" and "\<And>e. ends_within c (h e)" and "0 \<le> c"
  shows "ends_within (b + c) (catch f t h)"
proof -
  have "now (snd (catch f t h w)) \<le> now w + (b + c) \<and> fst (catch f t h w) \<noteq> Hang" for w
  proof -
    obtain r w1 where f: "f w = (r, w1)" by (cases "f w")
    have "now w1 \<le> now w + b" "r \<noteq> Hang" using ends_withinD [OF assms(1) f] by simp_all
    moreover have "now (snd (h e w1)) \<le> now w1 + c" "fst (h e w1) \<noteq> Hang" for e
      using assms(2) unfolding ends_within_def by blast+
    ultimately show ?thesis
      using f assms(3) by (cases r) (auto simp: catch_def intro: order_trans, smt (verit) add.assoc add_right_mono order_trans)
  qed
  then show ?thesis by (simp add: ends_within_def)
qed

lemma ends_within_timed: "ends_within b f \<Longrightarrow> ends_within b (timed n f)"
proof -
  assume f: "ends_within b f"
  have "now (snd (timed n f w)) \<le> now w + b \<and> fst (timed n f w) \<noteq> Hang" for w
  proof -
    obtain r w1 where f1: "f (w\<lparr>live := timed_enter n (live w)\<rparr>) = (r, w1)"
      by (cases "f (w\<lparr>live := timed_enter n (live w)\<rparr>)")
    with ends_withinD [OF f this] have "now w1 \<le> now (w\<lparr>live := timed_enter n (live w)\<rparr>) + b" "r \<noteq> Hang"
      by simp_all
    then show ?thesis using f1 by (cases r) (auto simp: timed_def)
  qed
  then show ?thesis by (simp add: ends_within_def)
qed

section \<open>Orderly coroutines\<close>

text \<open>A coroutine that raises ordinary exceptions, or a cancellation somebody asked for.\<close>

definition orderly :: "('a, 'm) co \<Rightarrow> bool" where
  "orderly f \<longleftrightarrow>
     (\<forall>w e w'. f w = (Raise e, w') \<longrightarrow>
        isinstance e ExceptionC \<or> isinstance e CancelledErrorC \<and> cancels w < cancels w')"

lemma frame_cancels: "frame w w' \<Longrightarrow> cancels w \<le> cancels w'"
proof -
  assume f: "frame w w'"
  then have "fired_count (scopes w) \<le> fired_count (scopes w')"
    by (auto simp: frame_def intro: fired_count_mono)
  with f show ?thesis by (auto simp: frame_def)
qed

lemma orderlyD:
  "orderly f \<Longrightarrow> f w = (Raise e, w') \<Longrightarrow>
     isinstance e ExceptionC \<or> isinstance e CancelledErrorC \<and> cancels w < cancels w'"
  unfolding orderly_def by blast

lemma orderly_ret: "orderly (ret x)"
  by (simp add: orderly_def ret_def)

lemma orderly_throw: "isinstance e ExceptionC \<Longrightarrow> orderly (throw e)"
  by (simp add: orderly_def throw_def)

lemma orderly_update: "orderly (update f)"
  by (simp add: orderly_def update_def)

lemma orderly_bind:
  assumes "orderly f" and "keeps frame f" and "\<And>x. orderly (g x)"
  shows "orderly (bind f g)"
  unfolding orderly_def
proof (intro allI impI)
  fix w e w'
  assume run: "bind f g w = (Raise e, w')"
  obtain r w1 where f: "f w = (r, w1)" by (cases "f w")
  have c: "cancels w \<le> cancels w1" using frame_cancels [OF keepsD [OF assms(2) f]] .
  show "isinstance e ExceptionC \<or> isinstance e CancelledErrorC \<and> cancels w < cancels w'"
  proof (cases r)
    case (Return x)
    with run f have "g x w1 = (Raise e, w')" by (simp add: bind_def)
    from orderlyD [OF assms(3) this] c show ?thesis by auto
  qed (use run f orderlyD [OF assms(1), of w e w'] in \<open>auto simp: bind_def\<close>)
qed

lemma orderly_catch:
  assumes "orderly f" and "keeps frame f" and "\<And>e. t e \<Longrightarrow> orderly (h e)"
  shows "orderly (catch f t h)"
  unfolding orderly_def
proof (intro allI impI)
  fix w e w'
  assume run: "catch f t h w = (Raise e, w')"
  obtain r w1 where f: "f w = (r, w1)" by (cases "f w")
  have c: "cancels w \<le> cancels w1" using frame_cancels [OF keepsD [OF assms(2) f]] .
  show "isinstance e ExceptionC \<or> isinstance e CancelledErrorC \<and> cancels w < cancels w'"
  proof (cases "\<exists>x. r = Raise x \<and> t x")
    case True
    then obtain x where x: "r = Raise x" "t x" by blast
    with run f have "h x w1 = (Raise e, w')" by (simp add: catch_def)
    from orderlyD [OF assms(3) [OF x(2)] this] c show ?thesis by auto
  qed (use run f orderlyD [OF assms(1), of w e w'] in \<open>cases r; auto simp: catch_def\<close>)
qed

lemma orderly_park: "orderly (park until ready)"
  unfolding orderly_def
proof (intro allI impI)
  show "isinstance e ExceptionC \<or> isinstance e CancelledErrorC \<and> cancels w < cancels w'"
    if "park until ready w = (Raise e, w')" for w e w'
    using that
  proof (induction until ready w rule: park.induct)
    case (1 until ready w)
    show ?case
    proof (cases "next_time until w")
      case (Some t)
      show ?thesis
      proof (cases "cancels w < cancels (advance t w)")
        case True
        with "1.prems" Some show ?thesis
          by (subst (asm) park.simps) (auto simp: Let_def cancelled_error_def issubclass_eval)
      next
        case False
        then have same: "cancels (advance t w) = cancels w" by (simp add: advance_cancels)
        show ?thesis
        proof (cases "ready (advance t w) \<or> reached until t")
          case True
          with False "1.prems" Some show ?thesis by (subst (asm) park.simps) (simp add: Let_def)
        next
          case not: False
          then have "park until ready (advance t w) = (Raise e, w')"
            using "1.prems" Some False by (subst (asm) park.simps) (simp add: Let_def)
          from "1.IH" [OF Some refl False not this] same show ?thesis by simp
        qed
      qed
    qed (use "1.prems" in \<open>simp add: park.simps\<close>)
  qed
qed

lemma orderly_timed:
  assumes "orderly f"
  shows "orderly (timed n f)"
  unfolding orderly_def
proof (intro allI impI)
  fix w e w'
  assume run: "timed n f w = (Raise e, w')"
  let ?w = "w\<lparr>live := timed_enter n (live w)\<rparr>"
  obtain r w1 where f: "f ?w = (r, w1)" by (cases "f ?w")
  with run have "r = Raise e" "cancels w' = cancels w1" by (cases r; auto simp: timed_def)+
  with assms f show "isinstance e ExceptionC \<or> isinstance e CancelledErrorC \<and> cancels w < cancels w'"
    by (fastforce simp: orderly_def)
qed

lemma orderly_sleep: "orderly (sleep d)"
  using orderly_park unfolding orderly_def sleep_def by blast

lemma orderly_bounded:
  assumes "orderly f" and "keeps frame f"
  shows "orderly (bounded t f)"
  unfolding orderly_def
proof (intro allI impI)
  fix w e w'
  assume run: "bounded t f w = (Raise e, w')"
  obtain r w1 where f: "f (push_scope t w) = (r, w1)" by (cases "f (push_scope t w)")
  obtain s ss where s: "scopes w1 = s # ss" "base s = cancels w"
    "with_timeout t f w = ((scope_outcome s (cancels (pop_scope w1)) r, fired s), pop_scope w1)"
    by (rule with_timeout_run [OF assms(2) f])
  have w': "w' = pop_scope w1" and o1: "scope_outcome s (cancels w') r = Raise e"
    using run s(3) by (auto simp: bounded_def)
  then obtain e' where r: "r = Raise e'" by (cases r) (auto simp: scope_outcome_def)
  note o2 = orderlyD [OF assms(1) f [unfolded r]]
  show "isinstance e ExceptionC \<or> isinstance e CancelledErrorC \<and> cancels w < cancels w'"
  proof (cases "e = e'")
    case True
    show ?thesis
    proof (cases "fired s")
      case False
      with True o2 s(1) w' show ?thesis by (auto simp: pop_scope_def)
    next
      case fired: True
      have "cancels w < cancels w'" if "isinstance e CancelledErrorC"
      proof (rule ccontr)
        assume "\<not> cancels w < cancels w'"
        with o1 r fired s(2) that True have "e = with_cause timeout_error e'"
          by (simp add: scope_outcome_def)
        with that show False by (simp add: timeout_error_def issubclass_eval)
      qed
      with o2 True show ?thesis by blast
    qed
  next
    case False
    with o1 r have "e = with_cause timeout_error e'" by (auto simp: scope_outcome_def split: if_splits)
    then show ?thesis by (simp add: timeout_error_def issubclass_eval)
  qed
qed

text \<open>A synchronous step that only changes the shared memory.\<close>

lemma polite_step:
  assumes "\<And>w. \<exists>r m. f w = (r, w\<lparr>mem := m\<rparr>) \<and> r \<noteq> Hang"
  shows "polite 0 f"
proof -
  have "frame w (snd (f w))" for w
    using assms [of w] by (auto simp: frame_refl)
  moreover have "prompt 0 f"
  proof (rule promptI)
    fix w r w' i d
    assume "f w = (r, w')" and "still w i d"
    with assms [of w] show "now w' \<le> max (now w) d + 0 \<and> r \<noteq> Hang \<and> (still w' i d \<or> was_cancelled r)"
      by auto
  qed
  ultimately show ?thesis by (auto simp: polite_def keeps_def)
qed

text \<open>A coroutine that is, in each world, some polite one.\<close>

lemma polite_pointwise:
  assumes "\<And>w. \<exists>g. polite b g \<and> f w = g w"
  shows "polite b f"
proof -
  have "frame w (snd (f w))" for w
    using assms [of w] by (auto simp: polite_def keeps_def)
  moreover have "prompt b f"
  proof (rule promptI)
    fix w r w' i d
    assume run: "f w = (r, w')" and s: "still w i d"
    from assms [of w] obtain g where g: "polite b g" "g w = (r, w')" using run by auto
    show "now w' \<le> max (now w) d + b \<and> r \<noteq> Hang \<and> (still w' i d \<or> was_cancelled r)"
      by (rule promptD [OF politeD(3) [OF g(1)] g(2) s])
  qed
  moreover have "0 \<le> b" using assms politeD(1) by blast
  ultimately show ?thesis by (simp add: polite_def keeps_def)
qed

lemma polite_seq: "polite 0 f \<Longrightarrow> (\<And>x. polite 0 (g x)) \<Longrightarrow> polite 0 (bind f g)"
  using polite_bind [of 0 f 0 g] by simp

text \<open>Facts about how a wait ends.  All it raises is the cancellation.\<close>

lemma park_raises_cancelled: "park until ready w = (Raise e, w') \<Longrightarrow> e = cancelled_error"
proof (induction until ready w rule: park.induct)
  case (1 until ready w)
  show ?case
  proof (cases "next_time until w")
    case (Some t)
    show ?thesis
    proof (cases "cancels w < cancels (advance t w) \<or> ready (advance t w) \<or> reached until t")
      case True
      with "1.prems" Some show ?thesis
        by (subst (asm) park.simps) (auto simp: Let_def split: if_splits)
    next
      case False
      then have "park until ready (advance t w) = (Raise e, w')"
        using "1.prems" Some by (subst (asm) park.simps) (simp add: Let_def)
      with "1.IH" [OF Some refl] False show ?thesis by simp
    qed
  qed (use "1.prems" in \<open>simp add: park.simps\<close>)
qed

text \<open>A wait that ends with what it waited for.\<close>

lemma park_ready: "park None ready w = (Return u, w') \<Longrightarrow> ready w'"
proof (induction "None :: seconds option" ready w rule: park.induct)
  case (1 ready w)
  show ?case
  proof (cases "next_time None w")
    case (Some t)
    show ?thesis
    proof (cases "cancels w < cancels (advance t w) \<or> ready (advance t w)")
      case True
      with "1.prems" Some show ?thesis
        by (subst (asm) park.simps) (auto simp: Let_def reached_def split: if_splits)
    next
      case False
      then have "park None ready (advance t w) = (Return u, w')"
        using "1.prems" Some by (subst (asm) park.simps) (simp add: Let_def reached_def)
      with "1.hyps" [OF Some refl] False show ?thesis by (simp add: reached_def)
    qed
  qed (use "1.prems" in \<open>simp add: park.simps\<close>)
qed

text \<open>A step that cancels nothing fires no scope.\<close>

lemma step_fires_none:
  assumes "\<not> cancels w < cancels (advance t w)"
  shows "scopes (advance t w) = scopes w"
proof -
  from assms have "filter (due t) (scopes w) = []" by (simp add: advance_cancels)
  then have "\<forall>s \<in> set (scopes w). \<not> due t s" by (simp add: filter_empty_conv)
  then show ?thesis by (auto intro: map_idI)
qed

text \<open>A step that neither fires a scope nor cancels the task is one of the agenda's.\<close>

lemma step_at_signal:
  assumes "next_time None w = Some t" and "\<not> cancels w < cancels (advance t w)"
  shows "agenda w \<noteq> [] \<and> t = max (now w) (fst (hd (agenda w)))"
proof -
  have same: "cancels (advance t w) = cancels w" using assms(2) by (simp add: advance_cancels)
  from step_uses_agenda [OF assms(1) same] obtain u s rest where a: "agenda w = (u, s) # rest"
    by (cases "agenda w") (auto simp: reached_def)
  from assms(1) obtain e where e: "earliest (wake_times None w) = Some e" and t: "t = max (now w) e"
    by (auto simp: next_time_def)
  have quiet: "filter (due t) (scopes w) = []" using same by (simp add: advance_cancels)
  have "e \<in> set (wake_times None w)" by (rule earliest_mem [OF e])
  moreover have "e \<notin> set (map (the \<circ> deadline) (filter pending (scopes w)))"
    using quiet t by (auto simp: filter_empty_conv due_def pending_def split: option.splits)
  ultimately have "e = u" using a by (auto simp: wake_times_def)
  with t a show ?thesis by simp
qed

text \<open>The last step of a wait: until then it was not ready, and no scope had fired.\<close>

lemma park_last:
  assumes "park None ready w = (r, w')" and "r \<noteq> Hang" and "\<not> ready w" and "world_frame R"
  shows "\<exists>v t. R w v \<and> \<not> ready v \<and> scopes v = scopes w \<and> next_time None v = Some t \<and> w' = advance t v
    \<and> (is_raise r \<or> \<not> cancels v < cancels w')"
  using assms(1,3)
proof (induction "None :: seconds option" ready w rule: park.induct)
  case (1 ready w)
  note R_refl = world_frame.R_refl [OF assms(4)] and R_trans = world_frame.R_trans [OF assms(4)]
    and R_advance = world_frame.R_advance [OF assms(4)]
  show ?case
  proof (cases "next_time None w")
    case (Some t)
    show ?thesis
    proof (cases "cancels w < cancels (advance t w) \<or> ready (advance t w)")
      case True
      with "1.prems" Some have "w' = advance t w" "is_raise r \<or> \<not> cancels w < cancels w'"
        by (subst (asm) park.simps; auto simp: Let_def reached_def split: if_splits)+
      with "1.prems"(2) Some R_refl show ?thesis by blast
    next
      case False
      then have "park None ready (advance t w) = (r, w')"
        using "1.prems"(1) Some by (subst (asm) park.simps) (simp add: Let_def reached_def)
      with "1.hyps" [OF Some refl] False obtain v u where v: "R (advance t w) v" "\<not> ready v"
        "scopes v = scopes (advance t w)" "next_time None v = Some u" "w' = advance u v"
        "is_raise r \<or> \<not> cancels v < cancels w'"
        by (auto simp: reached_def)
      have "now w \<le> t" using Some by (auto simp: next_time_def)
      with v(1) R_advance R_trans have "R w v" by blast
      moreover have "scopes v = scopes w" using v(3) step_fires_none [of w t] False by simp
      ultimately show ?thesis using v(2,4-6) by blast
    qed
  qed (use "1.prems" assms(2) in \<open>simp add: park.simps\<close>)
qed

text \<open>A deadline that fires has been reached.\<close>

definition punctual :: "'m world \<Rightarrow> 'm world \<Rightarrow> bool" where
  "punctual w w' \<longleftrightarrow> now w \<le> now w' \<and> (\<forall>i d. still w i d \<longrightarrow> still w' i d \<or> d \<le> now w')"

lemma punctual_refl: "punctual w w"
  by (simp add: punctual_def)

lemma punctual_trans: "punctual u v \<Longrightarrow> punctual v w \<Longrightarrow> punctual u w"
  unfolding punctual_def by (meson order_trans)

lemma punctual_advance: "now w \<le> t \<Longrightarrow> punctual w (advance t w)"
  by (auto simp: punctual_def still_def due_def split: if_splits)

lemma punctual_scope:
  assumes "punctual (push_scope t w) w'"
  shows "punctual w (pop_scope w')"
  unfolding punctual_def
proof (intro conjI allI impI)
  show "now w \<le> now (pop_scope w')" using assms by (simp add: punctual_def)
  fix i d
  assume "still w i d"
  then have "still (push_scope t w) (Suc i) d" by (simp add: still_def)
  with assms have "still w' (Suc i) d \<or> d \<le> now w'" unfolding punctual_def by blast
  then show "still (pop_scope w') i d \<or> d \<le> now (pop_scope w')"
    by (cases "scopes w'") (auto simp: still_def)
qed

interpretation pun: scoped_frame punctual
  by unfold_locales (auto intro: punctual_refl punctual_advance punctual_scope elim: punctual_trans)

text \<open>A bound times out only when its time is over, if the body raises no TimeoutError of its own.\<close>

definition no_timeout :: "('a, 'm) co \<Rightarrow> bool" where
  "no_timeout f \<longleftrightarrow> (\<forall>w e w'. f w = (Raise e, w') \<longrightarrow> \<not> isinstance e TimeoutErrorC)"

lemma bounded_times_out:
  assumes "keeps frame f" and "keeps punctual f" and "no_timeout f"
    and "bounded (Some s) f w = (Raise e, w')" and "isinstance e TimeoutErrorC"
  shows "now w + s \<le> now w'" and "e = with_cause timeout_error (case f (push_scope (Some s) w) of (Raise x, _) \<Rightarrow> x | _ \<Rightarrow> e)"
proof -
  obtain r w1 where f: "f (push_scope (Some s) w) = (r, w1)" by (cases "f (push_scope (Some s) w)")
  obtain sc ss where sc: "scopes w1 = sc # ss" "deadline sc = map_option (\<lambda>x. now w + x) (Some s)"
    "with_timeout (Some s) f w = ((scope_outcome sc (cancels (pop_scope w1)) r, fired sc), pop_scope w1)"
    by (rule with_timeout_run [OF assms(1) f])
  have o1: "scope_outcome sc (cancels (pop_scope w1)) r = Raise e" and w': "w' = pop_scope w1"
    using assms(4) sc(3) by (auto simp: bounded_def)
  then obtain e' where r: "r = Raise e'" by (cases r) (auto simp: scope_outcome_def)
  have "\<not> isinstance e' TimeoutErrorC" using assms(3) f r unfolding no_timeout_def by blast
  with o1 r assms(5) have "fired sc" and e: "e = with_cause timeout_error e'"
    by (auto simp: scope_outcome_def split: if_splits)
  then have "\<not> still w1 0 (now w + s)" using sc(1) by (simp add: still_def)
  moreover have "still (push_scope (Some s) w) 0 (now w + s)" by (simp add: still_def)
  ultimately show "now w + s \<le> now w'" using keepsD [OF assms(2) f] w' by (auto simp: punctual_def)
  show "e = with_cause timeout_error (case f (push_scope (Some s) w) of (Raise x, _) \<Rightarrow> x | _ \<Rightarrow> e)"
    using e f r by simp
qed

section \<open>More frames\<close>

text \<open>A part of the shared memory nothing else touches: no signal of the agenda does.\<close>

definition intact :: "('m \<Rightarrow> 'x) \<Rightarrow> 'm world \<Rightarrow> bool" where
  "intact g w \<longleftrightarrow> (\<forall>(t, s) \<in> set (agenda w). case s of Change f \<Rightarrow> \<forall>m. g (f m) = g m | _ \<Rightarrow> True)"

definition part_frame :: "('m \<Rightarrow> 'x) \<Rightarrow> 'm world \<Rightarrow> 'm world \<Rightarrow> bool" where
  "part_frame g w w' \<longleftrightarrow> (intact g w \<longrightarrow> intact g w' \<and> g (mem w') = g (mem w))"

lemma fold_deliver_part:
  assumes "\<forall>(t, s) \<in> set xs. case s of Change f \<Rightarrow> \<forall>m. g (f m) = g m | _ \<Rightarrow> True"
  shows "g (mem (fold (\<lambda>(_, s). deliver s) xs w)) = g (mem w)"
  using assms
proof (induction xs arbitrary: w)
  case (Cons x xs)
  obtain t s where x: "x = (t, s)" by (cases x)
  from Cons.prems x have "g (mem (deliver s w)) = g (mem w)" by (cases s) auto
  with Cons.IH [of "deliver s w"] Cons.prems x show ?case by simp
qed simp

lemma part_frame_advance: "part_frame g w (advance t w)"
  unfolding part_frame_def
proof (intro impI conjI)
  assume i: "intact g w"
  then show "intact g (advance t w)"
    unfolding intact_def using set_dropWhileD by fastforce
  have "\<forall>(t', s) \<in> set (takeWhile (\<lambda>(s, _). s \<le> t) (agenda w)). case s of Change f \<Rightarrow> \<forall>m. g (f m) = g m | _ \<Rightarrow> True"
    using i unfolding intact_def using set_takeWhileD by fastforce
  from fold_deliver_part [OF this]
  show "g (mem (advance t w)) = g (mem w)"
    by (simp add: advance_def fire_due_def deliver_due_def)
qed

lemma part_frame_refl: "part_frame g w w"
  by (simp add: part_frame_def)

lemma part_frame_trans: "part_frame g u v \<Longrightarrow> part_frame g v w \<Longrightarrow> part_frame g u w"
  by (simp add: part_frame_def)

lemma part_frame_scope: "part_frame g (push_scope t w) w' \<Longrightarrow> part_frame g w (pop_scope w')"
  by (simp add: part_frame_def intact_def)

interpretation part: scoped_frame "part_frame g" for g
  by unfold_locales (auto intro: part_frame_refl part_frame_advance part_frame_scope elim: part_frame_trans)

lemma part_frame_fields [simp]:
  "part_frame g (w\<lparr>live := t\<rparr>) w' = part_frame g w w'" "part_frame g w (w'\<lparr>live := t\<rparr>) = part_frame g w w'"
  "part_frame g (w\<lparr>holder := h\<rparr>) w' = part_frame g w w'" "part_frame g w (w'\<lparr>holder := h\<rparr>) = part_frame g w w'"
  "part_frame g (w\<lparr>scratch := s\<rparr>) w' = part_frame g w w'" "part_frame g w (w'\<lparr>scratch := s\<rparr>) = part_frame g w w'"
  by (simp_all add: part_frame_def intact_def)

text \<open>The lock: waiting neither takes it from the task nor gives it to it.\<close>

definition lock_frame :: "'m world \<Rightarrow> 'm world \<Rightarrow> bool" where
  "lock_frame w w' \<longleftrightarrow> (holder w = Me \<longleftrightarrow> holder w' = Me)"

lemma fold_deliver_lock: "holder (fold (\<lambda>(_, s). deliver s) xs w) = Me \<longleftrightarrow> holder w = Me"
proof (induction xs arbitrary: w)
  case (Cons x xs)
  obtain t s where x: "x = (t, s)" by (cases x)
  have "holder (deliver s w) = Me \<longleftrightarrow> holder w = Me" by (cases s) auto
  with Cons [of "deliver s w"] x show ?case by simp
qed simp

interpretation lck: scoped_frame lock_frame
  by unfold_locales
    (auto simp: lock_frame_def advance_def fire_due_def deliver_due_def fold_deliver_lock)

lemma lock_frame_fields [simp]:
  "lock_frame (w\<lparr>live := t\<rparr>) w' = lock_frame w w'" "lock_frame w (w'\<lparr>live := t\<rparr>) = lock_frame w w'"
  "lock_frame (w\<lparr>scratch := s\<rparr>) w' = lock_frame w w'" "lock_frame w (w'\<lparr>scratch := s\<rparr>) = lock_frame w w'"
  "lock_frame (w\<lparr>mem := m\<rparr>) w' = lock_frame w w'" "lock_frame w (w'\<lparr>mem := m\<rparr>) = lock_frame w w'"
  by (simp_all add: lock_frame_def)

lemma intact_mem [simp]:
  "intact g (w\<lparr>mem := m\<rparr>) = intact g w" "intact g (w\<lparr>live := t\<rparr>) = intact g w"
  "intact g (w\<lparr>scratch := s\<rparr>) = intact g w"
  by (simp_all add: intact_def)

lemma part_frameD:
  "keeps (part_frame g) f \<Longrightarrow> f w = (r, w') \<Longrightarrow> intact g w \<Longrightarrow> intact g w' \<and> g (mem w') = g (mem w)"
  using keepsD [of "part_frame g" f w r w'] by (simp add: part_frame_def)

section \<open>What time brings\<close>

text \<open>The memory at a later time, when nothing but the agenda touches it.\<close>

definition changes :: "(seconds \<times> 'm signal) list \<Rightarrow> 'm \<Rightarrow> 'm" where
  "changes = fold (\<lambda>(_, s). case s of Change f \<Rightarrow> f | _ \<Rightarrow> id)"

lemma changes_append: "changes (us @ vs) m = changes vs (changes us m)"
  by (simp add: changes_def)

lemma fold_deliver_mem: "mem (fold (\<lambda>(_, s). deliver s) xs w) = changes xs (mem w)"
proof (induction xs arbitrary: w)
  case (Cons x xs)
  obtain t s where "x = (t, s)" by (cases x)
  with Cons show ?case by (cases s) (simp_all add: changes_def)
qed (simp add: changes_def)

lemma advance_mem: "mem (advance t w) = changes (takeWhile (\<lambda>(s, _). s \<le> t) (agenda w)) (mem w)"
  by (simp add: advance_def fire_due_def deliver_due_def fold_deliver_mem)

lemma takeWhile_split:
  "\<forall>x. P x \<longrightarrow> Q x \<Longrightarrow> takeWhile Q xs = takeWhile P xs @ takeWhile Q (dropWhile P xs)"
  "\<forall>x. P x \<longrightarrow> Q x \<Longrightarrow> dropWhile Q xs = dropWhile Q (dropWhile P xs)"
  by (induction xs) simp_all

lemma advance_twice:
  assumes "t \<le> u"
  shows "mem (advance u (advance t w)) = mem (advance u w)" "agenda (advance u (advance t w)) = agenda (advance u w)"
proof -
  have le: "\<forall>x. (\<lambda>(s, _). s \<le> t) x \<longrightarrow> (\<lambda>(s, _ :: 'a signal). s \<le> u) x" using assms by auto
  show "mem (advance u (advance t w)) = mem (advance u w)"
    by (simp add: advance_mem changes_append takeWhile_split(1) [OF le, of "agenda w"])
  show "agenda (advance u (advance t w)) = agenda (advance u w)"
    by (simp add: takeWhile_split(2) [OF le, of "agenda w"])
qed

text \<open>\<open>w'\<close> is the world at its own time, as it follows from \<open>w\<close>.\<close>

definition world_at :: "'m world \<Rightarrow> 'm world \<Rightarrow> bool" where
  "world_at w w' \<longleftrightarrow> now w \<le> now w' \<and> mem w' = mem (advance (now w') w) \<and> agenda w' = agenda (advance (now w') w)"

lemma world_at_later:
  assumes "world_at w v" and "now v \<le> t"
  shows "mem (advance t v) = mem (advance t w)" "agenda (advance t v) = agenda (advance t w)"
  using assms advance_twice [of "now v" t w] by (simp_all add: world_at_def advance_mem)

lemma world_at_trans: "world_at u v \<Longrightarrow> world_at v w \<Longrightarrow> world_at u w"
  using world_at_later [of u v "now w"] by (simp add: world_at_def)

lemma world_at_scope [simp]:
  "world_at (push_scope t w) w' = world_at w w'" "world_at w (pop_scope w') = world_at w w'"
  by (simp_all add: world_at_def advance_mem)

text \<open>A wait looks at every change of the memory: what it waits for has not been there before.\<close>

lemma park_sees:
  assumes "park None ready w = (r, w')" and "r \<noteq> Hang" and "\<And>v. ready v \<longleftrightarrow> Q (mem v)" and "\<not> Q (mem w)"
  shows "world_at w w' \<and> (\<forall>\<tau>. now w \<le> \<tau> \<longrightarrow> \<tau> < now w' \<longrightarrow> \<not> Q (mem (advance \<tau> w)))"
  using assms
proof (induction "None :: seconds option" ready w rule: park.induct)
  case (1 ready w)
  show ?case
  proof (cases "next_time None w")
    case (Some t)
    from Some have t: "now w \<le> t" by (auto simp: next_time_def)
    have before: "\<not> Q (mem (advance \<tau> w))" if "now w \<le> \<tau>" "\<tau> < t" for \<tau>
    proof -
      from Some obtain e where e: "earliest (wake_times None w) = Some e" "t = max (now w) e"
        by (auto simp: next_time_def)
      have "takeWhile (\<lambda>(s, _). s \<le> \<tau>) (agenda w) = []"
      proof (cases "agenda w")
        case (Cons p rest)
        then have "fst p \<in> set (wake_times None w)" by (cases p) (simp add: wake_times_def)
        from earliest_le [OF e(1) this] e(2) that have "\<tau> < fst p" by auto
        with Cons show ?thesis by (cases p) simp
      qed simp
      with "1.prems"(4) show ?thesis by (simp add: advance_mem changes_def)
    qed
    have at: "world_at w (advance t w)" using t by (simp add: world_at_def)
    show ?thesis
    proof (cases "cancels w < cancels (advance t w) \<or> ready (advance t w)")
      case True
      with "1.prems"(1) Some have "w' = advance t w"
        by (subst (asm) park.simps) (auto simp: Let_def reached_def split: if_splits)
      with at before show ?thesis by simp
    next
      case False
      then have more: "park None ready (advance t w) = (r, w')"
        using "1.prems"(1) Some by (subst (asm) park.simps) (simp add: Let_def reached_def)
      from False "1.prems"(3) have "\<not> Q (mem (advance t w))" by simp
      from "1.hyps" [OF Some refl _ _ more "1.prems"(2,3) this] False
      have rest: "world_at (advance t w) w'"
        "\<And>\<tau>. t \<le> \<tau> \<Longrightarrow> \<tau> < now w' \<Longrightarrow> \<not> Q (mem (advance \<tau> (advance t w)))"
        by (auto simp: reached_def)
      have "\<not> Q (mem (advance \<tau> w))" if "now w \<le> \<tau>" "\<tau> < now w'" for \<tau>
        using before [of \<tau>] rest(2) [of \<tau>] that advance_twice(1) [of t \<tau> w] by (cases "\<tau> < t") auto
      with world_at_trans [OF at rest(1)] show ?thesis by blast
    qed
  qed (use "1.prems" in \<open>simp add: park.simps\<close>)
qed

end
