(* ===== verification/TraceLaws.thy ===== *)
theory TraceLaws
  imports RuntimeLaws "HOL-Library.Sublist"
begin

text \<open>
  What a trace says of a running session: which stage a failure is put down to when stages nest, and
  that the recorded seconds account for the time that passed, and what holds of every trace that the
  operations of \<open>src/src/blesession/trace.py\<close> can lead to (a state machine with its invariant).
\<close>

section \<open>What a nest of stages records\<close>

text \<open>Stages around a body, outermost first.\<close>

definition nested :: "string list \<Rightarrow> ('a, 'm) co \<Rightarrow> ('a, 'm) co" where
  "nested names f = foldr timed names f"

lemma timed_run:
  assumes "f (w\<lparr>live := timed_enter n (live w)\<rparr>) = (r, w1)" and "r \<noteq> Hang"
  shows "timed n f w = (r, w1\<lparr>live := timed_exit n (is_raise r) (now w1 - now w) (live w1)\<rparr>)"
  using assms by (cases r) (simp_all add: timed_def)

lemma nested_stage:
  assumes "\<And>w. failed_stage (live w) = None \<Longrightarrow> failed_stage (live (snd (f w))) = None"
    and "failed_stage (live w) = None" and "nested names f w = (Raise e, w')"
  shows "failed_stage (live w') = (if names = [] then None else Some (last names))"
  using assms(2,3)
proof (induction names arbitrary: w w')
  case Nil
  then show ?case using assms(1) [of w] by (simp add: nested_def)
next
  case (Cons n names)
  let ?w = "w\<lparr>live := timed_enter n (live w)\<rparr>"
  obtain r w1 where f: "nested names f ?w = (r, w1)" by (cases "nested names f ?w")
  then have r: "r = Raise e" and w': "w' = w1\<lparr>live := timed_exit n True (now w1 - now w) (live w1)\<rparr>"
    using Cons.prems(2) by (cases r; simp add: nested_def timed_def)+
  from Cons.IH [of ?w w1] f r Cons.prems(1)
  show ?case by (simp add: w' split: option.split)
qed

lemma nested_keeps_failure:
  assumes "\<And>w s. failed_stage (live w) = Some s \<Longrightarrow> failed_stage (live (snd (f w))) = Some s"
    and "failed_stage (live w) = Some s"
  shows "failed_stage (live (snd (nested names f w))) = Some s"
  using assms(2)
proof (induction names arbitrary: w)
  case (Cons n names)
  let ?w = "w\<lparr>live := timed_enter n (live w)\<rparr>"
  obtain r w1 where f: "nested names f ?w = (r, w1)" by (cases "nested names f ?w")
  with Cons.IH [of ?w] Cons.prems have "failed_stage (live w1) = Some s" by simp
  with f show ?case by (cases r) (simp_all add: nested_def timed_def)
qed (simp add: nested_def assms(1))

text \<open>A body that uses the trace only through stages of its own that it finishes without failing.\<close>

definition traceless :: "('a, 'm) co \<Rightarrow> bool" where
  "traceless f \<longleftrightarrow> (\<forall>w. live (snd (f w)) = live w)"

text \<open>
  C28: The innermost stage an exception escapes from is the one recorded, however deep the nest, and
  the first failure wins: a later nest of stages that fails as well, such as the close, does not
  overwrite it.
\<close>

theorem innermost_and_first_failure:
  assumes "traceless f" and "traceless g" and "failed_stage (live w) = None" and "names \<noteq> []"
    and "nested names f w = (Raise e, w1)" and "nested names' g w1 = (r, w2)"
  shows "failed_stage (live w1) = Some (last names) \<and> failed_stage (live w2) = Some (last names)"
proof -
  have "failed_stage (live w1) = Some (last names)"
    using nested_stage [OF _ assms(3,5)] assms(1,4) by (simp add: traceless_def)
  moreover have "failed_stage (live (snd (nested names' g w1))) = Some (last names)"
    using assms(2) calculation by (intro nested_keeps_failure) (simp_all add: traceless_def)
  ultimately show ?thesis using assms(6) by simp
qed

theorem innermost_and_first_failure_witness:
  "failed_stage (live (snd (timed DISCONNECT (throw (ConnectFailed ''x'' None) :: (unit, unit) co)
     (snd (timed SESSION (timed ''unlock'' (throw (DeviceError ''no'' PyNone None None None) :: (unit, unit) co))
       (idle ()))))))
   = Some ''unlock''"
proof -
  let ?f = "throw (DeviceError ''no'' PyNone None None None) :: (unit, unit) co"
  let ?g = "throw (ConnectFailed ''x'' None) :: (unit, unit) co"
  have quiet: "traceless ?f" "traceless ?g" by (simp_all add: traceless_def throw_def)
  obtain w1 where w1: "nested [SESSION, ''unlock''] ?f (idle ()) = (Raise (DeviceError ''no'' PyNone None None None), w1)"
    by (simp add: nested_def timed_def throw_def)
  obtain r w2 where w2: "nested [DISCONNECT] ?g w1 = (r, w2)" by (cases "nested [DISCONNECT] ?g w1")
  have "failed_stage (live (idle ())) = None" by (simp add: idle_def new_trace_def)
  from innermost_and_first_failure [OF quiet this _ w1 w2] w1 w2 show ?thesis
    by (simp add: nested_def)
qed

section \<open>Where the time went\<close>

fun in_order :: "(string \<times> (unit, 'm) co) list \<Rightarrow> (unit, 'm) co" where
  "in_order [] = ret ()"
| "in_order ((n, f) # rest) = bind (timed n f) (\<lambda>_. in_order rest)"

lemma timed_exit_total [simp]:
  "total_seconds (timed_exit n r s t) = total_seconds t + s"
  using total_seconds_add [of n s t] timed_exit_timings [of n r s t] by (simp add: total_seconds_def)

lemma total_seconds_enter [simp]: "total_seconds (timed_enter n t) = total_seconds t"
  by (simp add: total_seconds_def)

lemma timed_total:
  assumes "traceless f" and "timed n f w = (r, w')" and "r \<noteq> Hang"
  shows "total_seconds (live w') = total_seconds (live w) + (now w' - now w)
    \<and> stage_stack (live w') = stage_stack (live w)"
proof -
  obtain r1 w1 where f: "f (w\<lparr>live := timed_enter n (live w)\<rparr>) = (r1, w1)"
    by (cases "f (w\<lparr>live := timed_enter n (live w)\<rparr>)")
  then have "live w1 = timed_enter n (live w)" using assms(1) unfolding traceless_def
    by (metis (mono_tags, lifting) snd_conv select_convs(6) surjective update_convs(6))
  with f assms(2,3) show ?thesis by (cases r1) (auto simp: timed_def)
qed

text \<open>The trace accounts for all the time: after a sequence of stages, wherever it stopped, the
  seconds recorded are exactly the time that passed, and no stage is left open.\<close>

lemma stage_seconds_account_for_time:
  assumes "\<forall>(n, f) \<in> set stages. traceless f"
    and "in_order stages w = (r, w')" and "r \<noteq> Hang"
  shows "total_seconds (live w') = total_seconds (live w) + (now w' - now w)
    \<and> stage_stack (live w') = stage_stack (live w)"
  using assms
proof (induction stages arbitrary: w)
  case (Cons p rest)
  obtain n f where p: "p = (n, f)" by (cases p)
  obtain r1 w1 where t: "timed n f w = (r1, w1)" by (cases "timed n f w")
  from Cons.prems p t have "r1 \<noteq> Hang" by (auto simp: bind_def)
  note first = timed_total [OF _ t this]
  show ?case
  proof (cases r1)
    case (Return x)
    with Cons.prems p t have "in_order rest w1 = (r, w')" by (simp add: bind_def)
    with Cons.IH [of w1] Cons.prems(1,3) first p show ?thesis by simp
  qed (use Cons.prems p t first in \<open>auto simp: bind_def\<close>)
qed (simp add: ret_def)

section \<open>The trace as a state machine\<close>

text \<open>
  What an integration and the library do to a trace, in any order: enter a stage and leave the innermost
  one, add seconds measured elsewhere, record and forgive a failure, note facts, set the link.
\<close>

inductive trace_step :: "session_trace \<Rightarrow> session_trace \<Rightarrow> bool" where
  enter: "trace_step t (timed_enter name t)"
| leave: "stage_stack t \<noteq> [] \<Longrightarrow> 0 \<le> s \<Longrightarrow> trace_step t (timed_exit (last (stage_stack t)) raised s t)"
| recorded: "0 \<le> s \<Longrightarrow> trace_step t (record_stage name s t)"
| failed: "trace_step t (fail_stage name t)"
| forgiven: "trace_step t (forgive name t)"
| noted: "trace_step t (note_facts facts t)"
| linked: "trace_step t (t\<lparr>trace_link := l\<rparr>)"

inductive trace_reachable :: "stage_map option \<Rightarrow> session_trace \<Rightarrow> bool" for sm where
  fresh_trace: "trace_reachable sm (new_trace sm)"
| next_trace: "trace_reachable sm t \<Longrightarrow> trace_step t t' \<Longrightarrow> trace_reachable sm t'"

text \<open>The invariant.\<close>

definition trace_ok :: "stage_map option \<Rightarrow> session_trace \<Rightarrow> bool" where
  "trace_ok sm t \<longleftrightarrow>
     stage_map t = sm \<and> distinct (dict_keys (raw_timings t)) \<and> (\<forall>e \<in> set (raw_timings t). 0 \<le> snd e)
     \<and> distinct (dict_keys (trace_facts t)) \<and> (\<forall>e \<in> set (trace_facts t). snd e \<noteq> PyNone)"

lemma dict_set_values:
  "P v \<Longrightarrow> \<forall>e \<in> set d. P (snd e) \<Longrightarrow> \<forall>e \<in> set (dict_set k v d). P (snd e)"
proof (induction d)
  case (Cons p d)
  then show ?case by (cases p) simp
qed simp

lemma note_facts_ok:
  "distinct (dict_keys (trace_facts t)) \<Longrightarrow> \<forall>e \<in> set (trace_facts t). snd e \<noteq> PyNone \<Longrightarrow>
   distinct (dict_keys (trace_facts (note_facts kvs t))) \<and> (\<forall>e \<in> set (trace_facts (note_facts kvs t)). snd e \<noteq> PyNone)"
proof (induction kvs t rule: note_facts.induct)
  case (2 k v kvs t)
  then show ?case
    using dict_set_values [of "\<lambda>x. x \<noteq> PyNone" v "trace_facts t" k] by (cases "v = PyNone") (simp_all add: dict_set_distinct)
qed simp

lemma add_seconds_ok:
  assumes "distinct (dict_keys (raw_timings t))" and "\<forall>e \<in> set (raw_timings t). 0 \<le> snd e" and "0 \<le> s"
  shows "distinct (dict_keys (raw_timings (add_seconds n s t))) \<and> (\<forall>e \<in> set (raw_timings (add_seconds n s t)). 0 \<le> snd e)"
proof -
  have "0 \<le> (case dict_get (raw_timings t) n of None \<Rightarrow> 0 | Some x \<Rightarrow> x) + s"
    using assms(2,3) by (force split: option.split dest: map_of_SomeD)
  from dict_set_values [of "\<lambda>x. 0 \<le> x", OF this assms(2)] assms(1) show ?thesis
    by (simp add: add_seconds_def dict_set_distinct)
qed

lemma trace_step_ok: "trace_step t t' \<Longrightarrow> trace_ok sm t \<Longrightarrow> trace_ok sm t'"
proof (induction rule: trace_step.induct)
  case (leave t s raised)
  then show ?case using add_seconds_ok [of t s "last (stage_stack t)"] by (simp add: trace_ok_def timed_exit_timings)
next
  case (recorded s t name)
  then show ?case using add_seconds_ok [of t s name] by (simp add: trace_ok_def record_stage_def)
next
  case (noted t facts)
  then show ?case using note_facts_ok [of t facts] by (simp add: trace_ok_def)
qed (simp_all add: trace_ok_def forgive_def)

lemma trace_reachable_ok: "trace_reachable sm t \<Longrightarrow> trace_ok sm t"
proof (induction rule: trace_reachable.induct)
  case fresh_trace
  then show ?case by (simp add: trace_ok_def new_trace_def)
qed (rule trace_step_ok)

text \<open>What one step does to the seconds and to the failed stage.\<close>

lemma add_seconds_grows:
  "0 \<le> s \<Longrightarrow> prefix (dict_keys (raw_timings t)) (dict_keys (raw_timings (add_seconds n s t)))
    \<and> seconds_of t m \<le> seconds_of (add_seconds n s t) m"
  using seconds_of_add [of n s t m] by (simp add: add_seconds_def dict_set_keys)

lemma seconds_of_cong: "raw_timings t = raw_timings t' \<Longrightarrow> seconds_of t m = seconds_of t' m"
  by (simp add: seconds_of_def)

lemma trace_step_grows:
  "trace_step t t' \<Longrightarrow> prefix (dict_keys (raw_timings t)) (dict_keys (raw_timings t')) \<and> seconds_of t m \<le> seconds_of t' m"
proof (induction rule: trace_step.induct)
  case (leave t s raised)
  then show ?case
    using add_seconds_grows [of s t "last (stage_stack t)" m] timed_exit_timings [of "last (stage_stack t)" raised s t]
      seconds_of_cong [OF timed_exit_timings] by simp
next
  case (recorded s t name)
  then show ?case using add_seconds_grows by (simp add: record_stage_def)
qed (simp_all add: seconds_of_def forgive_def)

inductive_cases trace_stepE: "trace_step t t'"

lemma trace_step_failure:
  "trace_step t t' \<Longrightarrow> failed_stage t = Some s \<Longrightarrow> failed_stage t' = Some s \<or> (\<exists>name. t' = forgive name t)"
  by (erule trace_stepE) (auto simp: record_stage_def)

lemma as_dict_distinct:
  "distinct (dict_keys (trace_facts t)) \<Longrightarrow> distinct (dict_keys (as_dict t))"
  unfolding as_dict_def by (intro dict_update_distinct) (simp split: option.split)

text \<open>
  C29: Whatever sequence of operations an integration and the library perform on a trace, it stays
  publishable: no key occurs twice, no noted fact is None, the stages keep the order they first finished
  in, none of their seconds is lost or negative, and a recorded failure only goes away when it is
  forgiven.
\<close>

theorem trace_well_kept:
  assumes "trace_reachable sm t" and "trace_step t t'"
  shows "distinct (dict_keys (as_dict t')) \<and> stage_map t' = sm
    \<and> (\<forall>(k, v) \<in> set (trace_facts t'). v \<noteq> PyNone)
    \<and> prefix (dict_keys (timings t)) (dict_keys (timings t')) \<and> (\<forall>(k, s) \<in> set (timings t'). 0 \<le> s)
    \<and> seconds_of t name \<le> seconds_of t' name
    \<and> (failed_stage t = Some s \<longrightarrow> failed_stage t' = Some s \<or> (\<exists>name. t' = forgive name t))"
proof -
  have ok: "trace_ok sm t'" by (rule trace_step_ok [OF assms(2) trace_reachable_ok [OF assms(1)]])
  then have "\<forall>(k, s) \<in> set (timings t'). 0 \<le> s"
    by (auto simp: timings_def trace_ok_def intro!: round3_nonneg)
  moreover have "distinct (dict_keys (as_dict t'))" using ok by (intro as_dict_distinct) (simp add: trace_ok_def)
  moreover have "prefix (dict_keys (timings t)) (dict_keys (timings t'))" "seconds_of t name \<le> seconds_of t' name"
    using trace_step_grows [OF assms(2)] by (simp_all add: timings_keys)
  ultimately show ?thesis using ok trace_step_failure [OF assms(2)] by (auto simp: trace_ok_def)
qed

text \<open>A retry forgives the failed unlock.\<close>

theorem trace_well_kept_witness:
  "let t = timed_exit ''unlock'' True 2 (timed_enter ''unlock'' (new_trace None)); t' = forgive None t
   in prefix (dict_keys (timings t)) (dict_keys (timings t')) \<and> failed_stage t = Some ''unlock''
      \<and> dict_keys (as_dict t') = [''unlock_s''] \<and> distinct (dict_keys (as_dict t'))"
proof -
  let ?e = "timed_enter ''unlock'' (new_trace None)"
  let ?t = "timed_exit ''unlock'' True 2 ?e"
  have "trace_step ?e (timed_exit (last (stage_stack ?e)) True 2 ?e)" by (rule leave) (simp_all add: new_trace_def)
  then have "trace_step ?e ?t" by (simp add: new_trace_def)
  then have "trace_reachable None ?t" using fresh_trace enter by (blast intro: next_trace)
  from trace_well_kept [OF this forgiven [of ?t None]] show ?thesis
    by (simp add: Let_def new_trace_def as_dict_def stage_seconds_def timings_def timed_exit_timings add_seconds_def forgive_def)
qed

end
