(* ===== verification/Client.thy ===== *)
theory Client
  imports RuntimeLaws Gatt
begin

text \<open>
  The memory the library's coroutines share with the radio, and the client they drive.  A bleak
  client is a third-party object: the record \<open>client\<close> of what the library calls on it, with the
  contract \<open>ble_client\<close> the library relies on (each call ends promptly when the task is
  cancelled).  Here too is the registry of drop events of
  \<open>src/src/blesession/session.py\<close>, which every other component consults.
\<close>

text \<open>\<open>asyncio.Event\<close>s and \<open>asyncio.Queue\<close>s by number, the next free number, the event that
  watches each client's link (\<open>_DROPPED\<close>), and whatever the rest of the program has.\<close>

record 'e shared =
  events :: "nat \<Rightarrow> bool"
  queues :: "nat \<Rightarrow> bytes list"
  fresh :: nat
  watched :: "nat \<Rightarrow> nat option"
  env :: 'e

type_synonym ('a, 'e) ble = "('a, 'e shared) co"

text \<open>A handler is the number of the queue it fills; a disconnect callback the events it sets.\<close>

record 'e client =
  c_id :: nat
  c_weakref :: bool
  c_connected :: "'e shared world \<Rightarrow> bool"
  c_start_notify :: "string \<Rightarrow> nat \<Rightarrow> (unit, 'e) ble"
  c_stop_notify :: "string \<Rightarrow> (unit, 'e) ble"
  c_write :: "string \<Rightarrow> bytes \<Rightarrow> bool option \<Rightarrow> (unit, 'e) ble"
  c_disconnect :: "(unit, 'e) ble"
  c_get_services :: "(unit, 'e) ble option"
  c_mtu_size :: "'e shared world \<Rightarrow> exc + pyval \<times> bool"
  c_internals :: "'e shared world \<Rightarrow> client_internals"

section \<open>Shared memory\<close>

definition set_events :: "nat list \<Rightarrow> 'e shared \<Rightarrow> 'e shared" where
  "set_events es m = m\<lparr>events := (\<lambda>i. i \<in> set es \<or> events m i)\<rparr>"

definition clear_event :: "nat \<Rightarrow> 'e shared \<Rightarrow> 'e shared" where
  "clear_event e m = m\<lparr>events := (events m)(e := False)\<rparr>"

definition put_frame :: "nat \<Rightarrow> bytes \<Rightarrow> 'e shared \<Rightarrow> 'e shared" where
  "put_frame q data m = m\<lparr>queues := (queues m)(q := queues m q @ [data])\<rparr>"

abbreviation queue_of :: "'e shared world \<Rightarrow> nat \<Rightarrow> bytes list" where
  "queue_of w q \<equiv> queues (mem w) q"

abbreviation is_set :: "'e shared world \<Rightarrow> nat \<Rightarrow> bool" where
  "is_set w e \<equiv> events (mem w) e"

definition change :: "('e shared \<Rightarrow> 'e shared) \<Rightarrow> (unit, 'e) ble" where
  "change f = update (\<lambda>w. w\<lparr>mem := f (mem w)\<rparr>)"

text \<open>A fresh number, for an event (unset) or a queue (empty).\<close>

definition allocate :: "(nat, 'e) ble" where
  "allocate w =
     (let m = mem w; i = fresh m
      in (Return i, w\<lparr>mem := m\<lparr>fresh := i + 1, events := (events m)(i := False), queues := (queues m)(i := [])\<rparr>\<rparr>))"

section \<open>The drop events\<close>

definition dropped_event :: "'e client \<Rightarrow> 'e shared world \<Rightarrow> nat option" where
  "dropped_event c w = (if c_weakref c then watched (mem w) (c_id c) else None)"

definition watch_drops :: "'e client \<Rightarrow> nat \<Rightarrow> (unit, 'e) ble" where
  "watch_drops c d =
     (if c_weakref c then change (\<lambda>m. m\<lparr>watched := (watched m)(c_id c \<mapsto> d)\<rparr>) else ret ())"

definition still_up :: "'e client option \<Rightarrow> 'e shared world \<Rightarrow> bool" where
  "still_up c w =
     (case c of
        None \<Rightarrow> False
      | Some c \<Rightarrow>
          (if \<not> c_connected c w then False
           else case dropped_event c w of None \<Rightarrow> True | Some d \<Rightarrow> \<not> is_set w d))"

section \<open>The contract of a client\<close>

locale ble_client =
  fixes c :: "'e client"
  assumes start_polite: "polite 0 (c_start_notify c char handler)"
    and stop_polite: "polite 0 (c_stop_notify c char)"
    and write_polite: "polite 0 (c_write c char data response)"
    and disconnect_polite: "polite 0 (c_disconnect c)"
    and services_polite: "c_get_services c = Some f \<Longrightarrow> polite 0 f"

lemma set_events_sel [simp]:
  "events (set_events es m) i \<longleftrightarrow> i \<in> set es \<or> events m i"
  "queues (set_events es m) = queues m" "watched (set_events es m) = watched m"
  "fresh (set_events es m) = fresh m" "env (set_events es m) = env m"
  by (simp_all add: set_events_def)

lemma put_frame_sel [simp]:
  "queues (put_frame q x m) r = (if r = q then queues m q @ [x] else queues m r)"
  "events (put_frame q x m) = events m" "watched (put_frame q x m) = watched m"
  "fresh (put_frame q x m) = fresh m" "env (put_frame q x m) = env m"
  by (simp_all add: put_frame_def)

lemma polite_change: "polite 0 (change f)"
  unfolding change_def by (rule polite_update) simp

lemma ends_within_change: "ends_within 0 (change f)"
  unfolding change_def by (rule ends_within_update) simp

lemma mild_change: "mild (change f)"
  unfolding change_def by (rule mild_update)

lemma orderly_change: "orderly (change f)"
  by (simp add: change_def orderly_update)

end
