(* ===== verification/Testing.thy ===== *)
theory Testing
  imports Client
begin

text \<open>
  The client stand-in of \<open>src/src/blesession/testing.py\<close>: its state is the \<open>env\<close> of the shared
  memory, its bleak surface a \<open>client\<close> record, so that it is the provider of the client contract.
  \<open>on_write\<close> is a synchronous callback: what it does to the memory, and whether it raises.
\<close>

section \<open>What the device exposes\<close>

text \<open>\<open>FakeCharacteristic\<close> is a \<open>gatt_char\<close>; a service is its characteristics by lower-case uuid.\<close>

type_synonym fake_service = "(string, gatt_char) dict"

definition FakeCharacteristic :: "string list \<Rightarrow> int \<Rightarrow> gatt_char" where
  "FakeCharacteristic props max_size =
     \<lparr>properties = props, max_write_without_response_size = Inr (PyInt max_size)\<rparr>"

definition get_characteristic :: "fake_service \<Rightarrow> string \<Rightarrow> gatt_char option" where
  "get_characteristic service uuid = dict_get service (lower uuid)"

definition get_service :: "(string, fake_service) dict \<Rightarrow> string \<Rightarrow> fake_service option" where
  "get_service by_uuid uuid = dict_get by_uuid (lower uuid)"

section \<open>The client's state\<close>

record fake =
  f_connected :: bool
  writes :: "(string \<times> bytes \<times> bool option) list"
  subscribed :: "(string, nat) dict"
  disconnects :: nat
  fail_start_notify :: "exc option"
  fail_stop_notify :: "exc option"
  fail_disconnect :: "exc option"
  fail_write :: "exc option"
  disconnect_delay_s :: seconds
  write_delay_s :: seconds
  services :: "(string, fake_service) dict"
  mtu_size :: pyval
  disconnected_callback :: "nat list option"
  f_pending :: "bytes list"

definition FakeClient :: "bool \<Rightarrow> fake" where
  "FakeClient up =
     \<lparr>f_connected = up, writes = [], subscribed = [], disconnects = 0, fail_start_notify = None,
      fail_stop_notify = None, fail_disconnect = None, fail_write = None, disconnect_delay_s = 0,
      write_delay_s = 0, services = [], mtu_size = PyInt 247, disconnected_callback = None, f_pending = []\<rparr>"

type_synonym fake_memory = "fake shared"

definition on_fake :: "(fake \<Rightarrow> fake) \<Rightarrow> fake_memory \<Rightarrow> fake_memory" where
  "on_fake f m = m\<lparr>env := f (env m)\<rparr>"

definition add_characteristic ::
  "string \<Rightarrow> string \<Rightarrow> string list \<Rightarrow> int \<Rightarrow> fake \<Rightarrow> fake" where
  "add_characteristic service_uuid char_uuid props max_size s =
     (let service = (case dict_get (services s) (lower service_uuid) of None \<Rightarrow> [] | Some d \<Rightarrow> d);
          service' = dict_set (lower char_uuid) (FakeCharacteristic props max_size) service
      in s\<lparr>services := dict_set (lower service_uuid) service' (services s)\<rparr>)"

text \<open>\<open>reply\<close>: to the one subscriber, or the named one, else kept for the next.\<close>

definition reply :: "bytes \<Rightarrow> string option \<Rightarrow> fake_memory \<Rightarrow> fake_memory" where
  "reply data characteristic m =
     (let subs = subscribed (env m);
          target = (if characteristic = None \<and> length subs = 1 then Some (fst (hd subs)) else characteristic);
          handler = (case target of None \<Rightarrow> None | Some ch \<Rightarrow> dict_get subs ch)
      in case handler of
           None \<Rightarrow> on_fake (\<lambda>s. s\<lparr>f_pending := f_pending s @ [data]\<rparr>) m
         | Some q \<Rightarrow> put_frame q data m)"

definition drop_link :: "fake_memory \<Rightarrow> fake_memory" where
  "drop_link m =
     (if \<not> f_connected (env m) then m
      else
        (let m1 = on_fake (\<lambda>s. s\<lparr>f_connected := False\<rparr>) m
         in case disconnected_callback (env m1) of
              None \<Rightarrow> m1
            | Some es \<Rightarrow> set_events es m1))"

section \<open>The bleak surface\<close>

definition raise_if :: "exc option \<Rightarrow> (unit, 'm) co" where
  "raise_if e = (case e of None \<Rightarrow> ret () | Some x \<Rightarrow> throw x)"

definition pause_if :: "seconds \<Rightarrow> (unit, 'm) co" where
  "pause_if d = (if d \<noteq> 0 then sleep d else ret ())"

text \<open>An attribute of the fake, read when the call gets there.\<close>

definition reading :: "(fake \<Rightarrow> 'x) \<Rightarrow> ('x \<Rightarrow> (unit, fake) ble) \<Rightarrow> (unit, fake) ble" where
  "reading f g w = g (f (env (mem w))) w"

definition fake_start_notify :: "string \<Rightarrow> nat \<Rightarrow> (unit, fake) ble" where
  "fake_start_notify characteristic handler =
     reading fail_start_notify (\<lambda>e. bind (raise_if e) (\<lambda>_.
       change (\<lambda>m.
         let kept = f_pending (env m);
             m1 = on_fake (\<lambda>s. s\<lparr>subscribed := dict_set characteristic handler (subscribed s), f_pending := []\<rparr>) m
         in fold (put_frame handler) kept m1)))"

definition fake_stop_notify :: "string \<Rightarrow> (unit, fake) ble" where
  "fake_stop_notify characteristic =
     reading fail_stop_notify (\<lambda>e. bind (raise_if e) (\<lambda>_.
       change (on_fake (\<lambda>s. s\<lparr>subscribed := filter (\<lambda>(k, _). k \<noteq> characteristic) (subscribed s)\<rparr>))))"

type_synonym write_callback = "string \<Rightarrow> bytes \<Rightarrow> fake_memory \<Rightarrow> exc option \<times> fake_memory"

definition call_on_write :: "write_callback option \<Rightarrow> string \<Rightarrow> bytes \<Rightarrow> (unit, fake) ble" where
  "call_on_write on_write characteristic data w =
     (case on_write of
        None \<Rightarrow> (Return (), w)
      | Some f \<Rightarrow>
          (case f characteristic data (mem w) of
             (None, m) \<Rightarrow> (Return (), w\<lparr>mem := m\<rparr>)
           | (Some e, m) \<Rightarrow> (Raise e, w\<lparr>mem := m\<rparr>)))"

definition fake_write :: "write_callback option \<Rightarrow> string \<Rightarrow> bytes \<Rightarrow> bool option \<Rightarrow> (unit, fake) ble" where
  "fake_write on_write characteristic data response =
     bind (reading write_delay_s pause_if) (\<lambda>_.
     bind (reading fail_write raise_if) (\<lambda>_.
     bind (change (on_fake (\<lambda>s. s\<lparr>writes := writes s @ [(characteristic, data, response)]\<rparr>))) (\<lambda>_.
       call_on_write on_write characteristic data)))"

definition fake_disconnect :: "(unit, fake) ble" where
  "fake_disconnect =
     bind (change (on_fake (\<lambda>s. s\<lparr>disconnects := disconnects s + 1\<rparr>))) (\<lambda>_.
     bind (reading disconnect_delay_s pause_if) (\<lambda>_.
     bind (reading fail_disconnect raise_if) (\<lambda>_.
       change drop_link)))"

text \<open>The object as the library sees it.  A fake has no \<open>get_services\<close> and no backend internals.\<close>

definition fake_client :: "nat \<Rightarrow> write_callback option \<Rightarrow> fake client" where
  "fake_client i on_write =
     \<lparr>c_id = i, c_weakref = True, c_connected = \<lambda>w. f_connected (env (mem w)),
      c_start_notify = fake_start_notify, c_stop_notify = fake_stop_notify,
      c_write = fake_write on_write, c_disconnect = fake_disconnect, c_get_services = None,
      c_mtu_size = \<lambda>w. Inr (mtu_size (env (mem w)), False),
      c_internals = \<lambda>_. \<lparr>connected_scanner = PyNone, backend_of = None\<rparr>\<rparr>"

text \<open>\<open>fake_connect\<close>: an \<open>establish_connection\<close> that hands back the client it was given, or a new one,
  with the session's callback wired to it, or raises.\<close>

definition fake_connect ::
  "nat \<Rightarrow> write_callback option \<Rightarrow> bool \<Rightarrow> exc option \<Rightarrow> nat list \<Rightarrow> (fake client, fake) ble" where
  "fake_connect i on_write given fail callback =
     bind (raise_if fail) (\<lambda>_.
     bind (change (on_fake (\<lambda>s. (if given then s else FakeClient True)\<lparr>disconnected_callback := Some callback\<rparr>))) (\<lambda>_.
       ret (fake_client i on_write)))"

definition FakeDevice :: "string \<Rightarrow> device_details \<Rightarrow> ble_device" where
  "FakeDevice address details = \<lparr>dev_address = address, dev_details = details\<rparr>"

section \<open>The fake keeps the client's contract\<close>

lemma polite_reading: "(\<And>x. polite 0 (g x)) \<Longrightarrow> polite 0 (reading f g)"
  by (auto simp: polite_def keeps_def prompt_def reading_def)

lemma polite_raise_if: "polite 0 (raise_if e)"
  by (auto simp: raise_if_def polite_ret polite_throw split: option.split)

lemma polite_pause_if: "polite 0 (pause_if d)"
  by (simp add: pause_if_def polite_ret polite_sleep)

lemma polite_call_on_write: "polite 0 (call_on_write f ch data)"
proof (rule polite_step)
  fix w :: "fake_memory world"
  have "\<exists>m. w = w\<lparr>mem := m\<rparr>" by (intro exI [of _ "mem w"]) simp
  then show "\<exists>r m. call_on_write f ch data w = (r, w\<lparr>mem := m\<rparr>) \<and> r \<noteq> Hang"
    unfolding call_on_write_def by (auto split: option.split prod.split)
qed

interpretation fake: ble_client "fake_client i on_write" for i on_write
  by unfold_locales
    (auto simp: fake_client_def fake_start_notify_def fake_stop_notify_def fake_write_def fake_disconnect_def
      intro!: polite_seq polite_reading polite_raise_if polite_pause_if polite_change polite_call_on_write)

end
