(* ===== verification/Transfers.thy ===== *)
theory Transfers
  imports Testing "HOL-Library.Sublist"
begin

text \<open>
  Writing through a link that may go away (\<open>src/src/blesession/transfer.py\<close>): one guarded write, and a
  payload in chunks.  \<open>wrap\<close> frames a chunk or raises, \<open>on_chunk\<close> is any coroutine.
\<close>

definition WRITE_TIMEOUT_S :: seconds where "WRITE_TIMEOUT_S = 10"

definition raise_if_dropped :: "nat option \<Rightarrow> string \<Rightarrow> string \<Rightarrow> (unit, 'e) ble" where
  "raise_if_dropped dropped step phase w =
     (case dropped of
        Some d \<Rightarrow>
          if is_set w d then (Raise (SessionDropped (''The link dropped '' @ phase @ '' '' @ step) (Some step)), w)
          else (Return (), w)
      | None \<Rightarrow> (Return (), w))"

text \<open>The write under its bound; a TimeoutError is renamed only when the bound fired.\<close>

definition bounded_write ::
  "'e client \<Rightarrow> string \<Rightarrow> bytes \<Rightarrow> string \<Rightarrow> bool option \<Rightarrow> seconds option \<Rightarrow> nat option \<Rightarrow> (unit, 'e) ble" where
  "bounded_write c characteristic data step response timeout dropped w =
     (case with_timeout timeout (c_write c characteristic data response) w of
        ((Raise e, expired), w') \<Rightarrow>
          if isinstance e TimeoutErrorC \<and> expired then
            bind (raise_if_dropped dropped step ''during'') (\<lambda>_.
              case timeout of
                None \<Rightarrow> throw (plain_exc AssertionErrorC [])
              | Some t \<Rightarrow> throw (with_cause (WriteTimeout t step) e)) w'
          else (Raise e, w')
      | ((r, _), w') \<Rightarrow> (r, w'))"

definition guarded_write ::
  "'e client \<Rightarrow> string \<Rightarrow> bytes \<Rightarrow> string \<Rightarrow> bool option \<Rightarrow> seconds option \<Rightarrow> nat option \<Rightarrow> string
    \<Rightarrow> (unit, 'e) ble" where
  "guarded_write c characteristic data step response timeout dropped phase w =
     (let d = (case dropped of Some e \<Rightarrow> Some e | None \<Rightarrow> dropped_event c w)
      in bind (raise_if_dropped d step phase)
           (\<lambda>_. bounded_write c characteristic data step response timeout d) w)"

text \<open>The keyword arguments of \<open>write_chunks\<close>.\<close>

record 'e chunking =
  k_step :: string
  k_response :: "bool option"
  k_gap_s :: seconds
  k_wrap :: "(nat \<Rightarrow> bytes \<Rightarrow> exc + bytes) option"
  k_on_chunk :: "(nat \<Rightarrow> (unit, 'e) ble) option"
  k_write_timeout :: "seconds option"

definition default_chunking :: "string \<Rightarrow> 'e chunking" where
  "default_chunking step =
     \<lparr>k_step = step, k_response = Some False, k_gap_s = 0, k_wrap = None, k_on_chunk = None,
      k_write_timeout = Some WRITE_TIMEOUT_S\<rparr>"

definition framed :: "'e chunking \<Rightarrow> nat \<Rightarrow> bytes \<Rightarrow> exc + bytes" where
  "framed k offset chunk = (case k_wrap k of None \<Rightarrow> Inr chunk | Some f \<Rightarrow> f offset chunk)"

text \<open>\<open>range(0, len(data), size)\<close>\<close>

definition offsets :: "nat \<Rightarrow> nat \<Rightarrow> nat list" where
  "offsets len sz = map (\<lambda>i. i * sz) [0..<(len + sz - 1) div sz]"

text \<open>The body of the loop, and the loop over the offsets; \<open>sent\<close> counts the writes made.\<close>

definition write_chunk ::
  "'e client \<Rightarrow> string \<Rightarrow> bytes \<Rightarrow> nat \<Rightarrow> 'e chunking \<Rightarrow> nat option \<Rightarrow> nat \<Rightarrow> nat \<Rightarrow> (unit, 'e) ble" where
  "write_chunk c characteristic data sz k dropped offset sent =
     bind (raise_if_dropped dropped (k_step k) ''during'') (\<lambda>_.
     bind (case framed k offset (take sz (drop offset data)) of Inl e \<Rightarrow> throw e | Inr chunk \<Rightarrow> ret chunk) (\<lambda>chunk.
     bind (guarded_write c characteristic chunk (k_step k) (k_response k) (k_write_timeout k) dropped ''during'') (\<lambda>_.
     bind (case k_on_chunk k of None \<Rightarrow> ret () | Some f \<Rightarrow> f (sent + 1)) (\<lambda>_.
       if k_gap_s k > 0 then sleep (k_gap_s k) else ret ()))))"

fun chunk_loop ::
  "'e client \<Rightarrow> string \<Rightarrow> bytes \<Rightarrow> nat \<Rightarrow> 'e chunking \<Rightarrow> nat option \<Rightarrow> nat list \<Rightarrow> nat \<Rightarrow> (nat, 'e) ble" where
  "chunk_loop c characteristic data sz k dropped [] sent = ret sent"
| "chunk_loop c characteristic data sz k dropped (offset # rest) sent =
     bind (write_chunk c characteristic data sz k dropped offset sent) (\<lambda>_.
       chunk_loop c characteristic data sz k dropped rest (sent + 1))"

definition write_chunks :: "'e client \<Rightarrow> string \<Rightarrow> bytes \<Rightarrow> int \<Rightarrow> 'e chunking \<Rightarrow> (nat, 'e) ble" where
  "write_chunks c characteristic data sz k w =
     (if sz < 1
      then (Raise (plain_exc ValueErrorC (''size must be at least 1, not '' @ int_text sz)), w)
      else chunk_loop c characteristic data (nat sz) k (dropped_event c w)
             (offsets (length data) (nat sz)) 0 w)"

section \<open>The slices\<close>

lemma concat_slices: "concat (map (\<lambda>i. take s (drop (i * s) xs)) [0..<n]) = take (n * s) xs"
  by (induction n) (simp_all add: take_add [symmetric] add.commute)

lemma slices_complete:
  assumes "0 < s"
  shows "concat (map (\<lambda>o'. take s (drop o' xs)) (offsets (length xs) s)) = xs"
proof -
  let ?n = "(length xs + s - 1) div s"
  have "length xs \<le> ?n * s"
    using assms div_mult_mod_eq [of "length xs + s - 1" s] mod_less_divisor [OF assms, of "length xs + s - 1"]
    by linarith
  then show ?thesis using concat_slices [of s xs ?n] by (simp add: offsets_def comp_def)
qed

lemma slice_sizes:
  assumes "0 < s" and "o' \<in> set (offsets (length xs) s)"
  shows "take s (drop o' xs) \<noteq> [] \<and> length (take s (drop o' xs)) \<le> s"
proof -
  from assms(2) obtain i where i: "i < (length xs + s - 1) div s" "o' = i * s" by (auto simp: offsets_def)
  then have "(i + 1) * s \<le> length xs + s - 1"
    using div_times_less_eq_dividend [of "length xs + s - 1" s] mult_le_mono1 [of "i + 1" _ s]
    by (metis Suc_eq_plus1 Suc_leI order_trans)
  with i assms(1) show ?thesis by auto
qed

section \<open>One guarded write\<close>

lemma polite_raise_if_dropped: "polite 0 (raise_if_dropped d step phase)"
proof (rule polite_step)
  fix w :: "'e shared world"
  have "\<exists>m. w = w\<lparr>mem := m\<rparr>" by (intro exI [of _ "mem w"]) simp
  then show "\<exists>r m. raise_if_dropped d step phase w = (r, w\<lparr>mem := m\<rparr>) \<and> r \<noteq> Hang"
    by (auto simp: raise_if_dropped_def split: option.split)
qed

lemma raise_if_dropped_cases:
  "raise_if_dropped d step phase w =
     (if (\<exists>i. d = Some i \<and> is_set w i)
      then (Raise (SessionDropped (''The link dropped '' @ phase @ '' '' @ step) (Some step)), w)
      else (Return (), w))"
  by (auto simp: raise_if_dropped_def split: option.split)

text \<open>The link a write that starts in \<open>w\<close> goes through is down in \<open>v\<close>.\<close>

definition link_down :: "'e client \<Rightarrow> nat option \<Rightarrow> 'e shared world \<Rightarrow> 'e shared world \<Rightarrow> bool" where
  "link_down c dropped w v \<longleftrightarrow>
     (\<exists>i. (case dropped of Some e \<Rightarrow> Some e | None \<Rightarrow> dropped_event c w) = Some i \<and> is_set v i)"

lemma guarded_write_unfold:
  "guarded_write c ch data step r t dropped phase w =
     (if link_down c dropped w w
      then (Raise (SessionDropped (''The link dropped '' @ phase @ '' '' @ step) (Some step)), w)
      else bounded_write c ch data step r t (case dropped of Some e \<Rightarrow> Some e | None \<Rightarrow> dropped_event c w) w)"
  by (cases "case dropped of Some e \<Rightarrow> Some e | None \<Rightarrow> dropped_event c w")
     (simp_all add: guarded_write_def Let_def bind_def raise_if_dropped_def link_down_def)

lemma bounded_write_run:
  assumes "with_timeout t (c_write c ch data r) w = ((x, expired), v)"
  shows "bounded_write c ch data step r t d w =
    (case x of
       Raise e \<Rightarrow>
         if isinstance e TimeoutErrorC \<and> expired then
           (if \<exists>i. d = Some i \<and> is_set v i
            then (Raise (SessionDropped (''The link dropped during '' @ step) (Some step)), v)
            else (case t of None \<Rightarrow> (Raise (plain_exc AssertionErrorC []), v)
                  | Some s \<Rightarrow> (Raise (with_cause (WriteTimeout s step) e), v)))
         else (Raise e, v)
     | _ \<Rightarrow> (x, v))"
  using assms
  by (auto simp: bounded_write_def bind_def raise_if_dropped_cases throw_def split: outcome.split option.split)

text \<open>The documented ends of one write.\<close>

definition write_end ::
  "'e client \<Rightarrow> string \<Rightarrow> bytes \<Rightarrow> string \<Rightarrow> bool option \<Rightarrow> seconds \<Rightarrow> nat option \<Rightarrow> string
    \<Rightarrow> 'e shared world \<Rightarrow> unit outcome \<Rightarrow> 'e shared world \<Rightarrow> bool" where
  "write_end c ch data step r t dropped phase w x v \<longleftrightarrow>
     (if link_down c dropped w w
      then x = Raise (SessionDropped (''The link dropped '' @ phase @ '' '' @ step) (Some step)) \<and> v = w
      else
        (let ((y, expired), v') = with_timeout (Some t) (c_write c ch data r) w
         in v = v' \<and>
            (case y of
               Raise e \<Rightarrow>
                 if isinstance e TimeoutErrorC \<and> expired then
                   (if link_down c dropped w v
                    then x = Raise (SessionDropped (''The link dropped during '' @ step) (Some step))
                    else x = Raise (with_cause (WriteTimeout t step) e))
                 else x = Raise e
             | Return u \<Rightarrow> x = Return u
             | Hang \<Rightarrow> False)))"

context ble_client
begin

lemma write_ends: "ends_within (max 0 t) (bounded (Some t) (c_write c ch data r))"
  using ends_within_bounded [OF write_polite [of ch data r], of t] by simp

lemma guarded_write_ends:
  assumes "guarded_write c ch data step r (Some t) dropped phase w = (x, v)"
  shows "write_end c ch data step r t dropped phase w x v \<and> now v \<le> now w + max 0 t"
proof -
  let ?d = "case dropped of Some e \<Rightarrow> Some e | None \<Rightarrow> dropped_event c w"
  obtain y ex v' where run: "with_timeout (Some t) (c_write c ch data r) w = ((y, ex), v')"
    by (cases "with_timeout (Some t) (c_write c ch data r) w") auto
  have b: "bounded (Some t) (c_write c ch data r) w = (y, v')" using run by (simp add: bounded_def)
  have t: "now v' \<le> now w + max 0 t" "y \<noteq> Hang"
    using ends_withinD [OF write_ends b] by simp_all
  show ?thesis
  proof (cases "link_down c dropped w w")
    case True
    with assms show ?thesis by (simp add: write_end_def guarded_write_unfold)
  next
    case False
    then have "bounded_write c ch data step r (Some t) ?d w = (x, v)"
      using assms by (simp add: guarded_write_unfold)
    with bounded_write_run [OF run, of step ?d]
    have "(x, v) = (case y of
       Raise e \<Rightarrow>
         if isinstance e TimeoutErrorC \<and> ex then
           (if link_down c dropped w v'
            then (Raise (SessionDropped (''The link dropped during '' @ step) (Some step)), v')
            else (Raise (with_cause (WriteTimeout t step) e), v'))
         else (Raise e, v')
     | _ \<Rightarrow> (y, v'))"
      by (cases y) (auto simp: link_down_def split: if_splits)
    with False t run show ?thesis
      by (cases y) (auto simp: write_end_def split: if_splits)
  qed
qed

lemma bounded_write_polite: "polite 0 (bounded_write c ch data step r t d)"
proof -
  let ?b = "bounded t (c_write c ch data r)"
  have b: "polite 0 ?b" by (rule polite_bounded [OF write_polite])
  have same: "\<exists>y. ?b w = (y, snd (bounded_write c ch data step r t d w)) \<and>
      (fst (bounded_write c ch data step r t d w) = y \<or>
       fst (bounded_write c ch data step r t d w) \<noteq> Hang \<and> \<not> was_cancelled y \<and> y \<noteq> Hang)" for w
  proof -
    obtain y ex v where run: "with_timeout t (c_write c ch data r) w = ((y, ex), v)"
      by (cases "with_timeout t (c_write c ch data r) w") auto
    have "\<not> isinstance e CancelledErrorC" if "isinstance e TimeoutErrorC" for e
      using isinstance_exception_not_cancelled isinstance_trans [OF that, of ExceptionC] by (simp add: issubclass_eval)
    then show ?thesis using bounded_write_run [OF run, of step d] run
      by (cases y) (auto simp: bounded_def split: option.split)
  qed
  have "keeps frame (bounded_write c ch data step r t d)"
    using same politeD(2) [OF b] by (metis keepsD keepsI)
  moreover have "prompt 0 (bounded_write c ch data step r t d)"
  proof (rule promptI)
    fix w x v i s
    assume run: "bounded_write c ch data step r t d w = (x, v)" and st: "still w i s"
    from same [of w] run obtain y where y: "?b w = (y, v)" "x = y \<or> x \<noteq> Hang \<and> \<not> was_cancelled y \<and> y \<noteq> Hang" by auto
    from promptD [OF politeD(3) [OF b] y(1) st] y(2)
    show "now v \<le> max (now w) s + 0 \<and> x \<noteq> Hang \<and> (still v i s \<or> was_cancelled x)" by auto
  qed
  ultimately show ?thesis by (simp add: polite_def)
qed

lemma guarded_write_polite: "polite 0 (guarded_write c ch data step r t dropped phase)"
proof -
  let ?d = "\<lambda>w. case dropped of Some e \<Rightarrow> Some e | None \<Rightarrow> dropped_event c w"
  have p: "polite 0 (bind (raise_if_dropped (?d w) step phase) (\<lambda>_. bounded_write c ch data step r t (?d w)))" for w
    by (intro polite_seq polite_raise_if_dropped bounded_write_polite)
  show ?thesis
    using p unfolding polite_def keeps_def prompt_def guarded_write_def Let_def by blast
qed

end

text \<open>
  C17: A guarded write ends as documented, and in time: a link already down raises \<open>SessionDropped\<close>
  naming the step and writes nothing; a write cut at its own bound raises \<open>SessionDropped\<close> when the
  link went meanwhile and \<open>WriteTimeout\<close> otherwise, both naming the step; anything the backend raised
  itself passes unchanged; and it never hangs.
\<close>

theorem guarded_write_in_time:
  assumes "ble_client c" and "guarded_write c ch data step r (Some t) dropped phase w = (x, v)"
  shows "write_end c ch data step r t dropped phase w x v \<and> now v \<le> now w + max 0 t"
  using assms by (rule ble_client.guarded_write_ends)

text \<open>A proxy that hangs every write.\<close>

definition fake_world :: "fake \<Rightarrow> fake_memory world" where
  "fake_world s = idle \<lparr>events = \<lambda>_. False, queues = \<lambda>_. [], fresh = 0, watched = \<lambda>_. None, env = s\<rparr>"

theorem guarded_write_in_time_witness:
  "\<exists>e v. guarded_write (fake_client 1 None) ''2a19'' [1, 2] ''send'' None (Some 10) None ''before''
       (fake_world ((FakeClient True)\<lparr>write_delay_s := 60\<rparr>)) = (Raise e, v)
     \<and> isinstance e WriteTimeoutC \<and> now v = 10"
proof -
  let ?c = "fake_client 1 None" and ?w = "fake_world ((FakeClient True)\<lparr>write_delay_s := 60\<rparr>)"
  obtain e v where run: "with_timeout (Some 10) (c_write ?c ''2a19'' [1, 2] None) ?w = ((Raise e, True), v)"
    and e: "isinstance e TimeoutErrorC" and v: "now v = 10"
    by (simp add: fake_client_def fake_write_def fake_world_def idle_def FakeClient_def with_timeout_def push_scope_def
        pop_scope_def bind_def reading_def pause_if_def sleep_def park.simps next_time_def wake_times_def pending_def
        advance_def deliver_due_def fire_due_def due_def reached_def scope_outcome_def cancelled_error_def timeout_error_def
        issubclass_eval Let_def)
  obtain x u where g: "guarded_write ?c ''2a19'' [1, 2] ''send'' None (Some 10) None ''before'' ?w = (x, u)"
    by (cases "guarded_write ?c ''2a19'' [1, 2] ''send'' None (Some 10) None ''before'' ?w")
  from guarded_write_in_time [OF fake.ble_client_axioms g] run e v g show ?thesis
    by (auto simp: write_end_def link_down_def dropped_event_def fake_client_def fake_world_def idle_def issubclass_eval)
qed

section \<open>What reaches the device\<close>

text \<open>The callback leaves that part alone.\<close>

definition on_chunk_keeps :: "('e shared \<Rightarrow> 'x) \<Rightarrow> 'e chunking \<Rightarrow> bool" where
  "on_chunk_keeps g k \<longleftrightarrow> (\<forall>f n. k_on_chunk k = Some f \<longrightarrow> keeps (part_frame g) (f n))"

text \<open>
  The contract of a client that logs its writes: a write that returns has appended its data, one that
  fails may have, and none appends anything else.  \<open>log\<close> is a part of the memory nothing else touches.
\<close>

definition logged :: "bool \<Rightarrow> 'a list \<Rightarrow> 'a \<Rightarrow> 'a list \<Rightarrow> bool" where
  "logged sure l x l' \<longleftrightarrow> l' = l @ [x] \<or> \<not> sure \<and> l' = l"

locale write_log = ble_client c for c :: "'e client" +
  fixes log :: "'e shared \<Rightarrow> (string \<times> bytes \<times> bool option) list"
  assumes write_logs: "intact log w \<Longrightarrow> c_write c ch data r w = (x, w') \<Longrightarrow>
    intact log w' \<and> logged (x = Return ()) (log (mem w)) (ch, data, r) (log (mem w'))"
begin

lemma guarded_write_logs:
  assumes "intact log w" and "guarded_write c ch data step r t dropped phase w = (x, w')"
  shows "intact log w' \<and> logged (x = Return ()) (log (mem w)) (ch, data, r) (log (mem w'))"
proof -
  let ?d = "case dropped of Some e \<Rightarrow> Some e | None \<Rightarrow> dropped_event c w"
  obtain y ex v where run: "with_timeout t (c_write c ch data r) w = ((y, ex), v)"
    by (cases "with_timeout t (c_write c ch data r) w") auto
  obtain y1 w1 where w: "c_write c ch data r (push_scope t w) = (y1, w1)"
    by (cases "c_write c ch data r (push_scope t w)")
  with run have v: "v = pop_scope w1" "y = Return () \<longleftrightarrow> y1 = Return ()"
    by (auto simp: with_timeout_def Let_def)
  have "intact log (push_scope t w)" using assms(1) by (simp add: intact_def)
  from write_logs [OF this w] v have log:
    "intact log v" "logged (y = Return ()) (log (mem w)) (ch, data, r) (log (mem v))"
    by (simp_all add: intact_def)
  show ?thesis
  proof (cases "link_down c dropped w w")
    case True
    with assms show ?thesis by (auto simp: guarded_write_unfold logged_def)
  next
    case False
    then have "bounded_write c ch data step r t ?d w = (x, w')"
      using assms(2) by (simp add: guarded_write_unfold)
    with bounded_write_run [OF run, of step ?d] log show ?thesis
      by (cases y) (auto simp: logged_def split: if_splits option.splits)
  qed
qed

text \<open>One pass of the loop: it ends before the write, or writes the framed slice.\<close>

lemma write_chunk_logs:
  assumes "intact log w" and "on_chunk_keeps log k"
    and "write_chunk c ch data sz k dropped o' sent w = (x, w')"
  shows "intact log w' \<and>
    (\<exists>ds. list_all2 (\<lambda>o' d. framed k o' (take sz (drop o' data)) = Inr d) (take (length ds) [o']) ds
      \<and> length ds \<le> 1 \<and> (x = Return () \<longrightarrow> length ds = 1) \<and> log (mem w') = log (mem w) @ map (\<lambda>d. (ch, d, k_response k)) ds)"
proof (cases "(\<exists>i. dropped = Some i \<and> is_set w i) \<or> isl (framed k o' (take sz (drop o' data)))")
  case True
  with assms have "x \<noteq> Return ()" "w' = w"
    by (auto simp: write_chunk_def bind_def raise_if_dropped_cases throw_def split: sum.splits if_splits)
  with assms(1) show ?thesis by (intro conjI exI [of _ "[]"]) simp_all
next
  case False
  then obtain d where d: "framed k o' (take sz (drop o' data)) = Inr d"
    by (cases "framed k o' (take sz (drop o' data))") auto
  obtain y v where g: "guarded_write c ch d (k_step k) (k_response k) (k_write_timeout k) dropped ''during'' w = (y, v)"
    by (cases "guarded_write c ch d (k_step k) (k_response k) (k_write_timeout k) dropped ''during'' w")
  note v = guarded_write_logs [OF assms(1) g]
  let ?rest = "bind (case k_on_chunk k of None \<Rightarrow> ret () | Some f \<Rightarrow> f (sent + 1)) (\<lambda>_.
       if k_gap_s k > 0 then sleep (k_gap_s k) else ret ())"
  have run: "write_chunk c ch data sz k dropped o' sent w = bind (\<lambda>_. (y, v)) (\<lambda>_. ?rest) w"
    using False g d by (auto simp: write_chunk_def bind_def raise_if_dropped_cases ret_def)
  have rest: "keeps (part_frame log) ?rest"
    by (intro part.keeps_bind) (use assms(2) in \<open>auto simp: part.keeps_ret part.keeps_sleep on_chunk_keeps_def split: option.split\<close>)
  have w': "intact log w' \<and> log (mem w') = log (mem v) \<and> (x = Return () \<longrightarrow> y = Return ())"
  proof (cases y)
    case (Return u)
    with run assms(3) have "?rest v = (x, w')" by (simp add: bind_def)
    from part_frameD [OF rest this] v Return show ?thesis by simp
  qed (use run assms(3) v in \<open>auto simp: bind_def\<close>)
  show ?thesis
  proof (cases "log (mem v) = log (mem w) @ [(ch, d, k_response k)]")
    case True
    with w' d show ?thesis by (intro conjI exI [of _ "[d]"]) simp_all
  next
    case False
    with v w' show ?thesis by (intro conjI exI [of _ "[]"]) (auto simp: logged_def)
  qed
qed

lemma chunk_loop_logs:
  assumes "intact log w" and "on_chunk_keeps log k"
    and "chunk_loop c ch data sz k dropped os sent w = (x, w')"
  shows "\<exists>ds. list_all2 (\<lambda>o' d. framed k o' (take sz (drop o' data)) = Inr d) (take (length ds) os) ds
    \<and> log (mem w') = log (mem w) @ map (\<lambda>d. (ch, d, k_response k)) ds
    \<and> (\<forall>m. x = Return m \<longrightarrow> length ds = length os \<and> m = sent + length os)"
  using assms(1,3)
proof (induction os arbitrary: sent w)
  case Nil
  then show ?case by (auto simp: ret_def)
next
  case (Cons o' os)
  let ?P = "\<lambda>o' d. framed k o' (take sz (drop o' data)) = Inr d"
  obtain y v where one: "write_chunk c ch data sz k dropped o' sent w = (y, v)"
    by (cases "write_chunk c ch data sz k dropped o' sent w")
  from write_chunk_logs [where k = k, OF Cons.prems(1) assms(2) one] obtain ds where v: "intact log v"
    "list_all2 ?P (take (length ds) [o']) ds" "length ds \<le> 1" "y = Return () \<longrightarrow> length ds = 1"
    "log (mem v) = log (mem w) @ map (\<lambda>d. (ch, d, k_response k)) ds" by blast
  show ?case
  proof (cases y)
    case (Return u)
    with Cons.prems(2) one have "chunk_loop c ch data sz k dropped os (sent + 1) v = (x, w')" by (simp add: bind_def)
    from Cons.IH [OF v(1) this] obtain es where es: "list_all2 ?P (take (length es) os) es"
      "log (mem w') = log (mem v) @ map (\<lambda>d. (ch, d, k_response k)) es"
      "\<forall>m. x = Return m \<longrightarrow> length es = length os \<and> m = sent + 1 + length os" by blast
    from v(2,4) Return obtain d where "ds = [d]" "?P o' d" by (cases ds) auto
    with es v(5) show ?thesis by (intro exI [of _ "d # es"]) auto
  next
    case (Raise e)
    have "take (length ds) (o' # os) = take (length ds) [o']" using v(3) by (cases ds) auto
    with Raise Cons.prems(2) one v show ?thesis by (intro exI [of _ ds]) (auto simp: bind_def)
  next
    case Hang
    have "take (length ds) (o' # os) = take (length ds) [o']" using v(3) by (cases ds) auto
    with Hang Cons.prems(2) one v show ?thesis by (intro exI [of _ ds]) (auto simp: bind_def)
  qed
qed

end

text \<open>A device that answers every write with some notifications.\<close>

definition answering :: "(string \<Rightarrow> bytes \<Rightarrow> bytes list) \<Rightarrow> write_callback" where
  "answering answer ch data m = (None, fold (\<lambda>x. reply x None) (answer ch data) m)"

abbreviation fake_writes :: "fake_memory \<Rightarrow> (string \<times> bytes \<times> bool option) list" where
  "fake_writes m \<equiv> writes (env m)"

lemma writes_reply [simp]: "fake_writes (reply x ch m) = fake_writes m"
  by (auto simp: reply_def Let_def on_fake_def split: option.split)

lemma writes_replies [simp]: "fake_writes (fold (\<lambda>x. reply x None) xs m) = fake_writes m"
  by (induction xs arbitrary: m) simp_all

lemma fake_write_logs:
  assumes "intact fake_writes w" and "fake_write (Some (answering answer)) ch data r w = (x, w')"
  shows "intact fake_writes w' \<and> logged (x = Return ()) (fake_writes (mem w)) (ch, data, r) (fake_writes (mem w'))"
proof -
  obtain y v where p: "pause_if (write_delay_s (env (mem w))) w = (y, v)"
    by (cases "pause_if (write_delay_s (env (mem w))) w")
  have "keeps (part_frame fake_writes) (pause_if (write_delay_s (env (mem w))) :: (unit, fake) ble)"
    by (simp add: pause_if_def part.keeps_sleep part.keeps_ret)
  from part_frameD [OF this p assms(1)] have v: "intact fake_writes v" "fake_writes (mem v) = fake_writes (mem w)"
    by simp_all
  with assms(2) p show ?thesis
    by (cases y; cases "fail_write (env (mem v))")
      (auto simp: fake_write_def bind_def reading_def raise_if_def ret_def throw_def change_def update_def
        call_on_write_def answering_def on_fake_def logged_def)
qed

interpretation fake_log: write_log "fake_client i (Some (answering answer))" fake_writes for i answer
  by unfold_locales (use fake_write_logs in \<open>simp add: fake_client_def\<close>)

text \<open>The slices of the payload: each begins where those before it end.\<close>

lemma slice_offset:
  assumes "0 < s" and "n < length (offsets (length xs) s)"
  shows "offsets (length xs) s ! n = length (concat (map (\<lambda>o'. take s (drop o' xs)) (take n (offsets (length xs) s))))"
proof -
  let ?os = "offsets (length xs) s"
  have o': "?os ! n = n * s" using assms(2) by (simp add: offsets_def)
  have "?os ! n \<in> set ?os" using assms(2) by (rule nth_mem)
  with slice_sizes [OF assms(1), of "?os ! n" xs] o' have "n * s < length xs" by (cases "n * s < length xs") auto
  moreover have "map (\<lambda>o'. take s (drop o' xs)) (take n ?os) = map (\<lambda>i. take s (drop (i * s) xs)) [0..<n]"
    using assms(2) by (simp add: offsets_def take_map)
  ultimately show ?thesis using o' concat_slices [of s xs n] by simp
qed

text \<open>
  C19: A chunked transfer sends the payload in order and nothing else, to any client that logs its writes:
  whatever ends it, the writes the device has seen are consecutive chunks of the payload from its
  beginning, non-empty and of at most \<open>size\<close> bytes, each framed by \<open>wrap\<close> (or as it is) for the offset
  it has in the payload; and when it returns, the whole payload went out in as many writes as it says.
\<close>

theorem transfer_prefix:
  assumes "write_log c seen" and "1 \<le> sz" and "intact seen w" and "on_chunk_keeps seen k"
    and "write_chunks c ch data sz k w = (x, w')"
  shows "\<exists>chunks frames. seen (mem w') = seen (mem w) @ map (\<lambda>d. (ch, d, k_response k)) frames
    \<and> length frames = length chunks \<and> prefix (concat chunks) data
    \<and> (\<forall>i < length chunks. chunks ! i \<noteq> [] \<and> length (chunks ! i) \<le> nat sz
        \<and> framed k (length (concat (take i chunks))) (chunks ! i) = Inr (frames ! i))
    \<and> (\<forall>n. x = Return n \<longrightarrow> n = length frames \<and> concat chunks = data)"
proof -
  let ?os = "offsets (length data) (nat sz)" and ?slice = "\<lambda>o'. take (nat sz) (drop o' data)"
  have pos: "0 < nat sz" using assms(2) by simp
  from assms(2,5) obtain dropped where run: "chunk_loop c ch data (nat sz) k dropped ?os 0 w = (x, w')"
    by (auto simp: write_chunks_def)
  from write_log.chunk_loop_logs [OF assms(1,3,4) run] obtain ds where
    ds: "list_all2 (\<lambda>o' d. framed k o' (?slice o') = Inr d) (take (length ds) ?os) ds"
    "seen (mem w') = seen (mem w) @ map (\<lambda>d. (ch, d, k_response k)) ds"
    "\<forall>m. x = Return m \<longrightarrow> length ds = length ?os \<and> m = length ?os" by auto
  let ?n = "length ds" and ?chunks = "map ?slice (take (length ds) ?os)"
  from ds(1) have n: "?n \<le> length ?os" by (auto dest!: list_all2_lengthD simp: min_def split: if_splits)
  have all: "concat (map ?slice ?os) = data" by (rule slices_complete [OF pos])
  have "concat (map ?slice ?os) = concat ?chunks @ concat (map ?slice (drop ?n ?os))"
    by (simp add: map_append [symmetric] concat_append [symmetric] del: map_append concat_append)
  then have "prefix (concat ?chunks) data" using all by (metis prefixI)
  moreover have "?chunks ! i \<noteq> [] \<and> length (?chunks ! i) \<le> nat sz
      \<and> framed k (length (concat (take i ?chunks))) (?chunks ! i) = Inr (ds ! i)" if i: "i < length ?chunks" for i
  proof -
    from i n have i': "i < ?n" "i < length ?os" by simp_all
    have "length (concat (take i ?chunks)) = ?os ! i"
      using slice_offset [OF pos i'(2)] i' by (simp add: take_map min_def)
    moreover have "framed k (?os ! i) (?slice (?os ! i)) = Inr (ds ! i)"
      using list_all2_nthD2 [OF ds(1) i'(1)] i' by simp
    ultimately show ?thesis using slice_sizes [OF pos, of "?os ! i" data] i' by simp
  qed
  moreover have "n' = length ds \<and> concat ?chunks = data" if "x = Return n'" for n' using ds(3) that all by simp
  moreover have "length ds = length ?chunks" using n by simp
  ultimately show ?thesis using ds(2) by blast
qed

text \<open>Three bytes two at a time, each framed by a header byte and acknowledged by a notification.\<close>

definition headed :: "fake chunking" where
  "headed = (default_chunking ''send'')\<lparr>k_wrap := Some (\<lambda>_ d. Inr (9 # d))\<rparr>"

theorem transfer_prefix_witness:
  "\<exists>w' chunks. write_chunks (fake_client 1 (Some (answering (\<lambda>_ d. [[6]])))) ''2a19'' [1, 2, 3] 2 headed
       (fake_world (FakeClient True)) = (Return 2, w')
     \<and> fake_writes (mem w') = [(''2a19'', [9, 1, 2], Some False), (''2a19'', [9, 3], Some False)]
     \<and> length chunks = 2 \<and> concat chunks = ([1, 2, 3] :: bytes)"
proof -
  let ?c = "fake_client 1 (Some (answering (\<lambda>_ d. [[6]])))" and ?w = "fake_world (FakeClient True)"
  have "(case fst (write_chunks ?c ''2a19'' [1, 2, 3] 2 headed ?w) of Return n \<Rightarrow> n = 2 | _ \<Rightarrow> False)
      \<and> fake_writes (mem (snd (write_chunks ?c ''2a19'' [1, 2, 3] 2 headed ?w)))
        = [(''2a19'', [9, 1, 2], Some False), (''2a19'', [9, 3], Some False)]"
    by code_simp
  then obtain w' where run: "write_chunks ?c ''2a19'' [1, 2, 3] 2 headed ?w = (Return 2, w')"
    and log: "fake_writes (mem w') = [(''2a19'', [9, 1, 2], Some False), (''2a19'', [9, 3], Some False)]"
    by (cases "write_chunks ?c ''2a19'' [1, 2, 3] 2 headed ?w") (auto split: outcome.splits)
  have hyps: "1 \<le> (2 :: int)" "intact fake_writes ?w" "on_chunk_keeps fake_writes headed"
    by (simp_all add: intact_def fake_world_def idle_def on_chunk_keeps_def headed_def default_chunking_def)
  from transfer_prefix [OF fake_log.write_log_axioms hyps run] obtain chunks frames :: "bytes list" where
    len: "length frames = length chunks" and "\<forall>n. (Return 2 :: nat outcome) = Return n \<longrightarrow> n = length frames \<and> concat chunks = [1, 2, 3]"
    by (elim exE conjE) (rule that)
  then have "length chunks = 2" "concat chunks = [1, 2, 3]" by simp_all
  with run log show ?thesis by (intro exI [of _ w'] exI [of _ chunks]) simp
qed

end
