(* ===== verification/Subscribe.thy ===== *)
theory Subscribe
  imports Transfers
begin

text \<open>
  Subscribing to a characteristic (\<open>src/src/blesession/subscribe.py\<close>): the retry that clears a stale
  subscription, and the unsubscribe that hides nothing.
\<close>

definition NOTIFY_ATTEMPTS :: int where "NOTIFY_ATTEMPTS = 3"
definition STOP_NOTIFY_TIMEOUT_S :: seconds where "STOP_NOTIFY_TIMEOUT_S = 5"

definition STALE_SUBSCRIPTION :: "string list" where
  "STALE_SUBSCRIPTION = [''notify acquired'', ''already enabled'', ''register notify session'']"

definition NO_DISCOVERY :: "string list" where
  "NO_DISCOVERY = [''not been performed'']"

definition any_in :: "string list \<Rightarrow> string \<Rightarrow> bool" where
  "any_in texts message \<longleftrightarrow> list_ex (\<lambda>t. contains t message) texts"

abbreviation ordinary_exception :: "exc \<Rightarrow> bool" where
  "ordinary_exception e \<equiv> isinstance e ExceptionC"

definition refresh_services :: "'e client \<Rightarrow> (unit, 'e) ble" where
  "refresh_services c =
     (case c_get_services c of
        None \<Rightarrow> ret ()
      | Some f \<Rightarrow> catch (bounded (Some STOP_NOTIFY_TIMEOUT_S) f) ordinary_exception (\<lambda>_. ret ()))"

text \<open>What follows a subscription that failed with the error text \<open>message\<close> before the next try.\<close>

definition recover :: "'e client \<Rightarrow> string \<Rightarrow> bool \<Rightarrow> int \<Rightarrow> (unit, 'e) ble" where
  "recover c characteristic stale attempt =
     bind (if stale
           then catch (bounded (Some STOP_NOTIFY_TIMEOUT_S) (c_stop_notify c characteristic)) ordinary_exception (\<lambda>_. ret ())
           else ret ()) (\<lambda>_.
     bind (refresh_services c) (\<lambda>_.
       sleep (1 / 4 * of_int attempt)))"

fun subscribe_loop :: "'e client \<Rightarrow> string \<Rightarrow> nat \<Rightarrow> int \<Rightarrow> int list \<Rightarrow> (unit, 'e) ble" where
  "subscribe_loop c characteristic callback attempts [] = ret ()"
| "subscribe_loop c characteristic callback attempts (attempt # rest) =
     (\<lambda>w. case c_start_notify c characteristic callback w of
        (Return _, w') \<Rightarrow> (Return (), w')
      | (Hang, w') \<Rightarrow> (Hang, w')
      | (Raise e, w') \<Rightarrow>
          (if \<not> isinstance e BleakErrorC then (Raise e, w')
           else case exc_str e of
             Inl x \<Rightarrow> (Raise x, w')
           | Inr s \<Rightarrow>
               (let message = lower s; stale = any_in STALE_SUBSCRIPTION message
                in if \<not> (stale \<or> any_in NO_DISCOVERY message) then (Raise e, w')
                   else if attempt = attempts then (Raise e, w')
                   else bind (recover c characteristic stale attempt)
                          (\<lambda>_. subscribe_loop c characteristic callback attempts rest) w')))"

definition start_notify_with_recovery :: "'e client \<Rightarrow> string \<Rightarrow> nat \<Rightarrow> int \<Rightarrow> (unit, 'e) ble" where
  "start_notify_with_recovery c characteristic callback attempts =
     (if attempts < 1
      then throw (plain_exc ValueErrorC (''attempts must be at least 1, not '' @ int_text attempts))
      else subscribe_loop c characteristic callback attempts [1..attempts])"

definition stop_notify_best_effort :: "'e client \<Rightarrow> string \<Rightarrow> seconds option \<Rightarrow> (unit, 'e) ble" where
  "stop_notify_best_effort c characteristic timeout w =
     (if c_connected c w then
        catch (bounded (Some (case timeout of None \<Rightarrow> STOP_NOTIFY_TIMEOUT_S | Some t \<Rightarrow> t)) (c_stop_notify c characteristic))
          ordinary_exception (\<lambda>_. ret ()) w
      else (Return (), w))"

section \<open>Cleanup that hides nothing\<close>

text \<open>A coroutine that never raises an ordinary exception.\<close>

definition muffled :: "('a, 'm) co \<Rightarrow> bool" where
  "muffled f \<longleftrightarrow> (\<forall>w e w'. f w = (Raise e, w') \<longrightarrow> \<not> isinstance e ExceptionC)"

lemma muffled_catch_all: "muffled (catch f ordinary_exception (\<lambda>_. ret x))"
  by (auto simp: muffled_def catch_def ret_def split: prod.splits outcome.splits if_splits)

lemma polite_catch_all: "polite 0 f \<Longrightarrow> polite 0 (catch f ordinary_exception (\<lambda>_. ret x))"
  using polite_catch [of 0 f 0 "\<lambda>_. ret x" ordinary_exception] isinstance_exception_not_cancelled
  by (simp add: polite_ret)

lemma ends_within_catch_all: "ends_within b f \<Longrightarrow> ends_within b (catch f ordinary_exception (\<lambda>_. ret x))"
  using ends_within_catch [of b f 0 "\<lambda>_. ret x"] by (simp add: ends_within_ret)

context ble_client
begin

lemma stop_notify_quiet:
  "ends_within (max 0 (case t of None \<Rightarrow> STOP_NOTIFY_TIMEOUT_S | Some s \<Rightarrow> s)) (stop_notify_best_effort c ch t)"
  "muffled (stop_notify_best_effort c ch t)" "polite 0 (stop_notify_best_effort c ch t)"
proof -
  let ?s = "case t of None \<Rightarrow> STOP_NOTIFY_TIMEOUT_S | Some s \<Rightarrow> s"
  let ?g = "catch (bounded (Some ?s) (c_stop_notify c ch)) ordinary_exception (\<lambda>_. ret ())"
  have same: "stop_notify_best_effort c ch t w = (if c_connected c w then ?g w else ret () w)" for w
    by (simp add: stop_notify_best_effort_def ret_def)
  have "ends_within (max 0 ?s) ?g"
    using ends_within_bounded [OF stop_polite, of ?s ch] by (intro ends_within_catch_all) simp
  then show "ends_within (max 0 ?s) (stop_notify_best_effort c ch t)"
    using same by (simp add: ends_within_def ret_def)
  have "muffled ?g" by (rule muffled_catch_all)
  then show "muffled (stop_notify_best_effort c ch t)" using same by (simp add: muffled_def ret_def)
  have "polite 0 ?g" by (intro polite_catch_all polite_bounded stop_polite)
  then show "polite 0 (stop_notify_best_effort c ch t)"
  proof (intro polite_pointwise)
    fix w
    assume g: "polite 0 ?g"
    show "\<exists>g. polite 0 g \<and> stop_notify_best_effort c ch t w = g w"
      by (rule exI [of _ "if c_connected c w then ?g else ret ()"]) (simp add: g same polite_ret)
  qed
qed

lemma refresh_polite: "polite 0 (refresh_services c)"
  by (cases "c_get_services c")
     (simp_all add: refresh_services_def polite_ret polite_catch_all polite_bounded services_polite)

lemma recover_polite: "polite 0 (recover c ch stale n)"
  by (auto simp: recover_def polite_ret intro!: polite_seq polite_catch_all polite_bounded stop_polite refresh_polite polite_sleep)

lemma subscribe_loop_polite: "polite 0 (subscribe_loop c ch h n ns)"
proof (induction ns)
  case Nil
  then show ?case by (simp add: polite_ret)
next
  case (Cons a ns)
  let ?after = "\<lambda>stale. bind (recover c ch stale a) (\<lambda>_. subscribe_loop c ch h n ns)"
  have after: "polite 0 (?after stale)" for stale by (intro polite_seq recover_polite Cons.IH)
  let ?handle = "\<lambda>e. if \<not> isinstance e BleakErrorC then throw e
           else case exc_str e of
             Inl x \<Rightarrow> throw x
           | Inr s \<Rightarrow>
               (if \<not> (any_in STALE_SUBSCRIPTION (lower s) \<or> any_in NO_DISCOVERY (lower s)) then throw e
                   else if a = n then throw e else ?after (any_in STALE_SUBSCRIPTION (lower s)))"
  have same: "subscribe_loop c ch h n (a # ns) = catch (c_start_notify c ch h) (\<lambda>e. isinstance e BleakErrorC) ?handle"
    by (auto simp: catch_def throw_def Let_def fun_eq_iff split: prod.split outcome.split sum.split)
  have "polite 0 (?handle e)" for e by (auto simp: polite_throw after split: sum.split)
  moreover have "\<not> isinstance e CancelledErrorC" if "isinstance e BleakErrorC" for e
    using isinstance_exception_not_cancelled isinstance_trans [OF that, of ExceptionC] by (simp add: issubclass_eval)
  ultimately show ?case
    unfolding same using polite_catch [OF start_polite, of 0 ?handle "\<lambda>e. isinstance e BleakErrorC"] by simp
qed

lemma recovery_polite: "polite 0 (start_notify_with_recovery c ch h n)"
  by (simp add: start_notify_with_recovery_def polite_throw subscribe_loop_polite)

end

text \<open>
  C26: Unsubscribing hides nothing and holds nothing up: it never raises an ordinary exception, it ends
  within its own bound even where no other bound is left, and a link that is already down is not touched.
\<close>

theorem unsubscribe_best_effort:
  assumes "ble_client c" and "stop_notify_best_effort c ch t w = (x, w')"
  shows "x \<noteq> Hang \<and> now w' \<le> now w + max 0 (case t of None \<Rightarrow> STOP_NOTIFY_TIMEOUT_S | Some s \<Rightarrow> s)
    \<and> (\<forall>e. x = Raise e \<longrightarrow> \<not> isinstance e ExceptionC) \<and> (\<not> c_connected c w \<longrightarrow> w' = w)"
proof -
  note q = ble_client.stop_notify_quiet [OF assms(1), where t = t and ch = ch]
  have "now w' \<le> now w + max 0 (case t of None \<Rightarrow> STOP_NOTIFY_TIMEOUT_S | Some s \<Rightarrow> s)" "x \<noteq> Hang"
    using ends_withinD [OF q(1) assms(2)] by simp_all
  with q(2) assms(2) show ?thesis by (auto simp: muffled_def stop_notify_best_effort_def)
qed

theorem unsubscribe_best_effort_witness:
  "\<exists>x w'. stop_notify_best_effort (fake_client 1 None) ''2a19'' None
       (fake_world ((FakeClient True)\<lparr>fail_stop_notify := Some (plain_exc BleakErrorC ''gone'')\<rparr>)) = (x, w')
     \<and> x \<noteq> Hang \<and> now w' \<le> 5"
proof -
  let ?w = "fake_world ((FakeClient True)\<lparr>fail_stop_notify := Some (plain_exc BleakErrorC ''gone'')\<rparr>)"
  obtain x w' where run: "stop_notify_best_effort (fake_client 1 None) ''2a19'' None ?w = (x, w')"
    by (cases "stop_notify_best_effort (fake_client 1 None) ''2a19'' None ?w")
  from unsubscribe_best_effort [OF fake.ble_client_axioms run] run show ?thesis
    by (simp add: STOP_NOTIFY_TIMEOUT_S_def fake_world_def idle_def)
qed

section \<open>Giving up on a stale subscription\<close>

text \<open>A failure a new subscription may cure.\<close>

definition recoverable :: "exc \<Rightarrow> bool" where
  "recoverable e \<longleftrightarrow>
     isinstance e BleakErrorC \<and>
     (case exc_str e of
        Inl _ \<Rightarrow> False
      | Inr s \<Rightarrow> any_in STALE_SUBSCRIPTION (lower s) \<or> any_in NO_DISCOVERY (lower s))"

text \<open>Nothing else goes on.\<close>

definition alone :: "'m world \<Rightarrow> bool" where
  "alone w \<longleftrightarrow> scopes w = [] \<and> agenda w = []"

lemma sleep_alone: "alone w \<Longrightarrow> sleep d w = (Return (), w\<lparr>now := now w + max 0 d\<rparr>)"
  by (simp add: alone_def sleep_def park.simps next_time_def wake_times_def advance_def deliver_due_def
      fire_due_def reached_def Let_def max_def)

text \<open>The fake refuses to subscribe, and unsubscribes or fails to with an ordinary exception.\<close>

definition refusing :: "exc \<Rightarrow> fake_memory world \<Rightarrow> bool" where
  "refusing e w \<longleftrightarrow>
     alone w \<and> fail_start_notify (env (mem w)) = Some e
     \<and> (case fail_stop_notify (env (mem w)) of None \<Rightarrow> True | Some x \<Rightarrow> ordinary_exception x)"

lemma recover_refusing:
  assumes "refusing e w" and "0 \<le> n"
  shows "\<exists>w'. recover (fake_client i f) ch stale n w = (Return (), w') \<and> refusing e w'
    \<and> now w' = now w + 1 / 4 * of_int n"
proof -
  let ?stop = "catch (bounded (Some STOP_NOTIFY_TIMEOUT_S) (fake_stop_notify ch)) ordinary_exception (\<lambda>_. ret ())"
  have "\<exists>v. ?stop w = (Return (), v) \<and> refusing e v \<and> now v = now w"
    using assms(1)
    by (cases "fail_stop_notify (env (mem w))")
      (auto simp: catch_def bounded_def with_timeout_def push_scope_def pop_scope_def scope_outcome_def
        fake_stop_notify_def reading_def bind_def raise_if_def ret_def throw_def change_def update_def on_fake_def
        refusing_def alone_def Let_def)
  then obtain v where v: "(if stale then ?stop else ret ()) w = (Return (), v)" "refusing e v" "now v = now w"
    using assms(1) by (cases stale) (auto simp: ret_def)
  have "sleep (1 / 4 * of_int n) v = (Return (), v\<lparr>now := now v + 1 / 4 * of_int n\<rparr>)"
    using sleep_alone [of v "1 / 4 * of_int n"] v(2) assms(2) by (simp add: refusing_def max_def)
  with v show ?thesis
    by (cases stale) (auto simp: recover_def bind_def refresh_services_def fake_client_def ret_def refusing_def alone_def)
qed

lemma subscribe_loop_refusing:
  assumes "recoverable e" and "refusing e w" and "1 \<le> n" and "n \<le> a"
  shows "\<exists>w'. subscribe_loop (fake_client i f) ch h a [n..a] w = (Raise e, w')
    \<and> now w' = now w + of_int (a * (a - 1) - n * (n - 1)) / 8"
  using assms(2-4)
proof (induction "nat (a - n)" arbitrary: n w)
  case (0 n)
  then have "[n..a] = [a]" "n = a" by (simp_all add: upto.simps)
  with 0(2) assms(1) show ?case
    by (auto simp: fake_client_def fake_start_notify_def reading_def refusing_def bind_def raise_if_def throw_def
        recoverable_def Let_def split: sum.split)
next
  case (Suc k n)
  then have ns: "[n..a] = n # [n + 1..a]" and na: "n \<noteq> a" by (simp_all add: upto.simps)
  from assms(1) obtain s where s: "exc_str e = Inr s" "isinstance e BleakErrorC"
    "any_in STALE_SUBSCRIPTION (lower s) \<or> any_in NO_DISCOVERY (lower s)"
    by (auto simp: recoverable_def split: sum.splits)
  have fail: "fake_start_notify ch h w = (Raise e, w)"
    using Suc.prems(1) by (simp add: fake_start_notify_def reading_def refusing_def bind_def raise_if_def throw_def)
  obtain v where v: "recover (fake_client i f) ch (any_in STALE_SUBSCRIPTION (lower s)) n w = (Return (), v)"
    "refusing e v" "now v = now w + 1 / 4 * of_int n"
    using recover_refusing [OF Suc.prems(1), of n] Suc.prems(2) by fastforce
  have "k = nat (a - (n + 1))" "n + 1 \<le> a" using Suc.hyps(2) by simp_all
  from Suc.hyps(1) [OF this(1) v(2) _ this(2)] Suc.prems(2) obtain w' where
    w': "subscribe_loop (fake_client i f) ch h a [n + 1..a] v = (Raise e, w')"
      "now w' = now v + of_int (a * (a - 1) - (n + 1) * (n + 1 - 1)) / 8" by auto
  have "c_start_notify (fake_client i f) ch h w = (Raise e, w)" using fail by (simp add: fake_client_def)
  with s v w' na have "subscribe_loop (fake_client i f) ch h a [n..a] w = (Raise e, w')"
    by (auto simp: ns bind_def Let_def)
  moreover have "now w' = now w + of_int (a * (a - 1) - n * (n - 1)) / 8"
    using w'(2) v(3) by (simp add: field_simps)
  ultimately show ?case by blast
qed

text \<open>
  C27: A subscription that keeps failing is given up as it failed: an error a fresh subscription cannot
  cure is raised at once; one it may cure is raised unchanged after the given number of tries, which
  wait a quarter of a second longer each time.
\<close>

theorem recovery_gives_up:
  assumes "refusing e w" and "1 \<le> attempts" and "\<not> isinstance e BleakErrorC \<or> \<not> isl (exc_str e)"
  shows "\<exists>w'. start_notify_with_recovery (fake_client i f) ch h attempts w = (Raise e, w')
    \<and> now w' = (if recoverable e then now w + of_int (attempts * (attempts - 1)) / 8 else now w)"
proof (cases "recoverable e")
  case True
  with subscribe_loop_refusing [OF True assms(1), of 1 attempts] assms(2) show ?thesis
    by (simp add: start_notify_with_recovery_def)
next
  case False
  from assms(2) have ns: "[1..attempts] = 1 # [2..attempts]" by (simp add: upto.simps)
  from False assms show ?thesis
    by (cases "exc_str e")
      (auto simp: start_notify_with_recovery_def ns fake_client_def fake_start_notify_def reading_def refusing_def
        bind_def raise_if_def throw_def recoverable_def Let_def)
qed

theorem recovery_gives_up_witness:
  "\<exists>w'. start_notify_with_recovery (fake_client 1 None) ''2a19'' 7 3
       (fake_world ((FakeClient True)\<lparr>fail_start_notify := Some (plain_exc BleakErrorC ''Notify acquired'')\<rparr>))
     = (Raise (plain_exc BleakErrorC ''Notify acquired''), w') \<and> now w' = 3 / 4"
proof -
  let ?e = "plain_exc BleakErrorC ''Notify acquired''"
  let ?w = "fake_world ((FakeClient True)\<lparr>fail_start_notify := Some ?e\<rparr>)"
  have "any_in STALE_SUBSCRIPTION (lower ''Notify acquired'')" by code_simp
  then have "recoverable ?e" by (simp add: recoverable_def issubclass_eval)
  moreover have "refusing ?e ?w" by (simp add: refusing_def alone_def fake_world_def idle_def FakeClient_def)
  ultimately show ?thesis
    using recovery_gives_up [of ?e ?w 3 1 None "''2a19''" 7] by (simp add: fake_world_def idle_def)
qed

end
