(* ===== verification/Sessions.thy ===== *)
theory Sessions
  imports Subscribe
begin

text \<open>
  One session (\<open>ble_session\<close> of \<open>src/src/blesession/session.py\<close>): connect, run the block, disconnect.
  \<open>establish_connection\<close> and \<open>close_stale_connections_by_address\<close> are third-party and fields of the
  arguments; the block is a coroutine over the client it is handed.  The trace is the world's live one.
\<close>

definition DISCONNECT_TIMEOUT_S :: seconds where "DISCONNECT_TIMEOUT_S = 10"
definition SETTLE_POLL_STEP_S :: seconds where "SETTLE_POLL_STEP_S = 1 / 4"

record 'e session_args =
  s_device :: ble_device
  s_name :: "string option"
  s_client :: "'e client option"
  s_settle_s :: seconds
  s_disconnect_timeout_s :: seconds
  s_keep :: bool
  s_close_stale :: bool
  s_callback :: "nat list"
  s_establish :: "string \<Rightarrow> nat list \<Rightarrow> ('e client, 'e) ble"
  s_close_stale_connections :: "string \<Rightarrow> (unit, 'e) ble"

definition note_live :: "string \<Rightarrow> pyval \<Rightarrow> (unit, 'm) co" where
  "note_live k v = update (\<lambda>w. w\<lparr>live := note_facts [(k, v)] (live w)\<rparr>)"

definition set_link :: "'e client \<Rightarrow> ble_device \<Rightarrow> (unit, 'e) ble" where
  "set_link c dev = update (\<lambda>w. w\<lparr>live := (live w)\<lparr>trace_link := Some (probe_link (c_internals c w) dev)\<rparr>\<rparr>)"

section \<open>Closing\<close>

text \<open>\<open>_close\<close>: an error is worth a fact, never an exception.\<close>

definition close_link :: "'e client \<Rightarrow> seconds \<Rightarrow> string \<Rightarrow> (unit, 'e) ble" where
  "close_link c timeout_s what =
     catch (bounded (Some timeout_s) (c_disconnect c)) ordinary_exception
       (\<lambda>e. case error_text e of
          Inl x \<Rightarrow> throw x
        | Inr s \<Rightarrow> note_live (what @ ''_error'') (PyStr s))"

definition note_mtu :: "'e client \<Rightarrow> (unit, 'e) ble" where
  "note_mtu c w =
     (case reported_mtu (c_mtu_size c w) of
        Inl e \<Rightarrow> (Raise e, w)
      | Inr None \<Rightarrow> (Return (), w)
      | Inr (Some m) \<Rightarrow> note_live ''mtu'' (PyInt m) w)"

text \<open>The \<open>finally\<close> of the session, for a client that was obtained.\<close>

definition close_up :: "'e session_args \<Rightarrow> 'e client \<Rightarrow> bool \<Rightarrow> (unit, 'e) ble" where
  "close_up a c handed_off =
     bind (if handed_off then note_mtu c else ret ()) (\<lambda>_.
       if \<not> s_keep a \<or> \<not> handed_off
       then timed DISCONNECT (close_link c (s_disconnect_timeout_s a) ''disconnect'')
       else ret ())"

section \<open>Settling\<close>

definition wait_event :: "nat \<Rightarrow> (unit, 'e) ble" where
  "wait_event d w = (if is_set w d then (Return (), w) else park None (\<lambda>w. is_set w d) w)"

definition settle_dropped :: "seconds \<Rightarrow> exc" where
  "settle_dropped elapsed =
     ConnectFailed (''Link dropped '' @ fmt_2f elapsed @ ''s into the post-connect settle'') (Some ''settle'')"

lemma wait_event_run:
  "wait_event d w = (Return u, w') \<Longrightarrow> is_set w' d"
  "wait_event d w = (Raise e, w') \<Longrightarrow> e = cancelled_error"
  using park_ready park_raises_cancelled by (auto simp: wait_event_def split: if_splits)

lemma polite_wait_event: "polite 0 (wait_event d)"
proof (rule polite_pointwise)
  show "\<exists>g. polite 0 g \<and> wait_event d w = g w" for w
    by (rule exI [of _ "if is_set w d then ret () else park None (\<lambda>w. is_set w d)"])
       (simp add: polite_ret polite_park wait_event_def ret_def)
qed

lemma punctual_wait_event: "keeps punctual (wait_event d)"
  using pun.R_park punctual_refl by (auto simp: keeps_def wait_event_def)

text \<open>The bounded wait times out only when its time is over.\<close>

lemma poll_times_out:
  assumes "bounded (Some s) (wait_event d) w = (Raise e, w')" and "isinstance e TimeoutErrorC"
  shows "now w + s \<le> now w'"
proof (rule bounded_times_out(1) [OF _ punctual_wait_event _ assms])
  show "keeps frame (wait_event d)" by (rule politeD(2) [OF polite_wait_event])
  show "no_timeout (wait_event d)"
    using wait_event_run(2) by (fastforce simp: no_timeout_def cancelled_error_def issubclass_eval)
qed

text \<open>The check after each poll: \<^const>\<open>Some\<close> the error when the link is down.\<close>

definition link_lost :: "'e client \<Rightarrow> nat \<Rightarrow> 'e shared world \<Rightarrow> bool" where
  "link_lost c d w \<longleftrightarrow> is_set w d \<or> \<not> c_connected c w"

definition poll :: "nat \<Rightarrow> seconds \<Rightarrow> (unit, 'e) ble" where
  "poll d left = bounded (Some (min SETTLE_POLL_STEP_S left)) (wait_event d)"

function settle_loop :: "'e client \<Rightarrow> seconds \<Rightarrow> nat \<Rightarrow> seconds \<Rightarrow> (unit, 'e) ble" where
  "settle_loop c settle_s d started w =
     (let left = settle_s - (now w - started)
      in if left \<le> 0 then (Return (), w)
         else
           (let (r, w') = poll d left w
            in if (case r of Return _ \<Rightarrow> True | Raise e \<Rightarrow> isinstance e TimeoutErrorC | Hang \<Rightarrow> False)
               then (if link_lost c d w' then (Raise (settle_dropped (now w' - started)), w')
                     else settle_loop c settle_s d started w')
               else (r, w')))"
  by pat_completeness auto

lemma poll_progress:
  assumes "poll d left w = (r, w')" and "\<not> is_set w' d"
    and "case r of Return _ \<Rightarrow> True | Raise e \<Rightarrow> isinstance e TimeoutErrorC | Hang \<Rightarrow> False"
  shows "now w + min SETTLE_POLL_STEP_S left \<le> now w'"
proof (cases r)
  case (Return u)
  obtain x w1 where f: "wait_event d (push_scope (Some (min SETTLE_POLL_STEP_S left)) w) = (x, w1)"
    by (cases "wait_event d (push_scope (Some (min SETTLE_POLL_STEP_S left)) w)")
  with assms(1) Return have "x = Return u" "w' = pop_scope w1"
    by (auto simp: poll_def bounded_def with_timeout_def Let_def)
  with wait_event_run(1) f assms(2) show ?thesis by fastforce
next
  case (Raise e)
  with assms(1,3) poll_times_out show ?thesis unfolding poll_def by fastforce
qed (use assms(3) in simp)

termination settle_loop
proof (relation "measure (\<lambda>(c, settle_s, d, started, w). nat \<lceil>4 * (settle_s - (now w - started))\<rceil>)", simp)
  fix c :: "'e client" and settle_s started left :: rat and d and w w' :: "'e shared world"
    and x :: "unit outcome \<times> 'e shared world" and r
  assume left: "left = settle_s - (now w - started)" "\<not> left \<le> 0"
    and run: "x = poll d left w" "(r, w') = x"
    and go: "case r of Return _ \<Rightarrow> True | Raise e \<Rightarrow> isinstance e TimeoutErrorC | Hang \<Rightarrow> False"
      "\<not> link_lost c d w'"
  have p: "now w + min (1 / 4) left \<le> now w'"
    using poll_progress [OF _ _ go(1), of d left w w'] run go(2)
    by (simp add: SETTLE_POLL_STEP_S_def link_lost_def)
  have "\<lceil>4 * (settle_s - (now w' - started))\<rceil> < \<lceil>4 * left\<rceil>"
  proof (cases "left \<le> 1 / 4")
    case True
    with p left(1) have "4 * (settle_s - (now w' - started)) \<le> 0" by simp
    moreover have "0 < \<lceil>4 * left\<rceil>" using left(2) by simp
    ultimately show ?thesis by (meson ceiling_le_zero le_less_trans)
  next
    case False
    with p left(1) have "4 * (settle_s - (now w' - started)) \<le> 4 * left - 1" by simp
    then have "\<lceil>4 * (settle_s - (now w' - started))\<rceil> \<le> \<lceil>4 * left - 1\<rceil>" by (rule ceiling_mono)
    then show ?thesis by simp
  qed
  moreover have "0 < \<lceil>4 * left\<rceil>" using left(2) by simp
  ultimately show "((c, settle_s, d, started, w'), c, settle_s, d, started, w)
      \<in> measure (\<lambda>(c, settle_s, d, started, w). nat \<lceil>4 * (settle_s - (now w - started))\<rceil>)"
    using left(1) by simp
qed

declare settle_loop.simps [simp del]

definition settle :: "'e client \<Rightarrow> seconds \<Rightarrow> nat \<Rightarrow> (unit, 'e) ble" where
  "settle c settle_s d w = settle_loop c settle_s d (now w) w"

section \<open>Connecting\<close>

definition tidy :: "string \<Rightarrow> string \<Rightarrow> string" where
  "tidy message address = replace_first (address @ '' - '' @ address @ '':'') (address @ '':'') message"

text \<open>\<open>ConnectFailed(_tidy(str(exc), address) or type(exc).__name__) from exc\<close>\<close>

definition connect_error :: "string \<Rightarrow> exc \<Rightarrow> exc" where
  "connect_error address e =
     (case exc_str e of
        Inl x \<Rightarrow> x
      | Inr s \<Rightarrow>
          with_cause (ConnectFailed (if tidy s address \<noteq> [] then tidy s address else class_name (exc_class e)) None) e)"

definition establish :: "'e session_args \<Rightarrow> nat \<Rightarrow> ('e client, 'e) ble" where
  "establish a d =
     (let address = dev_address (s_device a)
      in catch (s_establish a (case s_name a of Some n \<Rightarrow> if n \<noteq> [] then n else address | None \<Rightarrow> address) (d # s_callback a))
           (\<lambda>e. \<not> isinstance e ConnectFailedC \<and> isinstance e ExceptionC)
           (\<lambda>e. throw (connect_error address e)))"

text \<open>What follows once there is a client: from here on it must be closed.\<close>

definition opened :: "'e session_args \<Rightarrow> nat \<Rightarrow> 'e client \<Rightarrow> (unit, 'e) ble" where
  "opened a d c =
     bind (change (clear_event d)) (\<lambda>_.
     bind (watch_drops c d) (\<lambda>_.
     bind (set_link c (s_device a)) (\<lambda>_.
       if s_settle_s a \<noteq> 0 then settle c (s_settle_s a) d else ret ())))"

definition before_connect :: "'e session_args \<Rightarrow> 'e client option \<Rightarrow> (unit, 'e) ble" where
  "before_connect a turned_down =
     bind (case turned_down of
             None \<Rightarrow> ret ()
           | Some c \<Rightarrow> close_link c (s_disconnect_timeout_s a) ''stale_close'') (\<lambda>_.
       if s_close_stale a then s_close_stale_connections a (dev_address (s_device a)) else ret ())"

text \<open>The body of \<open>timed(CONNECT)\<close>, with the local variable \<open>client\<close> it leaves behind.\<close>

definition connecting ::
  "'e session_args \<Rightarrow> nat \<Rightarrow> 'e client option \<Rightarrow> 'e shared world \<Rightarrow> (unit outcome \<times> 'e client option) \<times> 'e shared world" where
  "connecting a d turned_down w =
     (case bind (before_connect a turned_down) (\<lambda>_. establish a d) w of
        (Return c, w') \<Rightarrow> (let (r, w'') = opened a d c w' in ((r, Some c), w''))
      | (Raise e, w') \<Rightarrow> ((Raise e, None), w')
      | (Hang, w') \<Rightarrow> ((Hang, None), w'))"

text \<open>A timed stage whose body leaves a local variable behind as well.\<close>

definition timed_var ::
  "string \<Rightarrow> ('m world \<Rightarrow> ('a outcome \<times> 'x) \<times> 'm world) \<Rightarrow> 'm world \<Rightarrow> ('a outcome \<times> 'x) \<times> 'm world" where
  "timed_var name f w =
     (case f (w\<lparr>live := timed_enter name (live w)\<rparr>) of
        ((Hang, x), w') \<Rightarrow> ((Hang, x), w')
      | ((r, x), w') \<Rightarrow> ((r, x), w'\<lparr>live := timed_exit name (is_raise r) (now w' - now w) (live w')\<rparr>))"

section \<open>The session\<close>

definition open_session ::
  "'e session_args \<Rightarrow> nat \<Rightarrow> 'e client option \<Rightarrow> ('e client \<Rightarrow> ('a, 'e) ble) \<Rightarrow> ('a, 'e) ble" where
  "open_session a d turned_down body w =
     (case timed_var CONNECT (connecting a d turned_down) w of
        ((Return _, Some c), w') \<Rightarrow> finally_do (timed SESSION (body c)) (close_up a c True) w'
      | ((Return _, None), w') \<Rightarrow> (Raise (plain_exc AssertionErrorC []), w')
      | ((Raise e, Some c), w') \<Rightarrow> finally_do (throw e) (close_up a c False) w'
      | ((Raise e, None), w') \<Rightarrow> (Raise e, w')
      | ((Hang, _), w') \<Rightarrow> (Hang, w'))"

definition reuse_session :: "'e session_args \<Rightarrow> 'e client \<Rightarrow> ('e client \<Rightarrow> ('a, 'e) ble) \<Rightarrow> ('a, 'e) ble" where
  "reuse_session a c body =
     finally_do
       (bind (note_live ''reused'' (PyBool True)) (\<lambda>_.
        bind (set_link c (s_device a)) (\<lambda>_.
          timed SESSION (body c))))
       (close_up a c True)"

definition ble_session :: "'e session_args \<Rightarrow> ('e client \<Rightarrow> ('a, 'e) ble) \<Rightarrow> ('a, 'e) ble" where
  "ble_session a body w =
     (let up = still_up (s_client a) w
      in bind allocate (\<lambda>d.
           case s_client a of
             None \<Rightarrow> open_session a d None body
           | Some c \<Rightarrow> if up then reuse_session a c body else open_session a d (Some c) body) w)"

end
