(* ===== verification/SessionLaws.thy ===== *)
theory SessionLaws
  imports Sessions
begin

text \<open>
  What a session promises: the settle, the close that masks nothing (locale \<open>closing\<close>), the block's
  outcome, the count of closes (locale \<open>counted\<close>) and the failure to connect.  The fake client of
  \<open>src/src/blesession/testing.py\<close> is the provider of both contracts.
\<close>

section \<open>Settling\<close>

lemma orderly_wait_event: "orderly (wait_event d)"
proof -
  have "orderly (park None (\<lambda>w. is_set w d))" by (rule orderly_park)
  then show ?thesis by (auto simp: orderly_def wait_event_def)
qed

lemma poll_ends:
  assumes "poll d left w = (r, w')" and "0 < left"
  shows "r \<noteq> Hang" and "now w' \<le> now w + left" and "now w \<le> now w'" and "cancels w \<le> cancels w'"
    and "r = Raise e \<Longrightarrow> \<not> isinstance e TimeoutErrorC \<Longrightarrow> isinstance e CancelledErrorC \<and> cancels w < cancels w'"
proof -
  let ?t = "min SETTLE_POLL_STEP_S left"
  from assms(1) have b: "bounded (Some ?t) (wait_event d) w = (r, w')" by (simp add: poll_def)
  from ends_withinD [OF ends_within_bounded [OF polite_wait_event] b] assms(2)
  show "r \<noteq> Hang" "now w' \<le> now w + left" by auto
  have "frame w w'" by (rule keepsD [OF politeD(2) [OF polite_bounded [OF polite_wait_event]] b])
  then show "now w \<le> now w'" "cancels w \<le> cancels w'" by (simp_all add: frame_def frame_cancels)
  show "isinstance e CancelledErrorC \<and> cancels w < cancels w'" if "r = Raise e" "\<not> isinstance e TimeoutErrorC"
  proof -
    have "e = cancelled_error"
    proof -
      obtain x w1 where f: "wait_event d (push_scope (Some ?t) w) = (x, w1)"
        by (cases "wait_event d (push_scope (Some ?t) w)")
      then have "Raise e = scope_outcome (hd (scopes w1)) (cancels (pop_scope w1)) x"
        using b that(1) by (auto simp: bounded_def with_timeout_def Let_def)
      with f that(2) wait_event_run(2) show ?thesis
        by (cases x) (auto simp: scope_outcome_def timeout_error_def issubclass_eval split: if_splits)
    qed
    with orderlyD [OF orderly_bounded [OF orderly_wait_event politeD(2) [OF polite_wait_event]] b [unfolded that(1)]]
      show ?thesis by (auto simp: cancelled_error_def issubclass_eval)
  qed
qed

lemma settle_loop_ends:
  assumes "settle_loop c s d t0 w = (r, w')" and "t0 \<le> now w"
  shows "r \<noteq> Hang \<and> now w' \<le> max (now w) (t0 + s) \<and>
    (case r of
       Return _ \<Rightarrow> t0 + s \<le> now w' \<and> (w' = w \<or> \<not> link_lost c d w')
     | Raise e \<Rightarrow> e = settle_dropped (now w' - t0) \<and> link_lost c d w'
         \<or> isinstance e CancelledErrorC \<and> cancels w < cancels w'
     | Hang \<Rightarrow> False)"
  using assms
proof (induction c s d t0 w rule: settle_loop.induct)
  case (1 c s d t0 w)
  let ?left = "s - (now w - t0)"
  show ?case
  proof (cases "?left \<le> 0")
    case True
    with "1.prems" show ?thesis by (subst (asm) settle_loop.simps) auto
  next
    case False
    obtain x v where p: "poll d ?left w = (x, v)" by (cases "poll d ?left w")
    note e = poll_ends [OF p]
    let ?again = "case x of Return _ \<Rightarrow> True | Raise e \<Rightarrow> isinstance e TimeoutErrorC | Hang \<Rightarrow> False"
    have run: "settle_loop c s d t0 w =
      (if ?again then (if link_lost c d v then (Raise (settle_dropped (now v - t0)), v) else settle_loop c s d t0 v)
       else (x, v))"
      using False p by (subst settle_loop.simps) (simp add: Let_def)
    show ?thesis
    proof (cases "?again \<and> \<not> link_lost c d v")
      case True
      then have more: "settle_loop c s d t0 v = (r, w')" using run "1.prems" by simp
      have "t0 \<le> now v" using e(3) False "1.prems"(2) by simp
      from "1.IH" [OF refl False p [symmetric] refl] True more this have
        "r \<noteq> Hang \<and> now w' \<le> max (now v) (t0 + s) \<and>
          (case r of
             Return _ \<Rightarrow> t0 + s \<le> now w' \<and> (w' = v \<or> \<not> link_lost c d w')
           | Raise e \<Rightarrow> e = settle_dropped (now w' - t0) \<and> link_lost c d w'
               \<or> isinstance e CancelledErrorC \<and> cancels v < cancels w'
           | Hang \<Rightarrow> False)" by simp
      with e(2,4) False True show ?thesis by (auto split: outcome.splits)
    next
      case stop: False
      with run "1.prems" e(1,2,3,5) False show ?thesis
        by (cases x) (auto split: if_splits)
    qed
  qed
qed

subsection \<open>What the settle has seen\<close>

text \<open>The drop event is not set at the time \<open>\<tau>\<close>.\<close>

abbreviation up_at :: "nat \<Rightarrow> 'e shared world \<Rightarrow> seconds \<Rightarrow> bool" where
  "up_at d w \<tau> \<equiv> \<not> is_set (advance \<tau> w) d"

text \<open>Within a poll step of the time \<open>\<tau>\<close> the client itself was asked, and said it is connected.\<close>

definition asked :: "'e client \<Rightarrow> 'e shared world \<Rightarrow> seconds \<Rightarrow> bool" where
  "asked c w \<tau> \<longleftrightarrow> (\<exists>v. world_at w v \<and> \<tau> \<le> now v \<and> now v \<le> \<tau> + SETTLE_POLL_STEP_S \<and> c_connected c v)"

lemma poll_sees:
  assumes "poll d left w = (r, v)" and "0 < left"
  shows "is_set w d \<and> is_set v d \<and> now v = now w
    \<or> world_at w v \<and> (\<forall>\<tau>. now w \<le> \<tau> \<longrightarrow> \<tau> < now v \<longrightarrow> up_at d w \<tau>)"
    and "now v \<le> now w + SETTLE_POLL_STEP_S"
proof -
  let ?t = "min SETTLE_POLL_STEP_S left"
  from assms(1) have b: "bounded (Some ?t) (wait_event d) w = (r, v)" by (simp add: poll_def)
  from ends_withinD [OF ends_within_bounded [OF polite_wait_event] b] assms(2)
  show "now v \<le> now w + SETTLE_POLL_STEP_S" by (auto simp: SETTLE_POLL_STEP_S_def)
  obtain x u where f: "wait_event d (push_scope (Some ?t) w) = (x, u)" by (cases "wait_event d (push_scope (Some ?t) w)")
  with b have v: "v = pop_scope u" by (auto simp: bounded_def with_timeout_def Let_def)
  from b f have "x \<noteq> Hang" using poll_ends(1) [OF assms] by (auto simp: bounded_def with_timeout_def Let_def scope_outcome_def)
  show "is_set w d \<and> is_set v d \<and> now v = now w
    \<or> world_at w v \<and> (\<forall>\<tau>. now w \<le> \<tau> \<longrightarrow> \<tau> < now v \<longrightarrow> up_at d w \<tau>)"
  proof (cases "is_set w d")
    case False
    with f have p: "park None (\<lambda>w. is_set w d) (push_scope (Some ?t) w) = (x, u)" by (simp add: wait_event_def)
    have "mem (advance \<tau> (push_scope (Some ?t) w)) = mem (advance \<tau> w)" for \<tau> by (simp add: advance_mem)
    with park_sees [OF p \<open>x \<noteq> Hang\<close>, of "\<lambda>m. events m d"] False v show ?thesis by simp
  qed (use f v in \<open>auto simp: wait_event_def\<close>)
qed

text \<open>How far a settle that goes on from \<open>w\<close> to \<open>w'\<close> has watched the link.\<close>

definition watched_up :: "'e client \<Rightarrow> nat \<Rightarrow> 'e shared world \<Rightarrow> 'a outcome \<Rightarrow> 'e shared world \<Rightarrow> bool" where
  "watched_up c d w r w' \<longleftrightarrow>
     (case r of
        Return _ \<Rightarrow> world_at w w' \<and> (\<forall>\<tau>. now w \<le> \<tau> \<longrightarrow> \<tau> \<le> now w' \<longrightarrow> up_at d w \<tau> \<and> asked c w \<tau>)
      | Raise e \<Rightarrow> (\<forall>\<tau>. now w \<le> \<tau> \<longrightarrow> \<tau> < now w' \<longrightarrow> up_at d w \<tau>) \<and>
          (\<forall>\<tau>. now w \<le> \<tau> \<longrightarrow> \<tau> + SETTLE_POLL_STEP_S < now w' \<longrightarrow> asked c w \<tau>)
      | Hang \<Rightarrow> True)"

lemma asked_later: "world_at w v \<Longrightarrow> asked c v \<tau> \<Longrightarrow> asked c w \<tau>"
  using world_at_trans unfolding asked_def by blast

text \<open>A poll that saw nothing, and what was watched after it.\<close>

lemma watched_up_first:
  assumes v: "world_at w v" "\<And>\<tau>. now w \<le> \<tau> \<Longrightarrow> \<tau> < now v \<Longrightarrow> up_at d w \<tau>" "now v \<le> now w + SETTLE_POLL_STEP_S"
    and up: "\<not> link_lost c d v" and rest: "watched_up c d v r w'" "now v \<le> now w'"
  shows "watched_up c d w r w'"
proof -
  have early: "asked c w \<tau>" if "now w \<le> \<tau>" "\<tau> \<le> now v" for \<tau>
    unfolding asked_def using v(1,3) up that by (intro exI [of _ v]) (simp add: link_lost_def)
  have until: "up_at d w \<tau>" if "now w \<le> \<tau>" "\<tau> < now v \<or> up_at d v \<tau>" for \<tau>
    using that v(2) [of \<tau>] world_at_later(1) [OF v(1), of \<tau>] by (cases "\<tau> < now v") auto
  show ?thesis
  proof (cases r)
    case (Return u)
    with rest(1) have r: "world_at v w'" "\<And>\<tau>. now v \<le> \<tau> \<Longrightarrow> \<tau> \<le> now w' \<Longrightarrow> up_at d v \<tau> \<and> asked c v \<tau>"
      by (simp_all add: watched_up_def)
    have "up_at d w \<tau> \<and> asked c w \<tau>" if "now w \<le> \<tau>" "\<tau> \<le> now w'" for \<tau>
      using that r(2) [of \<tau>] until [of \<tau>] early [of \<tau>] asked_later [OF v(1), of c \<tau>] by (cases "\<tau> < now v") auto
    with Return world_at_trans [OF v(1) r(1)] show ?thesis by (simp add: watched_up_def)
  next
    case (Raise e)
    with rest(1) have r: "\<And>\<tau>. now v \<le> \<tau> \<Longrightarrow> \<tau> < now w' \<Longrightarrow> up_at d v \<tau>"
      "\<And>\<tau>. now v \<le> \<tau> \<Longrightarrow> \<tau> + SETTLE_POLL_STEP_S < now w' \<Longrightarrow> asked c v \<tau>"
      by (simp_all add: watched_up_def)
    have "up_at d w \<tau>" if "now w \<le> \<tau>" "\<tau> < now w'" for \<tau>
      using that r(1) [of \<tau>] until [of \<tau>] by (cases "\<tau> < now v") auto
    moreover have "asked c w \<tau>" if "now w \<le> \<tau>" "\<tau> + SETTLE_POLL_STEP_S < now w'" for \<tau>
      using that r(2) [of \<tau>] early [of \<tau>] asked_later [OF v(1), of c \<tau>] by (cases "\<tau> < now v") auto
    ultimately show ?thesis using Raise by (simp add: watched_up_def)
  qed (simp add: watched_up_def)
qed

text \<open>The end of the loop right after a poll.\<close>

lemma watched_up_last:
  assumes "is_set w d \<and> now v = now w \<or> world_at w v \<and> (\<forall>\<tau>. now w \<le> \<tau> \<longrightarrow> \<tau> < now v \<longrightarrow> up_at d w \<tau>)"
    and "now v \<le> now w + SETTLE_POLL_STEP_S"
  shows "watched_up c d w (Raise e) v"
  using assms by (auto simp: watched_up_def)

lemma settle_loop_watches:
  assumes "settle_loop c s d t0 w = (r, w')" and "0 < s - (now w - t0)"
  shows "watched_up c d w r w' \<and> now w \<le> now w'"
  using assms
proof (induction c s d t0 w rule: settle_loop.induct)
  case (1 c s d t0 w)
  let ?left = "s - (now w - t0)"
  obtain x v where p: "poll d ?left w = (x, v)" by (cases "poll d ?left w")
  note e = poll_ends [OF p "1.prems"(2)] and sees = poll_sees [OF p "1.prems"(2)]
  let ?again = "case x of Return _ \<Rightarrow> True | Raise e \<Rightarrow> isinstance e TimeoutErrorC | Hang \<Rightarrow> False"
  have run: "settle_loop c s d t0 w =
    (if ?again then (if link_lost c d v then (Raise (settle_dropped (now v - t0)), v) else settle_loop c s d t0 v)
     else (x, v))"
    using "1.prems"(2) p by (subst settle_loop.simps) (simp add: Let_def)
  have last: "watched_up c d w (Raise e) v" for e by (rule watched_up_last) (use sees in auto)
  show ?case
  proof (cases "?again \<and> \<not> link_lost c d v")
    case True
    then have more: "settle_loop c s d t0 v = (r, w')" using run "1.prems"(1) by simp
    from True sees(1) have v: "world_at w v" "\<And>\<tau>. now w \<le> \<tau> \<Longrightarrow> \<tau> < now v \<Longrightarrow> up_at d w \<tau>"
      by (auto simp: link_lost_def)
    have up: "\<not> link_lost c d v" using True by simp
    have rest: "watched_up c d v r w' \<and> now v \<le> now w'"
    proof (cases "0 < s - (now v - t0)")
      case True
      with "1.IH" [OF refl _ p [symmetric] refl _ up more] \<open>?again \<and> _\<close> "1.prems"(2) show ?thesis by simp
    next
      case False
      with more have "r = Return ()" "w' = v" by (subst (asm) settle_loop.simps; simp)+
      moreover have "mem (advance \<tau> v) = mem v" if "\<tau> = now v" for \<tau>
        using world_at_later(1) [OF v(1), of \<tau>] v(1) that by (simp add: world_at_def)
      moreover have "world_at v v"
        using v(1) world_at_later [OF v(1), of "now v"] by (simp add: world_at_def)
      moreover have "0 < SETTLE_POLL_STEP_S" by (simp add: SETTLE_POLL_STEP_S_def)
      ultimately show ?thesis using up by (auto simp: watched_up_def asked_def link_lost_def intro!: exI [of _ v])
    qed
    with watched_up_first [OF v sees(2) up] e(3) show ?thesis by auto
  next
    case False
    with run "1.prems"(1) have "w' = v" "is_raise r \<or> r = Hang"
      by (cases x; auto split: if_splits)+
    with last e(1,3) False run "1.prems"(1) show ?thesis
      by (cases r; cases x) (auto split: if_splits)
  qed
qed

text \<open>
  C22: The settle after a connect does what it is for.  When it returns, it has taken exactly its time, and the
  link has been up for the whole of it: at no moment of it was the drop event set, and there is no moment
  the client was not asked within a poll step and answered that it is connected.  Otherwise it raises
  \<open>ConnectFailed\<close> with the detail "settle" because the link is down, which it notices at once by the
  drop event and within a poll step by \<open>is_connected\<close>, or the task was cancelled; it never takes longer.
\<close>

theorem settled_or_dropped:
  assumes "settle c s d w = (r, w')"
  shows "r \<noteq> Hang \<and> now w' \<le> now w + max 0 s \<and> (0 < s \<longrightarrow> watched_up c d w r w') \<and>
    (case r of
       Return _ \<Rightarrow> now w + s \<le> now w' \<and> (0 < s \<longrightarrow> \<not> link_lost c d w')
     | Raise e \<Rightarrow> e = settle_dropped (now w' - now w) \<and> link_lost c d w'
         \<or> isinstance e CancelledErrorC \<and> cancels w < cancels w'
     | Hang \<Rightarrow> False)"
  using settle_loop_ends [OF assms [unfolded settle_def]] settle_loop_watches [OF assms [unfolded settle_def]]
  by (auto split: outcome.splits simp: max_def)

section \<open>Closing\<close>

text \<open>What the close needs of a client: its disconnect fails with a printable exception, or because
  the task is cancelled, and its MTU is read or fails with an exception.  \<open>ok\<close> says when.\<close>

locale closing = ble_client c for c :: "'e client" +
  fixes ok :: "'e shared world \<Rightarrow> bool"
  assumes disconnect_fails: "ok w \<Longrightarrow> c_disconnect c w = (Raise e, w') \<Longrightarrow>
      isinstance e ExceptionC \<and> \<not> isl (exc_str e) \<or> isinstance e CancelledErrorC \<and> cancels w < cancels w'"
    and mtu_safe: "ok w \<Longrightarrow> c_mtu_size c w = Inl e \<Longrightarrow> isinstance e ExceptionC"
    and ok_push: "ok w \<Longrightarrow> ok (push_scope t w)"
    and ok_live: "ok w \<Longrightarrow> ok (w\<lparr>live := tr\<rparr>)"

text \<open>A cleanup that ends in time and raises nothing but a cancellation asked for meanwhile.\<close>

definition discreet :: "seconds \<Rightarrow> unit outcome \<Rightarrow> 'm world \<Rightarrow> 'm world \<Rightarrow> bool" where
  "discreet b r w w' \<longleftrightarrow> now w' \<le> now w + b \<and>
     (r = Return () \<or> (\<exists>e. r = Raise e \<and> isinstance e CancelledErrorC \<and> cancels w < cancels w'))"

context closing
begin

lemma disconnect_bounded:
  assumes "ok w" and "bounded (Some t) (c_disconnect c) w = (Raise e, w')"
  shows "isinstance e ExceptionC \<and> \<not> isl (exc_str e) \<or> isinstance e CancelledErrorC \<and> cancels w < cancels w'"
proof -
  obtain x w1 where f: "c_disconnect c (push_scope (Some t) w) = (x, w1)"
    by (cases "c_disconnect c (push_scope (Some t) w)")
  obtain s ss where s: "scopes w1 = s # ss" "base s = cancels w"
    "with_timeout (Some t) (c_disconnect c) w = ((scope_outcome s (cancels (pop_scope w1)) x, fired s), pop_scope w1)"
    by (rule with_timeout_run [OF politeD(2) [OF disconnect_polite] f])
  from assms(2) s(3) have w': "w' = pop_scope w1" and o1: "scope_outcome s (cancels w') x = Raise e"
    by (auto simp: bounded_def)
  then obtain e' where x: "x = Raise e'" by (cases x) (auto simp: scope_outcome_def)
  from disconnect_fails [OF ok_push [OF assms(1)] f [unfolded x]]
  have e': "isinstance e' ExceptionC \<and> \<not> isl (exc_str e') \<or> isinstance e' CancelledErrorC \<and> cancels w < cancels w1"
    by simp
  show ?thesis
  proof (cases "fired s \<and> cancels w' \<le> base s \<and> isinstance e' CancelledErrorC")
    case True
    with o1 x have "e = with_cause timeout_error e'" by (simp add: scope_outcome_def)
    then show ?thesis by (simp add: timeout_error_def issubclass_eval)
  next
    case False
    with o1 x have "e = e'" by (simp add: scope_outcome_def split: if_splits)
    with e' False s(1,2) w' show ?thesis by (auto simp: pop_scope_def split: if_splits)
  qed
qed

lemma close_link_discreet:
  assumes "ok w" and "close_link c t what w = (r, w')"
  shows "discreet (max 0 t) r w w'"
proof -
  obtain x v where b: "bounded (Some t) (c_disconnect c) w = (x, v)"
    by (cases "bounded (Some t) (c_disconnect c) w")
  have "now v \<le> now w + max 0 t" "x \<noteq> Hang"
    using ends_withinD [OF ends_within_bounded [OF disconnect_polite] b] by simp_all
  show ?thesis
  proof (cases x)
    case (Raise e)
    from disconnect_bounded [OF assms(1) b [unfolded Raise]] show ?thesis
    proof
      assume e: "isinstance e ExceptionC \<and> \<not> isl (exc_str e)"
      then obtain s where "error_text e = Inr s" by (cases "exc_str e") (auto simp: error_text_def)
      with assms(2) b Raise e \<open>now v \<le> _\<close> show ?thesis
        by (auto simp: close_link_def catch_def discreet_def note_live_def update_def)
    next
      assume e: "isinstance e CancelledErrorC \<and> cancels w < cancels v"
      then have "\<not> isinstance e ExceptionC" using isinstance_exception_not_cancelled by blast
      with assms(2) b Raise e \<open>now v \<le> _\<close> show ?thesis
        by (auto simp: close_link_def catch_def discreet_def)
    qed
  qed (use assms(2) b \<open>now v \<le> _\<close> \<open>x \<noteq> Hang\<close> in \<open>auto simp: close_link_def catch_def discreet_def\<close>)
qed

lemma close_up_discreet:
  assumes "ok w" and "close_up a c h w = (r, w')"
  shows "discreet (max 0 (s_disconnect_timeout_s a)) r w w'"
proof -
  obtain t where m: "(if h then note_mtu c else ret ()) w = (Return (), w\<lparr>live := t\<rparr>)"
  proof (cases h)
    case True
    have "\<exists>t. note_mtu c w = (Return (), w\<lparr>live := t\<rparr>)"
    proof (cases "reported_mtu (c_mtu_size c w)")
      case (Inl e)
      with mtu_safe [OF assms(1)] show ?thesis
        by (auto simp: reported_mtu_def split: sum.splits if_splits prod.splits option.splits)
    next
      case (Inr m)
      have "\<exists>t. w = w\<lparr>live := t\<rparr>" by (rule exI [of _ "live w"]) simp
      with Inr show ?thesis by (cases m) (auto simp: note_mtu_def note_live_def update_def)
    qed
    with True that show ?thesis by auto
  next
    case False
    with that [of "live w"] show ?thesis by (simp add: ret_def)
  qed
  show ?thesis
  proof (cases "\<not> s_keep a \<or> \<not> h")
    case True
    let ?v = "w\<lparr>live := timed_enter DISCONNECT t\<rparr>"
    obtain x u where c: "close_link c (s_disconnect_timeout_s a) ''disconnect'' ?v = (x, u)"
      by (cases "close_link c (s_disconnect_timeout_s a) ''disconnect'' ?v")
    from close_link_discreet [OF ok_live [OF assms(1)] c] True assms(2) m c show ?thesis
      by (cases x) (auto simp: close_up_def bind_def timed_def discreet_def)
  qed (use assms(2) m in \<open>auto simp: close_up_def bind_def ret_def discreet_def\<close>)
qed

lemma finally_close:
  assumes "f w = (r0, v)" and "r0 \<noteq> Hang" and "ok v" and "finally_do f (close_up a c h) w = (r, w')"
  shows "r \<noteq> Hang \<and> now w' \<le> now v + max 0 (s_disconnect_timeout_s a) \<and>
    (r = r0 \<or> (\<exists>e. r = Raise e \<and> isinstance e CancelledErrorC \<and> cancels v < cancels w'))"
proof -
  obtain x u where c: "close_up a c h v = (x, u)" by (cases "close_up a c h v")
  from close_up_discreet [OF assms(3) c] assms(1,2,4) c show ?thesis
    by (cases x; cases r0) (auto simp: finally_do_def discreet_def)
qed

end

subsection \<open>The fake client closes that way\<close>

text \<open>Nothing else changes how the fake's disconnect fails, and it fails with a printable exception.\<close>

definition fails_politely :: "fake_memory world \<Rightarrow> bool" where
  "fails_politely w \<longleftrightarrow>
     intact (\<lambda>m. fail_disconnect (env m)) w \<and>
     (case fail_disconnect (env (mem w)) of None \<Rightarrow> True | Some e \<Rightarrow> isinstance e ExceptionC \<and> \<not> isl (exc_str e))"

lemma sleep_raises:
  assumes "sleep d w = (Raise e, w')"
  shows "e = cancelled_error \<and> cancels w < cancels w'"
proof -
  have e: "e = cancelled_error" using assms unfolding sleep_def by (rule park_raises_cancelled)
  with orderlyD [OF orderly_sleep assms] show ?thesis by (simp add: cancelled_error_def issubclass_eval)
qed

lemma fake_disconnect_fails:
  assumes "fails_politely w" and "fake_disconnect w = (Raise e, w')"
  shows "isinstance e ExceptionC \<and> \<not> isl (exc_str e) \<or> isinstance e CancelledErrorC \<and> cancels w < cancels w'"
proof -
  let ?g = "\<lambda>m :: fake_memory. fail_disconnect (env m)"
  let ?w = "w\<lparr>mem := on_fake (\<lambda>s. s\<lparr>disconnects := disconnects s + 1\<rparr>) (mem w)\<rparr>"
  let ?p = "pause_if (disconnect_delay_s (env (mem ?w))) :: (unit, fake) ble"
  obtain x v where p: "?p ?w = (x, v)" by (cases "?p ?w")
  have "keeps (part_frame ?g) ?p" by (simp add: pause_if_def part.keeps_sleep part.keeps_ret)
  from part_frameD [OF this p] assms(1) have v: "?g (mem v) = ?g (mem w)"
    by (simp add: fails_politely_def on_fake_def)
  show ?thesis
  proof (cases x)
    case (Return u)
    with assms p v show ?thesis
      by (cases "fail_disconnect (env (mem w))")
        (auto simp: fake_disconnect_def bind_def change_def update_def reading_def raise_if_def ret_def throw_def fails_politely_def)
  next
    case (Raise e')
    with assms(2) p have "e' = e" "v = w'" by (simp_all add: fake_disconnect_def bind_def change_def update_def reading_def)
    with p Raise have "e = cancelled_error \<and> cancels ?w < cancels w'"
      by (intro sleep_raises [of "disconnect_delay_s (env (mem ?w))"]) (auto simp: pause_if_def ret_def split: if_splits)
    then show ?thesis by (simp add: cancelled_error_def issubclass_eval)
  next
    case Hang
    with assms(2) p show ?thesis by (simp add: fake_disconnect_def bind_def change_def update_def reading_def)
  qed
qed

interpretation fake_closing: closing "fake_client i on_write" fails_politely for i on_write
proof unfold_locales
  show "isinstance e ExceptionC \<and> \<not> isl (exc_str e) \<or> isinstance e CancelledErrorC \<and> cancels w < cancels w'"
    if "fails_politely w" "c_disconnect (fake_client i on_write) w = (Raise e, w')" for w e w'
    using that fake_disconnect_fails by (simp add: fake_client_def)
qed (simp_all add: fails_politely_def fake_client_def intact_def)

section \<open>The block\<close>

text \<open>The client and the world the block of a session starts with, if it starts.\<close>

definition block_start :: "'e session_args \<Rightarrow> 'e shared world \<Rightarrow> ('e client \<times> 'e shared world) option" where
  "block_start a w =
     (let v = snd (allocate w)
      in if still_up (s_client a) w then
           (case s_client a of
              None \<Rightarrow> None
            | Some c \<Rightarrow>
                (let v' = snd (set_link c (s_device a) (snd (note_live ''reused'' (PyBool True) v)))
                 in Some (c, v'\<lparr>live := timed_enter SESSION (live v')\<rparr>)))
         else
           (case timed_var CONNECT (connecting a (fresh (mem w)) (s_client a)) v of
              ((Return _, Some c), v') \<Rightarrow> Some (c, v'\<lparr>live := timed_enter SESSION (live v')\<rparr>)
            | _ \<Rightarrow> None))"

lemma allocate_run: "allocate w = (Return (fresh (mem w)), snd (allocate w))"
  by (simp add: allocate_def Let_def)

lemma ble_session_unfold:
  "ble_session a body w =
     (let v = snd (allocate w)
      in case s_client a of
           Some c \<Rightarrow>
             (if still_up (Some c) w then reuse_session a c body v else open_session a (fresh (mem w)) (Some c) body v)
         | None \<Rightarrow> open_session a (fresh (mem w)) None body v)"
proof -
  obtain v where "allocate w = (Return (fresh (mem w)), v)" using allocate_run by blast
  then show ?thesis
    by (cases "s_client a") (simp_all add: ble_session_def bind_def Let_def still_up_def)
qed

text \<open>However the link was obtained, what is left of the session is the block and the close.\<close>

lemma block_then_close:
  assumes "block_start a w = Some (c, v)"
  shows "\<exists>u. v = u\<lparr>live := timed_enter SESSION (live u)\<rparr> \<and>
    ble_session a body w = finally_do (timed SESSION (body c)) (close_up a c True) u"
proof (cases "still_up (s_client a) w")
  case True
  then obtain c' where c': "s_client a = Some c'" by (auto simp: still_up_def split: option.splits)
  let ?v = "snd (allocate w)"
  let ?v1 = "snd (note_live ''reused'' (PyBool True) ?v)"
  let ?v2 = "snd (set_link c' (s_device a) ?v1)"
  from assms True c' have v: "c = c'" "v = ?v2\<lparr>live := timed_enter SESSION (live ?v2)\<rparr>"
    by (auto simp: block_start_def Let_def)
  have "ble_session a body w = reuse_session a c' body ?v" using True c' by (simp add: ble_session_unfold Let_def)
  also have "\<dots> = finally_do (timed SESSION (body c')) (close_up a c' True) ?v2"
    by (simp add: reuse_session_def finally_do_def bind_def note_live_def set_link_def update_def del: note_facts.simps)
  finally show ?thesis using v by blast
next
  case False
  with assms obtain u where u: "timed_var CONNECT (connecting a (fresh (mem w)) (s_client a)) (snd (allocate w))
      = ((Return (), Some c), u)" "v = u\<lparr>live := timed_enter SESSION (live u)\<rparr>"
    by (auto simp: block_start_def Let_def split: prod.splits outcome.splits option.splits)
  have "ble_session a body w = open_session a (fresh (mem w)) (s_client a) body (snd (allocate w))"
    using False by (cases "s_client a") (simp_all add: ble_session_unfold Let_def)
  also have "\<dots> = finally_do (timed SESSION (body c)) (close_up a c True) u"
    by (simp add: open_session_def u)
  finally show ?thesis using u(2) by blast
qed

text \<open>
  C13: What the block did is what the session reports: whether the link was opened for it or reused, a
  session whose block ended with an outcome ends with that outcome unless the task is cancelled while
  the link is being closed, and the close takes at most its own bound, whatever the stack does.
\<close>

theorem block_outcome_survives:
  assumes "closing c ok" and "block_start a w = Some (c, v)"
    and "body c v = (r0, v')" and "r0 \<noteq> Hang" and "ok v'" and "ble_session a body w = (r, w')"
  shows "r \<noteq> Hang \<and> now w' \<le> now v' + max 0 (s_disconnect_timeout_s a) \<and>
    (r = r0 \<or> (\<exists>e. r = Raise e \<and> isinstance e CancelledErrorC \<and> cancels v' < cancels w'))"
proof -
  from block_then_close [OF assms(2)] obtain u where u: "v = u\<lparr>live := timed_enter SESSION (live u)\<rparr>"
    "ble_session a body w = finally_do (timed SESSION (body c)) (close_up a c True) u" by blast
  let ?v = "v'\<lparr>live := timed_exit SESSION (is_raise r0) (now v' - now u) (live v')\<rparr>"
  have "timed SESSION (body c) u = (r0, ?v)"
    using u(1) assms(3,4) by (cases r0) (simp_all add: timed_def)
  from closing.finally_close [OF assms(1) this assms(4) closing.ok_live [OF assms(1,5)] assms(6) [unfolded u(2)]]
  show ?thesis by simp
qed

text \<open>A session with the fake device, as the tests of an integration run it.\<close>

definition fake_session :: "exc option \<Rightarrow> fake session_args" where
  "fake_session fail =
     \<lparr>s_device = FakeDevice ''AA:BB'' DetailsOther, s_name = None, s_client = None, s_settle_s = 0,
      s_disconnect_timeout_s = DISCONNECT_TIMEOUT_S, s_keep = False, s_close_stale = False, s_callback = [],
      s_establish = \<lambda>_ callback. fake_connect 1 None True fail callback,
      s_close_stale_connections = \<lambda>_. ret ()\<rparr>"

text \<open>The definitions that run a session with the fake.\<close>

lemmas session_run =
  ble_session_def open_session_def fake_session_def still_up_def timed_var_def timed_def connecting_def
  before_connect_def establish_def fake_connect_def raise_if_def bind_def ret_def catch_def change_def update_def
  opened_def watch_drops_def set_link_def fake_client_def fake_world_def idle_def allocate_def Let_def on_fake_def
  FakeDevice_def FakeClient_def throw_def clear_event_def close_up_def close_link_def note_mtu_def reported_mtu_def
  note_live_def finally_do_def fake_disconnect_def reading_def pause_if_def error_text_def DISCONNECT_TIMEOUT_S_def
  issubclass_eval isinstance_def

lemmas loop_run =
  bounded_def with_timeout_def push_scope_def pop_scope_def scope_outcome_def sleep_def park.simps next_time_def
  wake_times_def pending_def advance_def deliver_due_def fire_due_def due_def reached_def cancelled_error_def
  timeout_error_def

text \<open>The block fails, and the disconnect after it hangs.\<close>

theorem block_outcome_survives_witness:
  "\<exists>w'. ble_session (fake_session None) (\<lambda>_. throw (plain_exc BleakErrorC ''boom'') :: (unit, fake) ble)
       (fake_world ((FakeClient True)\<lparr>disconnect_delay_s := 60\<rparr>))
     = (Raise (plain_exc BleakErrorC ''boom''), w') \<and> now w' \<le> 10"
proof -
  let ?w = "fake_world ((FakeClient True)\<lparr>disconnect_delay_s := 60\<rparr>)"
  let ?body = "\<lambda>_. throw (plain_exc BleakErrorC ''boom'') :: (unit, fake) ble"
  obtain v where v: "block_start (fake_session None) ?w = Some (fake_client 1 None, v)" "now v = 0" "cancels v = 0"
      "fails_politely v"
    by (simp add: block_start_def session_run fails_politely_def intact_def)
  obtain r w' where run: "ble_session (fake_session None) ?body ?w = (r, w')"
    by (cases "ble_session (fake_session None) ?body ?w")
  have "cancels (snd (ble_session (fake_session None) ?body ?w)) = 0" by (simp add: session_run loop_run)
  with run have c: "cancels w' = 0" by simp
  have b: "?body (fake_client 1 None) v = (Raise (plain_exc BleakErrorC ''boom''), v)" by (simp add: throw_def)
  from block_outcome_survives [OF fake_closing.closing_axioms v(1) b _ v(4) run] v(2,3) c run show ?thesis
    by (simp add: fake_session_def DISCONNECT_TIMEOUT_S_def)
qed

text \<open>A settle of a second on a link that drops after half of it.\<close>

theorem settled_or_dropped_witness:
  "\<exists>w'. settle (fake_client 1 None) 1 0
       ((fake_world (FakeClient True))\<lparr>agenda := [(1 / 2, Change (set_events [0]))]\<rparr>)
     = (Raise (settle_dropped (1 / 2)), w') \<and> now w' = 1 / 2"
proof -
  let ?w = "(fake_world (FakeClient True))\<lparr>agenda := [(1 / 2, Change (set_events [0]))]\<rparr>"
  obtain r w' where run: "settle (fake_client 1 None) 1 0 ?w = (r, w')"
    by (cases "settle (fake_client 1 None) 1 0 ?w")
  have "now (snd (settle (fake_client 1 None) 1 0 ?w)) = 1 / 2 \<and> cancels (snd (settle (fake_client 1 None) 1 0 ?w)) = 0"
    by code_simp
  then have n: "now w' = 1 / 2" "cancels w' = 0" using run by simp_all
  have z: "now ?w = 0" "cancels ?w = 0" by (simp_all add: fake_world_def idle_def)
  from settled_or_dropped [OF run] n z run show ?thesis by (cases r) simp_all
qed

section \<open>Every link obtained is closed\<close>

text \<open>
  The contract that lets the closes be counted: \<open>g\<close> is a part of the environment the event loop leaves
  alone, \<open>b\<close> a count kept there which a disconnect request to the client number \<open>i\<close> raises by one, and
  one to another client not at all.  \<open>ours\<close> says which clients there are.
\<close>

definition hit :: "nat \<Rightarrow> nat \<Rightarrow> int" where
  "hit i j = (if j = i then 1 else 0)"

abbreviation count_in :: "('e \<Rightarrow> 'x) \<Rightarrow> 'e shared \<Rightarrow> 'x" where
  "count_in g m \<equiv> g (env m)"

locale counted =
  fixes ours :: "'e client \<Rightarrow> bool" and g :: "'e \<Rightarrow> 'x" and b :: "'x \<Rightarrow> int" and i :: nat
  assumes disconnect_counts: "ours c \<Longrightarrow> intact (count_in g) w \<Longrightarrow> c_disconnect c w = (r, w') \<Longrightarrow>
      intact (count_in g) w' \<and> b (count_in g (mem w')) = b (count_in g (mem w)) + hit i (c_id c)"
    and mtu_ordinary: "ours c \<Longrightarrow> c_mtu_size c v = Inl e \<Longrightarrow> isinstance e ExceptionC"

text \<open>By how much a step raises the count.\<close>

definition closes :: "('e \<Rightarrow> 'x) \<Rightarrow> ('x \<Rightarrow> int) \<Rightarrow> int \<Rightarrow> 'e shared world \<Rightarrow> 'e shared world \<Rightarrow> bool" where
  "closes g b k w w' \<longleftrightarrow>
     (intact (count_in g) w \<longrightarrow> intact (count_in g) w' \<and> b (count_in g (mem w')) = b (count_in g (mem w)) + k)"

lemma closes_trans: "closes g b j u v \<Longrightarrow> closes g b k v w \<Longrightarrow> closes g b (j + k) u w"
  by (simp add: closes_def)

lemma closes_same [simp]: "closes g b 0 w w"
  by (simp add: closes_def)

lemma closes_fields [simp]:
  "closes g b k (w\<lparr>live := t\<rparr>) w' = closes g b k w w'" "closes g b k w (w'\<lparr>live := t\<rparr>) = closes g b k w w'"
  by (simp_all add: closes_def)

lemma closes_keeps: "keeps (part_frame (count_in g)) f \<Longrightarrow> f w = (r, w') \<Longrightarrow> closes g b 0 w w'"
  using keepsD [of "part_frame (count_in g)" f w r w'] by (simp add: closes_def part_frame_def)

lemma closes_timed:
  assumes "timed s f w = (r, w')" and "\<And>v x u. f v = (x, u) \<Longrightarrow> x \<noteq> Hang \<Longrightarrow> closes g b k v u" and "r \<noteq> Hang"
  shows "closes g b k w w'"
proof -
  obtain x u where f: "f (w\<lparr>live := timed_enter s (live w)\<rparr>) = (x, u)"
    by (cases "f (w\<lparr>live := timed_enter s (live w)\<rparr>)")
  with assms(1,3) have "x \<noteq> Hang" "\<exists>t. w' = u\<lparr>live := t\<rparr>" by (cases x; auto simp: timed_def)+
  with assms(2) [OF f] show ?thesis by auto
qed

lemma closes_mtu: "note_mtu c w = (r, w') \<Longrightarrow> closes g b 0 w w'"
  by (auto simp: note_mtu_def note_live_def update_def split: sum.splits option.splits)

context counted
begin

lemma closes_close_link:
  assumes "ours c" and "close_link c t what w = (r, w')"
  shows "closes g b (hit i (c_id c)) w w'"
proof -
  obtain x u where d: "c_disconnect c (push_scope (Some t) w) = (x, u)"
    by (cases "c_disconnect c (push_scope (Some t) w)")
  have "closes g b (hit i (c_id c)) w (pop_scope u)"
    using disconnect_counts [OF assms(1) _ d] by (simp add: closes_def intact_def)
  moreover obtain y where "bounded (Some t) (c_disconnect c) w = (y, pop_scope u)"
    using d by (simp add: bounded_def with_timeout_def Let_def)
  ultimately show ?thesis using assms(2)
    by (cases y) (auto simp: close_link_def catch_def throw_def note_live_def update_def split: if_splits sum.splits)
qed

lemma closes_close_up:
  assumes "ours c" and "close_up a c h w = (r, w')" and "r \<noteq> Hang"
  shows "closes g b (if s_keep a \<and> h then 0 else hit i (c_id c)) w w'"
proof -
  obtain x u where m: "(if h then note_mtu c else ret ()) w = (x, u)"
    by (cases "(if h then note_mtu c else ret ()) w")
  have "x = Return ()"
    using m mtu_ordinary [OF assms(1)] by (auto simp: note_mtu_def reported_mtu_def note_live_def update_def ret_def
        split: if_splits sum.splits option.splits prod.splits)
  moreover have "closes g b 0 w u" using m closes_mtu by (cases h) (auto simp: ret_def)
  moreover have "closes g b (if s_keep a \<and> h then 0 else hit i (c_id c)) u w'" if x: "x = Return ()"
  proof (cases "s_keep a \<and> h")
    case True
    with assms(2) m x show ?thesis by (auto simp: close_up_def bind_def ret_def)
  next
    case False
    with assms(2) m x have run: "timed DISCONNECT (close_link c (s_disconnect_timeout_s a) ''disconnect'') u = (r, w')"
      by (auto simp: close_up_def bind_def)
    have "closes g b (hit i (c_id c)) u w'"
      by (rule closes_timed [OF run _ assms(3)]) (rule closes_close_link [OF assms(1)])
    with False show ?thesis by auto
  qed
  ultimately show ?thesis using closes_trans [of g b 0 w u] by fastforce
qed

end

lemma fake_disconnect_counts:
  assumes "intact (count_in disconnects) w" and "fake_disconnect w = (r, w')"
  shows "intact (count_in disconnects) w' \<and> disconnects (env (mem w')) = Suc (disconnects (env (mem w)))"
proof -
  let ?w = "w\<lparr>mem := on_fake (\<lambda>s. s\<lparr>disconnects := disconnects s + 1\<rparr>) (mem w)\<rparr>"
  let ?p = "pause_if (disconnect_delay_s (env (mem ?w))) :: (unit, fake) ble"
  obtain x v where p: "?p ?w = (x, v)" by (cases "?p ?w")
  have "keeps (part_frame (count_in disconnects)) ?p" by (simp add: pause_if_def part.keeps_sleep part.keeps_ret)
  from part_frameD [OF this p] assms(1) have
    "intact (count_in disconnects) v \<and> disconnects (env (mem v)) = Suc (disconnects (env (mem w)))"
    by (simp add: on_fake_def)
  with assms(2) p show ?thesis
    by (cases x; cases "fail_disconnect (env (mem v))")
      (auto simp: fake_disconnect_def bind_def change_def update_def reading_def raise_if_def ret_def throw_def
        drop_link_def on_fake_def set_events_def Let_def split: option.splits)
qed

text \<open>The fake client counts the disconnect requests it gets.\<close>

interpretation fake_counted: counted "\<lambda>c. \<exists>on_write. c = fake_client i on_write" disconnects int i for i
  by unfold_locales (use fake_disconnect_counts in \<open>auto simp: fake_client_def hit_def\<close>)

text \<open>What is passed in opens links and closes none: a link it opens lowers the count of its client.\<close>

definition hands_over :: "('e client \<Rightarrow> bool) \<Rightarrow> ('e \<Rightarrow> 'x) \<Rightarrow> ('x \<Rightarrow> int) \<Rightarrow> nat \<Rightarrow> 'e session_args \<Rightarrow> bool" where
  "hands_over ours g b i a \<longleftrightarrow>
     (\<forall>nm cb v r v'. s_establish a nm cb v = (r, v') \<longrightarrow>
        (case r of
           Return c \<Rightarrow> ours c \<and> closes g b (- hit i (c_id c)) v v'
         | _ \<Rightarrow> closes g b 0 v v')) \<and>
     (\<forall>addr. keeps (part_frame (count_in g)) (s_close_stale_connections a addr)) \<and>
     (\<forall>c. s_client a = Some c \<longrightarrow> ours c)"

text \<open>The close a client that was handed in asks for.\<close>

definition handed_in :: "nat \<Rightarrow> 'e session_args \<Rightarrow> int" where
  "handed_in i a = (case s_client a of None \<Rightarrow> 0 | Some c \<Rightarrow> hit i (c_id c))"

lemma keeps_wait_event: "keeps (part_frame g) (wait_event d)"
proof (rule keepsI)
  fix w
  show "part_frame g w (snd (wait_event d w))"
    using part.R_park [of g w None] by (simp add: wait_event_def part_frame_refl)
qed

lemma keeps_settle:
  assumes R: "scoped_frame R" and "keeps R (wait_event d)"
  shows "keeps R (settle c s d)"
proof -
  note frame = scoped_frame.axioms(1) [OF R]
  have "R w (snd (settle_loop c s d t0 w))" for t0 w
    using assms(2)
  proof (induction c s d t0 w rule: settle_loop.induct)
    case (1 c s d t0 w)
    let ?left = "s - (now w - t0)"
    obtain x v where p: "poll d ?left w = (x, v)" by (cases "poll d ?left w")
    have v: "R w v"
      using keepsD [OF scoped_frame.keeps_bounded [OF R "1.prems"] p [unfolded poll_def]] .
    show ?case
    proof (cases "0 < ?left \<and> (case x of Return _ \<Rightarrow> True | Raise e \<Rightarrow> isinstance e TimeoutErrorC | Hang \<Rightarrow> False)
        \<and> \<not> link_lost c d v")
      case True
      with "1.IH" [OF refl _ p [symmetric] refl] "1.prems" have "R v (snd (settle_loop c s d t0 v))" by simp
      with v have "R w (snd (settle_loop c s d t0 v))" by (rule world_frame.R_trans [OF frame])
      with True p show ?thesis by (subst settle_loop.simps) (simp add: Let_def)
    qed (use p v world_frame.R_refl [OF frame] in \<open>subst settle_loop.simps; auto simp: Let_def\<close>)
  qed
  then show ?thesis by (simp add: keeps_def settle_def)
qed

lemma keeps_env_change: "(\<And>m. env (f m) = env m) \<Longrightarrow> keeps (part_frame (count_in n)) (change f)"
  by (simp add: keeps_def change_def update_def part_frame_def)

lemma keeps_opened: "keeps (part_frame (count_in n)) (opened a d c)"
proof -
  have "keeps (part_frame (count_in n)) (watch_drops c d)"
    by (simp add: watch_drops_def keeps_env_change part.keeps_ret)
  moreover have "keeps (part_frame (count_in n)) (set_link c (s_device a))"
    by (simp add: keeps_def set_link_def update_def part_frame_refl)
  moreover have "keeps (part_frame (count_in n)) (change (clear_event d))"
    by (rule keeps_env_change) (simp add: clear_event_def)
  ultimately show ?thesis
    unfolding opened_def by (intro part.keeps_bind) (simp_all add: keeps_settle [OF part.scoped_frame_axioms keeps_wait_event] part.keeps_ret)
qed

lemma timed_var_run:
  assumes "timed_var s f w = ((r, x), w')"
  obtains u t where "f (w\<lparr>live := timed_enter s (live w)\<rparr>) = ((r, x), u)" and "w' = u\<lparr>live := t\<rparr>"
proof -
  obtain y z u where f: "f (w\<lparr>live := timed_enter s (live w)\<rparr>) = ((y, z), u)"
    by (cases "f (w\<lparr>live := timed_enter s (live w)\<rparr>)") auto
  have "\<exists>t. w' = u\<lparr>live := t\<rparr>"
    using assms f by (cases y) (auto simp: timed_var_def intro: exI [of _ "live u"])
  moreover have "(y, z) = (r, x)" using assms f by (cases y) (auto simp: timed_var_def)
  ultimately show ?thesis using f that by blast
qed

lemma closes_establish:
  assumes "hands_over ours g b i a" and "establish a d w = (r, w')"
  shows "case r of Return c \<Rightarrow> ours c \<and> closes g b (- hit i (c_id c)) w w' | _ \<Rightarrow> closes g b 0 w w'"
proof -
  let ?nm = "case s_name a of Some n \<Rightarrow> if n \<noteq> [] then n else dev_address (s_device a) | None \<Rightarrow> dev_address (s_device a)"
  obtain x v where run: "s_establish a ?nm (d # s_callback a) w = (x, v)" by (cases "s_establish a ?nm (d # s_callback a) w")
  with assms(2) have end_of: "(r, w') = (case x of
       Raise e \<Rightarrow> if \<not> isinstance e ConnectFailedC \<and> isinstance e ExceptionC
         then (Raise (connect_error (dev_address (s_device a)) e), v) else (Raise e, v)
     | _ \<Rightarrow> (x, v))"
    by (cases x) (auto simp: establish_def Let_def catch_def throw_def)
  from assms(1) run have
    "case x of Return c \<Rightarrow> ours c \<and> closes g b (- hit i (c_id c)) w v | _ \<Rightarrow> closes g b 0 w v"
    unfolding hands_over_def by blast
  with end_of show ?thesis by (cases x) (auto split: if_splits)
qed

context counted
begin

lemma closes_before_connect:
  assumes "hands_over ours g b i a" and "before_connect a (s_client a) w = (r, w')"
  shows "closes g b (handed_in i a) w w'"
proof -
  let ?stale = "case s_client a of None \<Rightarrow> ret () | Some c \<Rightarrow> close_link c (s_disconnect_timeout_s a) ''stale_close''"
  let ?more = "if s_close_stale a then s_close_stale_connections a (dev_address (s_device a)) else ret ()"
  obtain x v where x: "?stale w = (x, v)" by (cases "?stale w")
  have "keeps (part_frame (count_in g)) ?more"
    using assms(1) by (simp add: hands_over_def part.keeps_ret)
  then have more: "closes g b 0 v w'" if "x = Return ()"
    using that assms(2) x by (intro closes_keeps [of g ?more v r w']) (auto simp: before_connect_def bind_def)
  have stale: "closes g b (handed_in i a) w v"
  proof (cases "s_client a")
    case (Some c)
    with assms(1) have "ours c" by (simp add: hands_over_def)
    with x Some closes_close_link [of c "s_disconnect_timeout_s a" "''stale_close''" w x v] show ?thesis
      by (simp add: handed_in_def)
  qed (use x in \<open>simp add: ret_def handed_in_def\<close>)
  show ?thesis
  proof (cases "x = Return ()")
    case True
    from closes_trans [OF stale more [OF True]] show ?thesis by simp
  next
    case False
    with assms(2) x have "w' = v" by (cases x) (auto simp: before_connect_def bind_def)
    with stale show ?thesis by simp
  qed
qed

text \<open>Connecting takes one close off for the client it leaves behind, whether the settle succeeds or not.\<close>

lemma closes_connecting:
  assumes "hands_over ours g b i a" and "connecting a d (s_client a) w = ((r, x), w')" and "r \<noteq> Hang"
  shows "case x of
      None \<Rightarrow> closes g b (handed_in i a) w w'
    | Some c \<Rightarrow> ours c \<and> closes g b (handed_in i a - hit i (c_id c)) w w'"
proof -
  obtain y v where y: "before_connect a (s_client a) w = (y, v)" by (cases "before_connect a (s_client a) w")
  have v: "closes g b (handed_in i a) w v" by (rule closes_before_connect [OF assms(1) y])
  show ?thesis
  proof (cases "y = Return ()")
    case True
    obtain z u where z: "establish a d v = (z, u)" by (cases "establish a d v")
    note est = closes_establish [OF assms(1) z]
    have run: "bind (before_connect a (s_client a)) (\<lambda>_. establish a d) w = (z, u)"
      using True y z by (simp add: bind_def)
    show ?thesis
    proof (cases z)
      case (Return c)
      obtain r1 u1 where o1: "opened a d c u = (r1, u1)" by (cases "opened a d c u")
      from est Return have c: "ours c" "closes g b (- hit i (c_id c)) v u" by simp_all
      have "closes g b 0 u u1" by (rule closes_keeps [OF keeps_opened o1])
      from closes_trans [OF v closes_trans [OF c(2) this]] have "closes g b (handed_in i a - hit i (c_id c)) w u1" by simp
      moreover have "r = r1" "x = Some c" "w' = u1" using assms(2) run Return o1 by (simp_all add: connecting_def)
      ultimately show ?thesis using c(1) by simp
    qed (use assms(2) run est closes_trans [OF v, of 0 u] in \<open>auto simp: connecting_def\<close>)
  next
    case False
    with assms(2,3) y have "x = None" "w' = v" by (cases y; auto simp: connecting_def bind_def)+
    with v show ?thesis by simp
  qed
qed

text \<open>The block and the close after it: one close, or one run of the block of a session that keeps its link.\<close>

lemma closes_finally:
  assumes "finally_do f (close_up a c h) u = (r, w')" and "\<And>x v. f u = (x, v) \<Longrightarrow> x \<noteq> Hang \<Longrightarrow> closes g b k u v"
    and "ours c" and "r \<noteq> Hang"
  shows "closes g b (k + (if s_keep a \<and> h then 0 else hit i (c_id c))) u w'"
proof -
  obtain x v where f: "f u = (x, v)" by (cases "f u")
  with assms(1,4) obtain y where y: "x \<noteq> Hang" "close_up a c h v = (y, w')" "y \<noteq> Hang"
    by (auto simp: finally_do_def split: outcome.splits prod.splits)
  from closes_trans [OF assms(2) [OF f y(1)] closes_close_up [OF assms(3) y(2,3)]] show ?thesis .
qed

definition runs_once :: "'e session_args \<Rightarrow> ('e client \<Rightarrow> ('a, 'e) ble) \<Rightarrow> bool" where
  "runs_once a body \<longleftrightarrow> (\<forall>c w r w'. ours c \<longrightarrow> body c w = (r, w') \<longrightarrow>
     closes g b (if s_keep a then hit i (c_id c) else 0) w w')"

lemma closes_block:
  assumes "finally_do f (close_up a c True) u = (r, w')" and "r \<noteq> Hang" and "ours c" and "runs_once a body"
    and "\<And>x v. f u = (x, v) \<Longrightarrow> \<exists>t u'. u' = u\<lparr>live := t\<rparr> \<and> timed SESSION (body c) u' = (x, v)"
  shows "closes g b (hit i (c_id c)) u w'"
proof -
  let ?k = "if s_keep a then hit i (c_id c) else 0 :: int"
  have "closes g b ?k u v" if f: "f u = (x, v)" "x \<noteq> Hang" for x v
  proof -
    from assms(5) [OF f(1)] obtain t where "timed SESSION (body c) (u\<lparr>live := t\<rparr>) = (x, v)" by blast
    then have "closes g b ?k (u\<lparr>live := t\<rparr>) v"
      by (rule closes_timed [OF _ _ f(2)]) (use assms(3,4) in \<open>simp add: runs_once_def\<close>)
    then show ?thesis by simp
  qed
  from closes_finally [where k = ?k, OF assms(1) this assms(3,2)] show ?thesis by (cases "s_keep a") simp_all
qed

lemma closes_open_session:
  assumes "hands_over ours g b i a" and "runs_once a body"
    and "open_session a d (s_client a) body v = (r, w')" and "r \<noteq> Hang"
  shows "closes g b (handed_in i a) v w'"
proof -
  obtain r1 x u where t: "timed_var CONNECT (connecting a d (s_client a)) v = ((r1, x), u)"
    by (cases "timed_var CONNECT (connecting a d (s_client a)) v") auto
  note run = assms(3)
  from t run assms(4) have r1: "r1 \<noteq> Hang" by (auto simp: open_session_def)
  from timed_var_run [OF t] obtain u' tr where u': "connecting a d (s_client a)
      (v\<lparr>live := timed_enter CONNECT (live v)\<rparr>) = ((r1, x), u')" "u = u'\<lparr>live := tr\<rparr>" .
  note con = closes_connecting [OF assms(1) u'(1) r1]
  show ?thesis
  proof (cases x)
    case None
    with con u'(2) run t r1 show ?thesis by (cases r1) (auto simp: open_session_def)
  next
    case (Some c)
    with con u'(2) have c: "ours c" "closes g b (handed_in i a - hit i (c_id c)) v u" by simp_all
    have "closes g b (hit i (c_id c)) u w'"
    proof (cases r1)
      case (Return y)
      with run t Some have f: "finally_do (timed SESSION (body c)) (close_up a c True) u = (r, w')"
        by (simp add: open_session_def)
      show ?thesis by (rule closes_block [OF f assms(4) c(1) assms(2)]) (metis world.surjective world.update_convs)
    next
      case (Raise e)
      with run t Some have "finally_do (throw e) (close_up a c False) u = (r, w')"
        by (simp add: open_session_def)
      from closes_finally [OF this _ c(1) assms(4), of 0] show ?thesis by (simp add: throw_def)
    qed (use r1 in simp)
    from closes_trans [OF c(2) this] show ?thesis by simp
  qed
qed

lemma closes_reuse_session:
  assumes "ours c" and "runs_once a body" and "reuse_session a c body v = (r, w')" and "r \<noteq> Hang"
  shows "closes g b (hit i (c_id c)) v w'"
  by (rule closes_block [OF assms(3) [unfolded reuse_session_def] assms(4,1,2)])
    (auto simp: bind_def note_live_def set_link_def update_def)

lemma closes_session:
  assumes "hands_over ours g b i a" and "runs_once a body" and "ble_session a body w = (r, w')" and "r \<noteq> Hang"
  shows "closes g b (handed_in i a) w w'"
proof -
  let ?v = "snd (allocate w)"
  have v: "closes g b 0 w ?v" by (simp add: closes_def allocate_def Let_def intact_def)
  have "closes g b (handed_in i a) ?v w'"
  proof (cases "still_up (s_client a) w")
    case True
    then obtain c where c: "s_client a = Some c" by (cases "s_client a") (simp_all add: still_up_def)
    with assms(1) have "ours c" by (simp add: hands_over_def)
    moreover have "reuse_session a c body ?v = (r, w')"
      using c True assms(3) by (simp add: ble_session_unfold Let_def)
    ultimately show ?thesis using closes_reuse_session [OF _ assms(2) _ assms(4)] c by (simp add: handed_in_def)
  next
    case False
    then have "open_session a (fresh (mem w)) (s_client a) body ?v = (r, w')"
      using assms(3) by (cases "s_client a") (simp_all add: ble_session_unfold Let_def)
    from closes_open_session [OF assms(1,2) this assms(4)] show ?thesis .
  qed
  from closes_trans [OF v this] show ?thesis by simp
qed

end

subsection \<open>The books of a session\<close>

text \<open>What is written down of each client, by its number: the disconnect requests it got, the links
  \<open>establish_connection\<close> opened with it, and the runs of the block with it.\<close>

datatype entry = Closed nat | Opened nat | Ran nat

definition ticked :: "entry \<Rightarrow> (entry \<Rightarrow> nat) \<Rightarrow> entry \<Rightarrow> nat" where
  "ticked e l = l(e := Suc (l e))"

text \<open>However \<open>f\<close> ends, it writes down what \<open>u\<close> says of its outcome, and nothing else is written meanwhile.\<close>

definition writes_down :: "('e \<Rightarrow> entry \<Rightarrow> nat) \<Rightarrow> ('a outcome \<Rightarrow> (entry \<Rightarrow> nat) \<Rightarrow> entry \<Rightarrow> nat) \<Rightarrow> ('a, 'e) ble \<Rightarrow> bool" where
  "writes_down books u f \<longleftrightarrow>
     (\<forall>w r w'. intact (count_in books) w \<longrightarrow> f w = (r, w') \<longrightarrow>
        intact (count_in books) w' \<and> count_in books (mem w') = u r (count_in books (mem w)))"

definition client_books :: "('e \<Rightarrow> entry \<Rightarrow> nat) \<Rightarrow> 'e client \<Rightarrow> bool" where
  "client_books books c \<longleftrightarrow>
     writes_down books (\<lambda>_. ticked (Closed (c_id c))) (c_disconnect c) \<and>
     (\<forall>v e. c_mtu_size c v = Inl e \<longrightarrow> isinstance e ExceptionC)"

definition opens_links :: "('e \<Rightarrow> entry \<Rightarrow> nat) \<Rightarrow> 'e session_args \<Rightarrow> bool" where
  "opens_links books a \<longleftrightarrow>
     (\<forall>nm cb. writes_down books (\<lambda>r. case r of Return c \<Rightarrow> ticked (Opened (c_id c)) | _ \<Rightarrow> id) (s_establish a nm cb)) \<and>
     (\<forall>nm cb v c v'. s_establish a nm cb v = (Return c, v') \<longrightarrow> client_books books c) \<and>
     (\<forall>addr. writes_down books (\<lambda>_. id) (s_close_stale_connections a addr))"

text \<open>The count kept of the client \<open>i\<close>: closes, and runs where a link handed to the block is kept, less
  what was opened.\<close>

definition settled_up :: "bool \<Rightarrow> nat \<Rightarrow> (entry \<Rightarrow> nat) \<Rightarrow> int" where
  "settled_up keep i l = int (l (Closed i)) + (if keep then int (l (Ran i)) else 0) - int (l (Opened i))"

lemma settled_up_ticked [simp]:
  "settled_up keep i (ticked (Closed j) l) = settled_up keep i l + hit i j"
  "settled_up keep i (ticked (Opened j) l) = settled_up keep i l - hit i j"
  "settled_up keep i (ticked (Ran j) l) = settled_up keep i l + (if keep then hit i j else 0)"
  by (simp_all add: settled_up_def ticked_def hit_def)

lemma writes_down_closes:
  assumes "writes_down books u f" and "f w = (r, w')"
    and "\<And>l. settled_up keep i (u r l) = settled_up keep i l + k"
  shows "closes books (settled_up keep i) k w w'"
  using assms by (auto simp: writes_down_def closes_def)

lemma books_counted: "counted (client_books books) books (settled_up keep i) i"
  by unfold_locales (auto simp: client_books_def writes_down_def)

lemma books_hands_over:
  assumes "opens_links books a" and "\<And>c. s_client a = Some c \<Longrightarrow> client_books books c"
  shows "hands_over (client_books books) books (settled_up keep i) i a"
  unfolding hands_over_def
proof (intro conjI allI impI)
  fix nm cb v r v'
  assume run: "s_establish a nm cb v = (r, v')"
  from assms(1) have
    w: "writes_down books (\<lambda>r. case r of Return c \<Rightarrow> ticked (Opened (c_id c)) | _ \<Rightarrow> id) (s_establish a nm cb)"
    by (simp add: opens_links_def)
  show "case r of
      Return c \<Rightarrow> client_books books c \<and> closes books (settled_up keep i) (- hit i (c_id c)) v v'
    | _ \<Rightarrow> closes books (settled_up keep i) 0 v v'"
  proof (cases r)
    case (Return c)
    with assms(1) run have "client_books books c" unfolding opens_links_def by blast
    moreover have "closes books (settled_up keep i) (- hit i (c_id c)) v v'"
      by (rule writes_down_closes [OF w run]) (simp add: Return)
    ultimately show ?thesis using Return by simp
  next
    case (Raise e)
    have "closes books (settled_up keep i) 0 v v'" by (rule writes_down_closes [OF w run]) (simp add: Raise)
    with Raise show ?thesis by simp
  next
    case Hang
    have "closes books (settled_up keep i) 0 v v'" by (rule writes_down_closes [OF w run]) (simp add: Hang)
    with Hang show ?thesis by simp
  qed
next
  fix addr
  have "writes_down books (\<lambda>_. id) (s_close_stale_connections a addr)" using assms(1) by (simp add: opens_links_def)
  then show "keeps (part_frame (count_in books)) (s_close_stale_connections a addr)"
    unfolding writes_down_def keeps_def part_frame_def by (metis id_apply prod.collapse)
qed (rule assms(2))

text \<open>
  C5: Every link is closed exactly once, whoever it belongs to and whatever ends the connect, the settle or
  the block: for each client, the disconnect requests a session sends it are as many as the links opened
  with it, and one more where it is the client handed in, except that a session that keeps its link does
  not close the one its block was run with.  The client handed in and the one the connect gives may be
  different or the same.
\<close>

theorem links_closed_once:
  assumes "opens_links books a" and "\<And>c. s_client a = Some c \<Longrightarrow> client_books books c"
    and "\<And>c. client_books books c \<Longrightarrow> writes_down books (\<lambda>_. ticked (Ran (c_id c))) (body c)"
    and "intact (count_in books) w" and "ble_session a body w = (r, w')" and "r \<noteq> Hang"
  shows "let before = count_in books (mem w); after = count_in books (mem w')
    in after (Closed i) + before (Opened i) + (if s_keep a then after (Ran i) else 0)
     = before (Closed i) + after (Opened i) + (if s_keep a then before (Ran i) else 0)
       + (if \<exists>c. s_client a = Some c \<and> c_id c = i then 1 else 0)"
proof -
  have "counted.runs_once (client_books books) books (settled_up (s_keep a) i) i a body"
    unfolding counted.runs_once_def [OF books_counted]
    using writes_down_closes [OF assms(3)] by simp
  from counted.closes_session [OF books_counted books_hands_over [OF assms(1,2)] this assms(5,6)] assms(4)
  have "settled_up (s_keep a) i (count_in books (mem w')) = settled_up (s_keep a) i (count_in books (mem w)) + handed_in i a"
    by (simp add: closes_def)
  then show ?thesis
    by (cases "s_client a") (auto simp: settled_up_def handed_in_def hit_def Let_def split: if_splits)
qed

text \<open>A session that keeps its link, with clients that write their books: the one handed in is down, and the
  new one drops before it has settled.  Both are closed.\<close>

definition booked :: "entry \<Rightarrow> (unit, entry \<Rightarrow> nat) ble" where
  "booked e = change (\<lambda>m. m\<lparr>env := ticked e (env m)\<rparr>)"

definition booking_client :: "nat \<Rightarrow> (entry \<Rightarrow> nat) client" where
  "booking_client j =
     \<lparr>c_id = j, c_weakref = True, c_connected = \<lambda>_. False, c_start_notify = \<lambda>_ _. ret (), c_stop_notify = \<lambda>_. ret (),
      c_write = \<lambda>_ _ _. ret (), c_disconnect = booked (Closed j), c_get_services = None,
      c_mtu_size = \<lambda>_. Inr (PyInt 23, False), c_internals = \<lambda>_. \<lparr>connected_scanner = PyNone, backend_of = None\<rparr>\<rparr>"

definition booking_session :: "(entry \<Rightarrow> nat) session_args" where
  "booking_session =
     \<lparr>s_device = FakeDevice ''AA:BB'' DetailsOther, s_name = None, s_client = Some (booking_client 1), s_settle_s = 1,
      s_disconnect_timeout_s = DISCONNECT_TIMEOUT_S, s_keep = True, s_close_stale = False, s_callback = [],
      s_establish = \<lambda>_ _. bind (booked (Opened 2)) (\<lambda>_. ret (booking_client 2)),
      s_close_stale_connections = \<lambda>_. ret ()\<rparr>"

definition booking_world :: "(entry \<Rightarrow> nat) shared world" where
  "booking_world = idle \<lparr>events = \<lambda>_. False, queues = \<lambda>_. [], fresh = 0, watched = \<lambda>_. None, env = \<lambda>_. 0\<rparr>"

lemma booked_writes: "writes_down (\<lambda>l. l) (\<lambda>_. ticked e) (booked e)"
  by (auto simp: writes_down_def booked_def change_def update_def)

lemma booking_books: "client_books (\<lambda>l. l) (booking_client j)"
  using booked_writes by (simp add: client_books_def booking_client_def)

lemma booking_opens: "opens_links (\<lambda>l. l) booking_session"
proof -
  have c: "s_establish booking_session nm cb v
      = (Return (booking_client 2), v\<lparr>mem := (mem v)\<lparr>env := ticked (Opened 2) (env (mem v))\<rparr>\<rparr>)" for nm cb v
    by (simp add: booking_session_def bind_def ret_def booked_def change_def update_def)
  moreover have "c_id (booking_client 2) = 2" by (simp add: booking_client_def)
  moreover have "s_close_stale_connections booking_session addr = ret ()" for addr by (simp add: booking_session_def)
  ultimately show ?thesis by (auto simp: opens_links_def writes_down_def ret_def intro: booking_books)
qed

theorem links_closed_once_witness:
  "let l = env (mem (snd (ble_session booking_session (\<lambda>c. booked (Ran (c_id c))) booking_world)))
   in l (Closed 1) = 1 \<and> l (Closed 2) = 1"
proof -
  let ?body = "\<lambda>c. booked (Ran (c_id c))"
  obtain r w' where run: "ble_session booking_session ?body booking_world = (r, w')"
    by (cases "ble_session booking_session ?body booking_world")
  have "case ble_session booking_session ?body booking_world of (r, w') \<Rightarrow>
      is_raise r \<and> map (env (mem w')) [Opened 1, Opened 2, Ran 1, Ran 2] = [0, 1, 0, 0]"
    by (simp add: booking_session_def booking_world_def booking_client_def booked_def ticked_def settle_def settle_loop.simps
        poll_def wait_event_def link_lost_def SETTLE_POLL_STEP_S_def session_run loop_run)
  with run have l: "r \<noteq> Hang" "env (mem w') (Opened 1) = 0" "env (mem w') (Opened 2) = 1"
    "env (mem w') (Ran 1) = 0" "env (mem w') (Ran 2) = 0" by auto
  have z: "intact (count_in (\<lambda>l. l)) booking_world" "env (mem booking_world) = (\<lambda>_. 0)"
    by (simp_all add: booking_world_def intact_def idle_def)
  have s: "s_client booking_session = Some (booking_client 1)" "s_keep booking_session"
    by (simp_all add: booking_session_def)
  have "client_books (\<lambda>l. l) c" if "s_client booking_session = Some c" for c
    using that s booking_books by auto
  note once = links_closed_once [where books = "\<lambda>l. l", OF booking_opens this booked_writes z(1) run l(1)]
  from once [of 1] once [of 2] l z(2) s run show ?thesis
    by (simp add: Let_def booking_client_def)
qed

section \<open>Failing to connect\<close>

text \<open>The third party's connect fails with \<open>e\<close>, whatever it is asked, and leaves the trace alone.\<close>

definition refuses :: "'e session_args \<Rightarrow> exc \<Rightarrow> bool" where
  "refuses a e \<longleftrightarrow> (\<forall>nm cb v. \<exists>v'. s_establish a nm cb v = (Raise e, v') \<and> live v' = live v)"

text \<open>What the session raises then.\<close>

definition connect_failure :: "'e session_args \<Rightarrow> exc \<Rightarrow> string \<Rightarrow> exc \<Rightarrow> bool" where
  "connect_failure a e msg x \<longleftrightarrow>
     isinstance x ConnectFailedC \<and>
     (if isinstance e ConnectFailedC then x = e
      else exc_cause x = Some e \<and> attr_retryable x \<and>
        exc_str x = Inr (if tidy msg (dev_address (s_device a)) \<noteq> [] then tidy msg (dev_address (s_device a))
                          else class_name (exc_class e)))"

lemma establish_fails:
  assumes "refuses a e" and "isinstance e ExceptionC" and "exc_str e = Inr msg"
  shows "\<exists>x v'. establish a d v = (Raise x, v') \<and> live v' = live v \<and>
    x = (if isinstance e ConnectFailedC then e else connect_error (dev_address (s_device a)) e)"
proof -
  let ?nm = "case s_name a of Some n \<Rightarrow> if n \<noteq> [] then n else dev_address (s_device a) | None \<Rightarrow> dev_address (s_device a)"
  from assms(1) obtain v' where "s_establish a ?nm (d # s_callback a) v = (Raise e, v')" "live v' = live v"
    unfolding refuses_def by blast
  with assms(2) show ?thesis by (auto simp: establish_def Let_def catch_def throw_def)
qed

text \<open>
  C23: A connect that fails is the session's failure, at the stage "connect": an exception of the
  connector surfaces as \<open>ConnectFailed\<close> with its text (the doubled address dropped, or the class name
  when it has none) and the original as its cause, a \<open>ConnectFailed\<close> passes as it is, the block is
  never run, and the trace attributes the failure to the connect stage.
\<close>

theorem connect_failure_reported:
  assumes "refuses a e" and "isinstance e ExceptionC" and "exc_str e = Inr msg"
    and "s_client a = None" and "\<not> s_close_stale a" and "failed_stage (live w) = None"
  shows "\<exists>x w'. (\<forall>body. ble_session a body w = (Raise x, w')) \<and> connect_failure a e msg x
    \<and> fst (failure (live w') (Some x)) = Some CONNECT"
proof -
  let ?v = "snd (allocate w)"
  let ?u = "?v\<lparr>live := timed_enter CONNECT (live ?v)\<rparr>"
  obtain x v' where e: "establish a (fresh (mem w)) ?u = (Raise x, v')" "live v' = live ?u"
      and x: "x = (if isinstance e ConnectFailedC then e else connect_error (dev_address (s_device a)) e)"
    using establish_fails [OF assms(1-3)] by blast
  let ?w' = "v'\<lparr>live := timed_exit CONNECT True (now v' - now ?v) (live v')\<rparr>"
  have l: "live ?v = live w" by (simp add: allocate_def Let_def)
  have "timed_var CONNECT (connecting a (fresh (mem w)) None) ?v = ((Raise x, None), ?w')"
    using e(1) assms(5) by (simp add: timed_var_def connecting_def before_connect_def bind_def ret_def)
  then have "ble_session a body w = (Raise x, ?w')" for body
    using assms(4) by (simp add: ble_session_unfold Let_def open_session_def)
  moreover have "connect_failure a e msg x"
    using x assms(3) by (auto simp: connect_failure_def connect_error_def ConnectFailed_def isinstance_def issubclass_eval)
  moreover have "fst (failure (live ?w') (Some x)) = Some CONNECT"
    using assms(6) e(2) l by (auto simp: failure_def failed_primary_def failed_detail_def PRIMARY_def)
  ultimately show ?thesis by blast
qed

theorem connect_failure_reported_witness:
  "\<exists>x w'. ble_session (fake_session (Some (plain_exc BleakErrorC ''AA:BB - AA:BB: no slot''))) (\<lambda>_. ret ())
       (fake_world (FakeClient True)) = (Raise x, w') \<and> isinstance x ConnectFailedC
     \<and> exc_str x = Inr ''AA:BB: no slot''"
proof -
  let ?e = "plain_exc BleakErrorC ''AA:BB - AA:BB: no slot''"
  have t: "tidy ''AA:BB - AA:BB: no slot'' ''AA:BB'' = ''AA:BB: no slot''" by code_simp
  have r: "refuses (fake_session (Some ?e)) ?e"
    by (auto simp: refuses_def fake_session_def fake_connect_def raise_if_def bind_def throw_def)
  from connect_failure_reported [OF r, of "''AA:BB - AA:BB: no slot''" "fake_world (FakeClient True)"] t
  show ?thesis
    by (fastforce simp: fake_session_def fake_world_def idle_def new_trace_def FakeDevice_def connect_failure_def issubclass_eval
        isinstance_def)
qed

end
