(* ===== verification/SessionStages.thy ===== *)
theory SessionStages
  imports SessionLaws
begin

text \<open>
  Where the time of a session goes, and where its failure is put: what \<open>ble_session\<close> (\<open>session.py\<close>) does to
  the trace through its stages (\<open>SessionTrace.timed\<close> of \<open>trace.py\<close>), for every way it can end.  What is
  handed in leaves the stages alone (\<open>same_stages\<close>, a frame of RuntimeLaws; \<open>off_stage\<close>); the block may run
  stages of its own (\<open>minds_its_own\<close>).  Each part of a session books its time to a stage (\<open>booked\<close>), and the
  parts add up.
\<close>

section \<open>What leaves the stages of a trace alone\<close>

text \<open>Third-party code cannot know of the trace; the library's own notes change its facts and its link only.\<close>

definition same_stages :: "'m world \<Rightarrow> 'm world \<Rightarrow> bool" where
  "same_stages w w' \<longleftrightarrow>
     stage_stack (live w') = stage_stack (live w) \<and> raw_timings (live w') = raw_timings (live w)
     \<and> failed_stage (live w') = failed_stage (live w)"

interpretation stg: scoped_frame same_stages
  by unfold_locales (auto simp: same_stages_def push_scope_def pop_scope_def)

lemma same_stages_mem [simp]: "same_stages w (w\<lparr>mem := m\<rparr>)"
  by (simp add: same_stages_def)

definition own_stages :: "string set" where
  "own_stages = {CONNECT, SESSION, DISCONNECT}"

lemma own_stages_mem [simp]: "CONNECT \<in> own_stages" "SESSION \<in> own_stages" "DISCONNECT \<in> own_stages"
  by (simp_all add: own_stages_def)

text \<open>A block may run stages of its own and record failures, as long as it ends the stages it starts and
  uses other names.\<close>

definition own_untouched :: "'m world \<Rightarrow> 'm world \<Rightarrow> bool" where
  "own_untouched w w' \<longleftrightarrow>
     stage_stack (live w') = stage_stack (live w) \<and> (\<forall>n \<in> own_stages. seconds_of (live w') n = seconds_of (live w) n)"

lemma same_own: "same_stages w w' \<Longrightarrow> own_untouched w w'"
  by (simp add: same_stages_def own_untouched_def seconds_of_def)

definition minds_its_own :: "('a, 'm) co \<Rightarrow> bool" where
  "minds_its_own f \<longleftrightarrow> (\<forall>w r w'. f w = (r, w') \<and> r \<noteq> Hang \<longrightarrow> own_untouched w w')"

lemma same_minds: "keeps same_stages f \<Longrightarrow> minds_its_own f"
  unfolding minds_its_own_def by (blast intro: same_own keepsD)

lemma minds_bind: "minds_its_own f \<Longrightarrow> (\<And>x. minds_its_own (g x)) \<Longrightarrow> minds_its_own (bind f g)"
  unfolding minds_its_own_def bind_def own_untouched_def
  by (auto split: prod.splits outcome.splits)

section \<open>What the stages of a session book\<close>

definition own_seconds :: "session_trace \<Rightarrow> seconds" where
  "own_seconds t = seconds_of t CONNECT + seconds_of t SESSION + seconds_of t DISCONNECT"

text \<open>All the time between two worlds went to the stages in \<open>ns\<close>.\<close>

definition booked :: "string set \<Rightarrow> 'm world \<Rightarrow> 'm world \<Rightarrow> bool" where
  "booked ns w w' \<longleftrightarrow>
     stage_stack (live w') = stage_stack (live w)
     \<and> own_seconds (live w') = own_seconds (live w) + (now w' - now w)
     \<and> (\<forall>n \<in> own_stages - ns. seconds_of (live w') n = seconds_of (live w) n)"

lemma booked_trans: "booked ms u v \<Longrightarrow> booked ns v w \<Longrightarrow> booked (ms \<union> ns) u w"
  by (simp add: booked_def)

lemma booked_instant: "same_stages w w' \<Longrightarrow> now w' = now w \<Longrightarrow> booked {} w w'"
  by (simp add: same_stages_def booked_def own_seconds_def seconds_of_def)

lemma booked_stage:
  assumes "own_untouched (w\<lparr>live := timed_enter n (live w)\<rparr>) v" and "n \<in> own_stages"
  shows "booked {n} w (v\<lparr>live := timed_exit n b (now v - now w) (live v)\<rparr>)"
proof -
  have s: "seconds_of (timed_exit n b s t) m = seconds_of t m + (if m = n then s else 0)" for s t m
    using seconds_of_add [of n s t m] timed_exit_timings [of n b s t] by (simp add: seconds_of_def)
  have e: "seconds_of (timed_enter n t) m = seconds_of t m" for t m by (simp add: seconds_of_def)
  from assms show ?thesis
    by (auto simp: booked_def own_untouched_def own_seconds_def own_stages_def s e CONNECT_def SESSION_def DISCONNECT_def)
qed

text \<open>One stage of the session: its time, and where a failure is put.\<close>

lemma timed_books:
  assumes "timed n f w = (r, w')" and "minds_its_own f" and "n \<in> own_stages" and "r \<noteq> Hang"
  shows "booked {n} w w' \<and> (is_raise r \<longrightarrow> failed_stage (live w') \<noteq> None)"
proof -
  obtain x v where f: "f (w\<lparr>live := timed_enter n (live w)\<rparr>) = (x, v)"
    by (cases "f (w\<lparr>live := timed_enter n (live w)\<rparr>)")
  with assms(1,4) have "x = r" "w' = v\<lparr>live := timed_exit n (is_raise r) (now v - now w) (live v)\<rparr>"
    by (cases x; auto simp: timed_def)+
  moreover from f calculation(1) assms(2,4) have "own_untouched (w\<lparr>live := timed_enter n (live w)\<rparr>) v"
    unfolding minds_its_own_def by blast
  ultimately show ?thesis using booked_stage assms(3) by (auto split: option.split)
qed

lemma timed_fails_at:
  assumes "timed n f w = (r, w')" and "keeps same_stages f" and "r \<noteq> Hang"
  shows "failed_stage (live w') =
    (case failed_stage (live w) of Some s \<Rightarrow> Some s | None \<Rightarrow> if is_raise r then Some n else None)"
proof -
  obtain x v where f: "f (w\<lparr>live := timed_enter n (live w)\<rparr>) = (x, v)"
    by (cases "f (w\<lparr>live := timed_enter n (live w)\<rparr>)")
  with assms(1,3) have "x = r" "w' = v\<lparr>live := timed_exit n (is_raise r) (now v - now w) (live v)\<rparr>"
    by (cases x; auto simp: timed_def)+
  with keepsD [OF assms(2) f] show ?thesis by (simp add: same_stages_def split: option.split)
qed

section \<open>The parts of a session\<close>

text \<open>What the session is given opens links to \<open>c\<close> and leaves the stages alone.\<close>

definition off_stage :: "'e session_args \<Rightarrow> 'e client \<Rightarrow> bool" where
  "off_stage a c \<longleftrightarrow>
     (\<forall>nm cb. keeps same_stages (s_establish a nm cb)) \<and>
     (\<forall>nm cb v c' v'. s_establish a nm cb v = (Return c', v') \<longrightarrow> c' = c) \<and>
     (\<forall>addr. keeps same_stages (s_close_stale_connections a addr)) \<and>
     (case s_client a of None \<Rightarrow> True | Some c' \<Rightarrow> c' = c) \<and>
     keeps same_stages (c_disconnect c) \<and> (\<forall>v e. c_mtu_size c v = Inl e \<longrightarrow> isinstance e ExceptionC)"

lemma note_live_same: "keeps same_stages (note_live k v)"
  by (simp add: keeps_def note_live_def update_def same_stages_def del: note_facts.simps)

lemma close_link_same: "off_stage a c \<Longrightarrow> keeps same_stages (close_link c t what)"
  unfolding close_link_def
  by (intro stg.keeps_catch stg.keeps_bounded)
    (auto simp: off_stage_def note_live_same stg.keeps_throw split: sum.split)

lemma before_connect_same:
  assumes "off_stage a c"
  shows "keeps same_stages (before_connect a (s_client a))"
proof -
  have "s_client a = None \<or> s_client a = Some c" using assms by (auto simp: off_stage_def split: option.splits)
  moreover have "keeps same_stages (s_close_stale_connections a addr)" for addr using assms by (simp add: off_stage_def)
  ultimately show ?thesis
    unfolding before_connect_def by (intro stg.keeps_bind) (auto simp: stg.keeps_ret close_link_same [OF assms])
qed

lemma establish_same: "off_stage a c \<Longrightarrow> keeps same_stages (establish a d)"
  unfolding establish_def Let_def by (rule stg.keeps_catch) (auto simp: off_stage_def stg.keeps_throw)

lemma change_same: "keeps same_stages (change f)"
  by (simp add: keeps_def change_def update_def)

lemma opened_same: "keeps same_stages (opened a d c)"
proof -
  have "keeps same_stages (wait_event d)"
    using stg.keeps_park by (auto simp: keeps_def wait_event_def stg.R_refl)
  then have "keeps same_stages (settle c s d)" for s by (rule keeps_settle [OF stg.scoped_frame_axioms])
  moreover have "keeps same_stages (watch_drops c d)" by (simp add: watch_drops_def change_same stg.keeps_ret)
  moreover have "keeps same_stages (set_link c (s_device a))"
    by (simp add: keeps_def set_link_def update_def same_stages_def)
  ultimately show ?thesis
    unfolding opened_def by (intro stg.keeps_bind) (simp_all add: change_same stg.keeps_ret)
qed

lemma establish_hands_over: "off_stage a c \<Longrightarrow> establish a d w = (Return c', w') \<Longrightarrow> c' = c"
  by (fastforce simp: off_stage_def establish_def Let_def catch_def throw_def split: prod.splits outcome.splits if_splits)

lemma connecting_same:
  assumes "off_stage a c" and "connecting a d (s_client a) w = ((r, x), w')"
  shows "same_stages w w' \<and> (x = None \<or> x = Some c) \<and> (r = Return () \<longrightarrow> x = Some c)"
proof -
  let ?f = "bind (before_connect a (s_client a)) (\<lambda>_. establish a d)"
  obtain z v where z: "?f w = (z, v)" by (cases "?f w")
  have s: "same_stages w v"
    by (rule keepsD [OF stg.keeps_bind [OF before_connect_same establish_same] z]) (rule assms(1))+
  show ?thesis
  proof (cases z)
    case (Return c')
    then have "c' = c" using z establish_hands_over [OF assms(1)] by (auto simp: bind_def split: prod.splits outcome.splits)
    moreover obtain r1 v1 where o1: "opened a d c' v = (r1, v1)" by (cases "opened a d c' v")
    ultimately show ?thesis
      using assms(2) z Return stg.R_trans [OF s keepsD [OF opened_same o1]] by (simp add: connecting_def)
  qed (use assms(2) z s in \<open>auto simp: connecting_def\<close>)
qed

text \<open>The close at the end.\<close>

lemma note_mtu_returns:
  assumes "off_stage a c" and "note_mtu c w = (r, w')"
  shows "r = Return () \<and> same_stages w w' \<and> now w' = now w"
proof -
  have "isinstance e ExceptionC" if "c_mtu_size c v = Inl e" for v e using assms(1) that by (simp add: off_stage_def)
  with assms(2) show ?thesis
    by (auto simp: note_mtu_def reported_mtu_def note_live_def update_def same_stages_def stg.R_refl
        simp del: note_facts.simps split: if_splits sum.splits option.splits prod.splits)
qed

lemma close_up_books:
  assumes "off_stage a c" and "close_up a c h w = (r, w')" and "r \<noteq> Hang"
  shows "booked (if s_keep a \<and> h then {} else {DISCONNECT}) w w'
    \<and> failed_stage (live w') =
      (case failed_stage (live w) of Some s \<Rightarrow> Some s | None \<Rightarrow> if is_raise r then Some DISCONNECT else None)"
proof -
  let ?first = "if h then note_mtu c else ret ()"
  let ?close = "timed DISCONNECT (close_link c (s_disconnect_timeout_s a) ''disconnect'')"
  obtain x v where m: "?first w = (x, v)" by (cases "?first w")
  with note_mtu_returns [OF assms(1), of w x v] have x: "x = Return ()" "same_stages w v" "now v = now w"
    by (auto simp: ret_def stg.R_refl split: if_splits)
  show ?thesis
  proof (cases "s_keep a \<and> h")
    case True
    with assms(2) m x(1) have "r = Return ()" "w' = v" by (auto simp: close_up_def bind_def ret_def)
    with True booked_instant [OF x(2,3)] x(2) show ?thesis by (simp add: same_stages_def split: option.split)
  next
    case False
    with assms(2) m x(1) have run: "?close v = (r, w')" by (auto simp: close_up_def bind_def)
    note same = close_link_same [OF assms(1)]
    from timed_books [OF run same_minds [OF same] _ assms(3)] have "booked {DISCONNECT} v w'" by simp
    from booked_trans [OF booked_instant [OF x(2,3)] this] timed_fails_at [OF run same assms(3)] x(2) False
    show ?thesis by (auto simp: same_stages_def)
  qed
qed

lemma finally_books:
  assumes "off_stage a c" and "finally_do f (close_up a c h) w = (r, w')" and "r \<noteq> Hang"
    and "\<And>x v. f w = (x, v) \<Longrightarrow> x \<noteq> Hang \<Longrightarrow> booked ns w v \<and> (is_raise x \<longrightarrow> failed_stage (live v) \<noteq> None)"
  shows "booked (ns \<union> (if s_keep a \<and> h then {} else {DISCONNECT})) w w'
    \<and> (is_raise r \<longrightarrow> failed_stage (live w') \<noteq> None)"
proof -
  obtain x v where f: "f w = (x, v)" by (cases "f w")
  obtain y u where c: "close_up a c h v = (y, u)" by (cases "close_up a c h v")
  from assms(2,3) f c have e: "x \<noteq> Hang" "y \<noteq> Hang" "w' = u" "is_raise r \<longleftrightarrow> is_raise y \<or> is_raise x"
    by (auto simp: finally_do_def split: outcome.splits)
  from close_up_books [OF assms(1) c e(2)] assms(4) [OF f e(1)] e(3,4) booked_trans [of ns w v _ u]
  show ?thesis by (auto split: option.splits)
qed

lemma connect_books:
  assumes "off_stage a c" and "timed_var CONNECT (connecting a d (s_client a)) w = ((r, x), w')" and "r \<noteq> Hang"
  shows "booked {CONNECT} w w' \<and> (x = None \<or> x = Some c) \<and> (r = Return () \<longrightarrow> x = Some c)
    \<and> failed_stage (live w') =
      (case failed_stage (live w) of Some s \<Rightarrow> Some s | None \<Rightarrow> if is_raise r then Some CONNECT else None)"
proof -
  let ?w = "w\<lparr>live := timed_enter CONNECT (live w)\<rparr>"
  obtain y z v where f: "connecting a d (s_client a) ?w = ((y, z), v)"
    by (cases "connecting a d (s_client a) ?w") auto
  with assms(2,3) have e: "y = r" "z = x" "w' = v\<lparr>live := timed_exit CONNECT (is_raise r) (now v - now w) (live v)\<rparr>"
    by (cases y; auto simp: timed_var_def)+
  note c = connecting_same [OF assms(1) f]
  from booked_stage [OF same_own, where w = w and n = CONNECT and v = v] c e show ?thesis by (auto simp: same_stages_def split: option.split)
qed

lemma session_block_books:
  assumes "off_stage a c" and "minds_its_own f"
    and "finally_do (timed SESSION f) (close_up a c True) w = (r, w')" and "r \<noteq> Hang"
  shows "booked ({SESSION} \<union> (if s_keep a then {} else {DISCONNECT})) w w' \<and> (is_raise r \<longrightarrow> failed_stage (live w') \<noteq> None)"
proof -
  have "booked {SESSION} w v \<and> (is_raise x \<longrightarrow> failed_stage (live v) \<noteq> None)"
    if "timed SESSION f w = (x, v)" "x \<noteq> Hang" for x v
    using timed_books [OF that(1) assms(2) _ that(2)] by simp
  from finally_books [OF assms(1,3,4) this] show ?thesis by simp
qed

lemma connect_fails_books:
  assumes "off_stage a c" and "x = None \<and> (r, w') = (Raise e, u) \<or> x = Some c \<and> finally_do (throw e) (close_up a c False) u = (r, w')"
    and "failed_stage (live u) = Some s" and "r \<noteq> Hang"
  shows "booked {DISCONNECT} u w' \<and> failed_stage (live w') = Some s"
  using assms(2)
proof
  assume "x = None \<and> (r, w') = (Raise e, u)"
  with assms(3) show ?thesis by (simp add: booked_def)
next
  assume "x = Some c \<and> finally_do (throw e) (close_up a c False) u = (r, w')"
  then have run: "finally_do (throw e) (close_up a c False) u = (r, w')" by simp
  then obtain y where y: "close_up a c False u = (y, w')" "y \<noteq> Hang"
    using assms(4) by (cases "close_up a c False u") (auto simp: finally_do_def throw_def split: outcome.splits)
  from close_up_books [OF assms(1) y] assms(3) show ?thesis by simp
qed

text \<open>The stages a session goes through: a link that is reused is not connected, a block that is never
  reached has no time, and a link that is kept once the block has it is not closed.\<close>

definition stages_run :: "'e session_args \<Rightarrow> 'e shared world \<Rightarrow> string set" where
  "stages_run a w =
     (let reached = (block_start a w \<noteq> None)
      in (if still_up (s_client a) w then {} else {CONNECT}) \<union> (if reached then {SESSION} else {})
         \<union> (if s_keep a \<and> reached then {} else {DISCONNECT}))"

definition session_books :: "'e session_args \<Rightarrow> 'e shared world \<Rightarrow> 'a outcome \<Rightarrow> 'e shared world \<Rightarrow> bool" where
  "session_books a w r w' \<longleftrightarrow>
     booked (stages_run a w) w w' \<and> (is_raise r \<longrightarrow> failed_stage (live w') \<noteq> None)
     \<and> (block_start a w = None \<and> failed_stage (live w) = None \<longrightarrow> failed_stage (live w') = Some CONNECT)"

lemma allocate_instant: "booked {} w (snd (allocate w))" "live (snd (allocate w)) = live w"
  by (simp_all add: allocate_def Let_def booked_def)

lemma reuse_books:
  assumes "off_stage a c" and "minds_its_own (body c)" and "still_up (s_client a) w" and "s_client a = Some c"
    and "ble_session a body w = (r, w')" and "r \<noteq> Hang"
  shows "session_books a w r w'"
proof -
  let ?v = "snd (allocate w)"
  let ?u = "snd (set_link c (s_device a) (snd (note_live ''reused'' (PyBool True) ?v)))"
  have "ble_session a body w = reuse_session a c body ?v" using assms(3,4) by (simp add: ble_session_unfold Let_def)
  also have "\<dots> = finally_do (timed SESSION (body c)) (close_up a c True) ?u"
    by (simp add: reuse_session_def finally_do_def bind_def note_live_def set_link_def update_def del: note_facts.simps)
  finally have run: "finally_do (timed SESSION (body c)) (close_up a c True) ?u = (r, w')" using assms(5) by simp
  have u: "booked {} w ?u"
    by (rule booked_instant)
      (simp_all add: same_stages_def allocate_def Let_def note_live_def set_link_def update_def del: note_facts.simps)
  have "block_start a w \<noteq> None" using assms(3,4) by (simp add: block_start_def Let_def)
  with session_block_books [OF assms(1,2) run assms(6)] booked_trans [OF u] assms(3) show ?thesis
    by (auto simp: session_books_def stages_run_def)
qed

lemma open_books:
  assumes "off_stage a c" and "minds_its_own (body c)" and "\<not> still_up (s_client a) w"
    and "ble_session a body w = (r, w')" and "r \<noteq> Hang"
  shows "session_books a w r w'"
proof -
  let ?v = "snd (allocate w)"
  obtain y x u where t: "timed_var CONNECT (connecting a (fresh (mem w)) (s_client a)) ?v = ((y, x), u)"
    by (cases "timed_var CONNECT (connecting a (fresh (mem w)) (s_client a)) ?v") auto
  have run: "open_session a (fresh (mem w)) (s_client a) body ?v = (r, w')"
    using assms(3,4) by (cases "s_client a") (simp_all add: ble_session_unfold Let_def)
  with t assms(5) have "y \<noteq> Hang" by (auto simp: open_session_def)
  note u = connect_books [OF assms(1) t this]
  have b: "booked {CONNECT} w u" using booked_trans [OF allocate_instant(1)] u by fastforce
  show ?thesis
  proof (cases y)
    case (Return z)
    with u have x: "x = Some c" by simp
    with Return run t have f: "finally_do (timed SESSION (body c)) (close_up a c True) u = (r, w')"
      by (simp add: open_session_def)
    have "block_start a w \<noteq> None" using t Return x assms(3) by (simp add: block_start_def Let_def)
    with session_block_books [OF assms(1,2) f assms(5)] booked_trans [OF b] assms(3) show ?thesis
      by (auto simp: session_books_def stages_run_def)
  next
    case (Raise e)
    with run t u have f: "x = None \<and> (r, w') = (Raise e, u) \<or> x = Some c \<and> finally_do (throw e) (close_up a c False) u = (r, w')"
      by (auto simp: open_session_def)
    have s: "failed_stage (live u) = Some (case failed_stage (live w) of Some s \<Rightarrow> s | None \<Rightarrow> CONNECT)"
      using u Raise allocate_instant(2) [of w] by (simp split: option.split)
    have "block_start a w = None" using t Raise assms(3) by (simp add: block_start_def Let_def)
    with connect_fails_books [OF assms(1) f s assms(5)] booked_trans [OF b] assms(3) show ?thesis
      by (auto simp: session_books_def stages_run_def)
  qed (use \<open>y \<noteq> Hang\<close> in simp)
qed

section \<open>Properties\<close>

text \<open>
  C12: The trace of a session accounts for all of its time.  However the session ends, every stage it
  entered was left and the seconds of connect, session and disconnect add up to the time that passed,
  the stages of the block itself being counted inside "session".  No time is put on a connect that was
  spared by a reused link, on a block that was never reached or on a close that was not due; a session
  that fails leaves a failed stage, which is "connect" when the block was never reached.
\<close>

theorem session_accounts_for_time:
  assumes "off_stage a c" and "minds_its_own (body c)" and "ble_session a body w = (r, w')" and "r \<noteq> Hang"
  shows "let t = live w; t' = live w' in
    stage_stack t' = stage_stack t \<and> own_seconds t' = own_seconds t + (now w' - now w)
    \<and> (still_up (s_client a) w \<longrightarrow> seconds_of t' CONNECT = seconds_of t CONNECT)
    \<and> (block_start a w = None \<longrightarrow> seconds_of t' SESSION = seconds_of t SESSION)
    \<and> (s_keep a \<and> block_start a w \<noteq> None \<longrightarrow> seconds_of t' DISCONNECT = seconds_of t DISCONNECT)
    \<and> (is_raise r \<longrightarrow> failed_stage t' \<noteq> None)
    \<and> (block_start a w = None \<and> failed_stage t = None \<longrightarrow> failed_stage t' = Some CONNECT)"
proof -
  have "session_books a w r w'"
  proof (cases "still_up (s_client a) w")
    case True
    then obtain c' where "s_client a = Some c'" by (cases "s_client a") (simp_all add: still_up_def)
    with assms(1) have "s_client a = Some c" by (simp add: off_stage_def)
    from reuse_books [OF assms(1,2) True this assms(3,4)] show ?thesis .
  qed (rule open_books [OF assms(1,2) _ assms(3,4)])
  moreover have "CONNECT \<noteq> SESSION" "CONNECT \<noteq> DISCONNECT" "SESSION \<noteq> DISCONNECT"
    by (simp_all add: CONNECT_def SESSION_def DISCONNECT_def)
  ultimately show ?thesis by (auto simp: session_books_def booked_def stages_run_def Let_def)
qed

lemma timed_minds_its_own:
  assumes "keeps same_stages f" and "n \<notin> own_stages"
  shows "minds_its_own (timed n f)"
  unfolding minds_its_own_def
proof (intro allI impI)
  fix w r w'
  assume "timed n f w = (r, w') \<and> r \<noteq> Hang"
  moreover obtain x v where run: "f (w\<lparr>live := timed_enter n (live w)\<rparr>) = (x, v)"
    by (cases "f (w\<lparr>live := timed_enter n (live w)\<rparr>)")
  ultimately have "w' = v\<lparr>live := timed_exit n (is_raise r) (now v - now w) (live v)\<rparr>"
    by (cases x) (auto simp: timed_def)
  with keepsD [OF assms(1) run] assms(2) show "own_untouched w w'"
    using seconds_of_add [of n "now v - now w" "live v"] timed_exit_timings [of n "is_raise r" "now v - now w" "live v"]
    by (auto simp: own_untouched_def same_stages_def seconds_of_def)
qed

lemma fake_same: "keeps same_stages (fake_connect i on_write given fail cb)" "keeps same_stages fake_disconnect"
proof -
  have r: "keeps same_stages (raise_if e :: (unit, fake) ble)" "keeps same_stages (pause_if d :: (unit, fake) ble)" for e d
    by (auto simp: raise_if_def pause_if_def stg.keeps_ret stg.keeps_throw stg.keeps_sleep split: option.split)
  then have "keeps same_stages (reading disconnect_delay_s pause_if)" "keeps same_stages (reading fail_disconnect raise_if)"
    by (simp_all add: keeps_def reading_def)
  with r show "keeps same_stages (fake_connect i on_write given fail cb)" "keeps same_stages fake_disconnect"
    unfolding fake_connect_def fake_disconnect_def by (intro stg.keeps_bind; simp add: change_same stg.keeps_ret)+
qed

lemma fake_off_stage: "off_stage (fake_session fail) (fake_client 1 None)"
  by (auto simp: off_stage_def fake_session_def fake_same fake_client_def stg.keeps_ret)
    (auto simp: fake_connect_def fake_client_def bind_def ret_def raise_if_def throw_def change_def update_def split: option.splits)

text \<open>A block of two seconds, half of them in a stage of its own that fails, and a close of three.\<close>

definition two_steps :: "fake client \<Rightarrow> (unit, fake) ble" where
  "two_steps c = bind (sleep 1) (\<lambda>_. timed ''auth'' (bind (sleep 1) (\<lambda>_. throw (DeviceError ''no'' PyNone None None None))))"

theorem session_accounts_for_time_witness:
  "let t = live (snd (ble_session (fake_session None) two_steps (fake_world ((FakeClient True)\<lparr>disconnect_delay_s := 3\<rparr>))))
   in stage_stack t = [] \<and> own_seconds t = 5 \<and> failed_stage t \<noteq> None"
proof -
  let ?w = "fake_world ((FakeClient True)\<lparr>disconnect_delay_s := 3\<rparr>)"
  obtain r w' where run: "ble_session (fake_session None) two_steps ?w = (r, w')"
    by (cases "ble_session (fake_session None) two_steps ?w")
  have "is_raise (fst (ble_session (fake_session None) two_steps ?w)) \<and> now (snd (ble_session (fake_session None) two_steps ?w)) = 5"
    by code_simp
  with run have r: "is_raise r" "now w' = 5" by auto
  then have "r \<noteq> Hang" by auto
  have own: "own_seconds (live ?w) = 0" "stage_stack (live ?w) = []" "now ?w = 0"
    by (simp_all add: fake_world_def idle_def new_trace_def own_seconds_def seconds_of_def)
  have "minds_its_own (two_steps (fake_client 1 None))" 
    unfolding two_steps_def
    by (intro minds_bind timed_minds_its_own same_minds [OF stg.keeps_sleep] stg.keeps_bind stg.keeps_sleep stg.keeps_throw)
      (simp add: own_stages_def CONNECT_def SESSION_def DISCONNECT_def)
  from session_accounts_for_time [OF fake_off_stage this run \<open>r \<noteq> Hang\<close>] r own run show ?thesis by (simp add: Let_def)
qed

end
