(* ===== verification/Notifications.thy ===== *)
theory Notifications
  imports Subscribe
begin

text \<open>
  Notifications of one characteristic (\<open>src/src/blesession/notifications.py\<close>): the queue the handler
  fills, the waits that name their step, and the subscription around them.
\<close>

text \<open>\<open>n_race\<close> stands for the scheduler, where things happen at once: when a cancellation arrives together
  with a frame, whether the inner \<open>get\<close> task had already taken the frame from the queue; when the link
  drops together with a frame, whether the drop came first and ended the wait.  The theory WaitTasks
  models the inner tasks and shows that these are all the outcomes there are.\<close>

record 'e notif =
  n_client :: "'e client"
  n_char :: string
  n_settle :: seconds
  n_dropped :: "nat option"
  n_queue :: nat
  n_recover :: bool
  n_race :: "seconds \<Rightarrow> 'e shared \<Rightarrow> bool"

definition Notifications ::
  "'e client \<Rightarrow> string \<Rightarrow> seconds \<Rightarrow> nat option \<Rightarrow> bool \<Rightarrow> (seconds \<Rightarrow> 'e shared \<Rightarrow> bool)
    \<Rightarrow> ('e notif, 'e) ble" where
  "Notifications c characteristic settle_s dropped recovering race w =
     (let d = (case dropped of Some d \<Rightarrow> Some d | None \<Rightarrow> dropped_event c w)
      in bind allocate (\<lambda>q.
           ret \<lparr>n_client = c, n_char = characteristic, n_settle = settle_s, n_dropped = d, n_queue = q,
                n_recover = recovering, n_race = race\<rparr>) w)"

section \<open>The subscription\<close>

definition stop_notifications :: "'e notif \<Rightarrow> (unit, 'e) ble" where
  "stop_notifications n = stop_notify_best_effort (n_client n) (n_char n) None"

definition start_notifications :: "'e notif \<Rightarrow> (unit, 'e) ble" where
  "start_notifications n =
     bind (if n_recover n
           then start_notify_with_recovery (n_client n) (n_char n) (n_queue n) NOTIFY_ATTEMPTS
           else c_start_notify (n_client n) (n_char n) (n_queue n)) (\<lambda>_.
       catch (if n_settle n \<noteq> 0 then sleep (n_settle n) else ret ()) (\<lambda>_. True)
         (\<lambda>e. bind (stop_notifications n) (\<lambda>_. throw e)))"

definition with_notifications :: "'e notif \<Rightarrow> ('a, 'e) ble \<Rightarrow> ('a, 'e) ble" where
  "with_notifications n body = bind (start_notifications n) (\<lambda>_. finally_do body (stop_notifications n))"

section \<open>The queue\<close>

definition set_queue :: "nat \<Rightarrow> bytes list \<Rightarrow> 'e shared \<Rightarrow> 'e shared" where
  "set_queue q xs m = m\<lparr>queues := (queues m)(q := xs)\<rparr>"

abbreviation frames :: "'e notif \<Rightarrow> 'e shared world \<Rightarrow> bytes list" where
  "frames n w \<equiv> queue_of w (n_queue n)"

definition left_with :: "'e notif \<Rightarrow> bytes list \<Rightarrow> 'e shared world \<Rightarrow> 'e shared world" where
  "left_with n xs w = w\<lparr>mem := set_queue (n_queue n) xs (mem w)\<rparr>"

definition pending_count :: "'e notif \<Rightarrow> 'e shared world \<Rightarrow> nat" where
  "pending_count n w = length (frames n w)"

definition clear_frames :: "'e notif \<Rightarrow> (bytes list, 'e) ble" where
  "clear_frames n w = (Return (frames n w), left_with n [] w)"

definition requeue_first :: "'e notif \<Rightarrow> bytes \<Rightarrow> 'e shared world \<Rightarrow> 'e shared world" where
  "requeue_first n data w =
     (let rest = frames n w
      in fold (\<lambda>item v. v\<lparr>mem := put_frame (n_queue n) item (mem v)\<rparr>) (data # rest) (left_with n [] w))"

section \<open>One wait\<close>

definition link_gone :: "string \<Rightarrow> exc" where
  "link_gone step = SessionDropped (''The link dropped while waiting for '' @ step) (Some step)"

lemma isinstance_link_gone [simp]: "isinstance (link_gone step) c = issubclass SessionDroppedC c"
  by (simp add: link_gone_def)

text \<open>The \<open>finally\<close> of \<open>_next\<close> when the wait was cancelled: a frame the inner task took is put back.\<close>

definition give_back :: "'e notif \<Rightarrow> 'e shared world \<Rightarrow> 'e shared world" where
  "give_back n w =
     (if n_race n (now w) (mem w) then (case frames n w of [] \<Rightarrow> w | x # xs \<Rightarrow> requeue_first n x (left_with n xs w)) else w)"

text \<open>What the wait finds when it wakes: the frame, or the drop.\<close>

definition after_wait :: "'e notif \<Rightarrow> string \<Rightarrow> nat \<Rightarrow> (bytes, 'e) ble" where
  "after_wait n step d w =
     (if is_set w d \<and> n_race n (now w) (mem w) then (Raise (link_gone step), w)
      else case frames n w of
        x # xs \<Rightarrow> (Return x, left_with n xs w)
      | [] \<Rightarrow> (Raise (link_gone step), w))"

definition next_frame :: "'e notif \<Rightarrow> string \<Rightarrow> (bytes, 'e) ble" where
  "next_frame n step w =
     (case frames n w of
        x # xs \<Rightarrow> (Return x, left_with n xs w)
      | [] \<Rightarrow>
          (case n_dropped n of
             None \<Rightarrow>
               (case park None (\<lambda>w. frames n w \<noteq> []) w of
                  (Return _, w') \<Rightarrow> (Return (hd (frames n w')), left_with n (tl (frames n w')) w')
                | (Raise e, w') \<Rightarrow> (Raise e, w')
                | (Hang, w') \<Rightarrow> (Hang, w'))
           | Some d \<Rightarrow>
               if is_set w d then (Raise (link_gone step), w)
               else
                 (case park None (\<lambda>w. frames n w \<noteq> [] \<or> is_set w d) w of
                    (Return _, w') \<Rightarrow> after_wait n step d w'
                  | (Raise e, w') \<Rightarrow> (Raise e, give_back n w')
                  | (Hang, w') \<Rightarrow> (Hang, w'))))"

definition next_reply :: "'e notif \<Rightarrow> seconds \<Rightarrow> string \<Rightarrow> (bytes, 'e) ble" where
  "next_reply n timeout step =
     catch (bounded (Some timeout) (next_frame n step)) (\<lambda>e. isinstance e TimeoutErrorC)
       (\<lambda>e. throw (with_cause (NotificationTimeout timeout step None) e))"

section \<open>What a wait does to the queue\<close>

text \<open>What a change of the memory from outside appends to a queue: a notification its data, the drop of the
  link nothing.  \<open>arrive q used xs\<close>: the signals \<open>used\<close> bring the frames \<open>xs\<close>, in this order.\<close>

definition appends :: "nat \<Rightarrow> ('e shared \<Rightarrow> 'e shared) \<Rightarrow> bytes list \<Rightarrow> bool" where
  "appends q f xs \<longleftrightarrow> (\<forall>m. queues (f m) q = queues m q @ xs)"

fun arrive :: "nat \<Rightarrow> (seconds \<times> 'e shared signal) list \<Rightarrow> bytes list \<Rightarrow> bool" where
  "arrive q [] xs \<longleftrightarrow> xs = []"
| "arrive q ((t, s) # rest) xs \<longleftrightarrow>
     (case s of
        Change f \<Rightarrow> \<exists>ys zs. appends q f ys \<and> arrive q rest zs \<and> xs = ys @ zs
      | _ \<Rightarrow> arrive q rest xs)"

lemma arrive_append: "arrive q (us @ vs) xs \<longleftrightarrow> (\<exists>ys zs. arrive q us ys \<and> arrive q vs zs \<and> xs = ys @ zs)"
proof (induction us arbitrary: xs)
  case (Cons p us)
  obtain t s where "p = (t, s)" by (cases p)
  with Cons show ?case by (cases s) (auto, (metis append.assoc)+)
qed simp

lemma arrive_prefix: "arrive q (us @ vs) xs \<Longrightarrow> \<exists>ys. arrive q us ys"
  by (auto simp: arrive_append)

text \<open>A wait that takes nothing: the queue gains what the signals it used brought, and nothing else.\<close>

definition queue_frame :: "nat \<Rightarrow> 'e shared world \<Rightarrow> 'e shared world \<Rightarrow> bool" where
  "queue_frame q w w' \<longleftrightarrow>
     (\<exists>used. agenda w = used @ agenda w' \<and> (\<forall>xs. arrive q used xs \<longrightarrow> queue_of w' q = queue_of w q @ xs))"

lemma fold_deliver_queue:
  "arrive q used xs \<Longrightarrow> queue_of (fold (\<lambda>(_, s). deliver s) used w) q = queue_of w q @ xs"
proof (induction used arbitrary: w xs)
  case (Cons p used)
  obtain t s where p: "p = (t, s)" by (cases p)
  show ?case
  proof (cases s)
    case (Change f)
    with Cons.prems p obtain ys zs where ys: "appends q f ys" "arrive q used zs" "xs = ys @ zs" by auto
    from Cons.IH [OF ys(2), of "deliver s w"] ys(1,3) p Change show ?thesis by (simp add: appends_def)
  qed (use Cons p in auto)
qed simp

lemma queue_frame_advance: "queue_frame q w (advance t w)"
proof -
  let ?P = "\<lambda>(s, _). s \<le> t"
  have "queue_of (advance t w) q = queue_of w q @ xs" if "arrive q (takeWhile ?P (agenda w)) xs" for xs
    using fold_deliver_queue [OF that, of "w\<lparr>now := t, agenda := dropWhile ?P (agenda w)\<rparr>"]
    by (simp add: advance_def fire_due_def deliver_due_def)
  then show ?thesis
    unfolding queue_frame_def by (intro exI [of _ "takeWhile ?P (agenda w)"]) simp
qed

text \<open>Between \<open>w\<close> and \<open>w'\<close> the frames \<open>xs\<close> were handed out: what was queued and what came meanwhile, in
  this order, is what was handed out and what is left.\<close>

definition delivers :: "'e notif \<Rightarrow> 'e shared world \<Rightarrow> bytes list \<Rightarrow> 'e shared world \<Rightarrow> bool" where
  "delivers n w xs w' \<longleftrightarrow>
     (\<exists>used. agenda w = used @ agenda w' \<and>
        (\<forall>ys. arrive (n_queue n) used ys \<longrightarrow> frames n w @ ys = xs @ frames n w'))"

lemma delivers_trans:
  assumes "delivers n u xs v" and "delivers n v ys w"
  shows "delivers n u (xs @ ys) w"
proof -
  from assms obtain us vs where us: "agenda u = us @ agenda v" "\<And>as. arrive (n_queue n) us as \<Longrightarrow> frames n u @ as = xs @ frames n v"
    and vs: "agenda v = vs @ agenda w" "\<And>as. arrive (n_queue n) vs as \<Longrightarrow> frames n v @ as = ys @ frames n w"
    unfolding delivers_def by metis
  have "frames n u @ as = (xs @ ys) @ frames n w" if as: "arrive (n_queue n) (us @ vs) as" for as
  proof -
    from as obtain bs cs where bs: "arrive (n_queue n) us bs" "arrive (n_queue n) vs cs" "as = bs @ cs"
      by (auto simp: arrive_append)
    have "frames n u @ as = (frames n u @ bs) @ cs" using bs(3) by simp
    also have "\<dots> = xs @ (frames n v @ cs)" using us(2) [OF bs(1)] by simp
    also have "\<dots> = (xs @ ys) @ frames n w" using vs(2) [OF bs(2)] by simp
    finally show ?thesis .
  qed
  with us(1) vs(1) show ?thesis unfolding delivers_def by (intro exI [of _ "us @ vs"]) simp
qed

lemma delivers_queue_frame: "delivers n w [] w' = queue_frame (n_queue n) w w'"
  unfolding delivers_def queue_frame_def by (simp add: eq_commute)

lemma delivers_same: "frames n w = xs @ frames n w' \<Longrightarrow> agenda w' = agenda w \<Longrightarrow> delivers n w xs w'"
  unfolding delivers_def by (intro exI [of _ "[]"]) simp

lemma queue_frame_trans:
  fixes u v w :: "'e shared world"
  assumes "queue_frame q u v" and "queue_frame q v w"
  shows "queue_frame q u w"
  using assms delivers_trans [of "(undefined :: 'e notif)\<lparr>n_queue := q\<rparr>" u "[]" v "[]" w]
  by (simp add: delivers_queue_frame)

lemma queue_frame_scope: "queue_frame q (push_scope t w) w' \<Longrightarrow> queue_frame q w (pop_scope w')"
  by (simp add: queue_frame_def)

lemma queue_frame_refl: "queue_frame q w w"
  by (auto simp: queue_frame_def intro: exI [of _ "[]"])

interpretation arrivals: scoped_frame "queue_frame q" for q
  by unfold_locales (auto intro: queue_frame_refl queue_frame_advance queue_frame_scope elim: queue_frame_trans)

text \<open>Giving a frame back leaves the queue as it was.\<close>

lemma put_all:
  "fold (\<lambda>item v. v\<lparr>mem := put_frame q item (mem v)\<rparr>) xs w = w\<lparr>mem := set_queue q (queue_of w q @ xs) (mem w)\<rparr>"
  by (induction xs arbitrary: w) (simp_all add: set_queue_def put_frame_def)

lemma left_with_sel [simp]:
  "frames n (left_with n xs w) = xs" "left_with n xs (left_with n ys w) = left_with n xs w"
  "left_with n (frames n w) w = w"
  by (simp_all add: left_with_def set_queue_def)

lemma left_with_world [simp]:
  "now (left_with n xs w) = now w" "cancels (left_with n xs w) = cancels w" "agenda (left_with n xs w) = agenda w"
  "scopes (left_with n xs w) = scopes w" "is_set (left_with n xs w) = is_set w" "live (left_with n xs w) = live w"
  by (simp_all add: left_with_def set_queue_def)

lemma requeue_first_run: "requeue_first n x w = left_with n (x # frames n w) w"
proof -
  have "requeue_first n x w =
      (left_with n [] w)\<lparr>mem := set_queue (n_queue n) (x # frames n w) (mem (left_with n [] w))\<rparr>"
    using put_all [of "n_queue n" "x # frames n w" "left_with n [] w"] by (simp add: requeue_first_def Let_def)
  then show ?thesis by (simp add: left_with_def set_queue_def)
qed

lemma give_back_same [simp]: "give_back n w = w"
proof (cases "frames n w")
  case (Cons x xs)
  have "requeue_first n x (left_with n xs w) = left_with n (x # xs) w" by (simp add: requeue_first_run)
  also have "\<dots> = w" using left_with_sel(3) [of n w] Cons by simp
  finally show ?thesis using Cons by (simp add: give_back_def)
qed (simp add: give_back_def)

text \<open>A wait as it reads once the inner tasks are gone: what is queued, else wait, else the drop.\<close>

definition link_is_down :: "'e notif \<Rightarrow> 'e shared world \<Rightarrow> bool" where
  "link_is_down n w \<longleftrightarrow> (\<exists>d. n_dropped n = Some d \<and> is_set w d)"

definition take_frame :: "'e notif \<Rightarrow> string \<Rightarrow> (bytes, 'e) ble" where
  "take_frame n step w =
     (case frames n w of x # xs \<Rightarrow> (Return x, left_with n xs w) | [] \<Rightarrow> (Raise (link_gone step), w))"

definition wake_up :: "'e notif \<Rightarrow> string \<Rightarrow> (bytes, 'e) ble" where
  "wake_up n step w =
     (if link_is_down n w \<and> n_race n (now w) (mem w) then (Raise (link_gone step), w) else take_frame n step w)"

text \<open>The link counts as gone where nothing is queued, or where the drop came before what is.\<close>

definition drop_won :: "'e notif \<Rightarrow> 'e shared world \<Rightarrow> bool" where
  "drop_won n w \<longleftrightarrow> link_is_down n w \<and> (frames n w = [] \<or> n_race n (now w) (mem w))"

lemma drop_won_scope [simp]: "drop_won n (pop_scope w) = drop_won n w" "drop_won n (push_scope t w) = drop_won n w"
  by (simp_all add: drop_won_def link_is_down_def)

lemma next_frame_reads:
  "next_frame n step w =
     (if frames n w \<noteq> [] \<or> link_is_down n w then take_frame n step w
      else bind (park None (\<lambda>w. frames n w \<noteq> [] \<or> link_is_down n w)) (\<lambda>_. wake_up n step) w)"
proof (cases "frames n w")
  case Nil
  show ?thesis
  proof (cases "n_dropped n")
    case None
    obtain r w' where p: "park None (\<lambda>w. frames n w \<noteq> []) w = (r, w')" by (cases "park None (\<lambda>w. frames n w \<noteq> []) w")
    with Nil None park_ready [of "\<lambda>w. frames n w \<noteq> []" w _ w'] show ?thesis
      by (cases r; cases "frames n w'") (auto simp: next_frame_def link_is_down_def bind_def take_frame_def wake_up_def)
  next
    case (Some d)
    with Nil show ?thesis
      by (auto simp: next_frame_def after_wait_def link_is_down_def bind_def take_frame_def wake_up_def
          split: prod.split outcome.split list.split)
  qed
qed (simp add: next_frame_def take_frame_def)

lemma polite_take_frame: "polite 0 (take_frame (n :: 'e notif) step)"
proof (rule polite_step)
  fix w :: "'e shared world"
  have "\<exists>m. w = w\<lparr>mem := m\<rparr>" by (rule exI [of _ "mem w"]) simp
  then show "\<exists>r m. take_frame n step w = (r, w\<lparr>mem := m\<rparr>) \<and> r \<noteq> Hang"
    by (auto simp: take_frame_def left_with_def split: list.split)
qed

lemma polite_wake_up: "polite 0 (wake_up (n :: 'e notif) step)"
proof (rule polite_pointwise)
  fix w :: "'e shared world"
  have "polite 0 (throw (link_gone step) :: (bytes, 'e) ble)" by (rule polite_throw)
  then show "\<exists>g. polite 0 g \<and> wake_up n step w = g w"
    using polite_take_frame by (cases "link_is_down n w \<and> n_race n (now w) (mem w)") (auto simp: wake_up_def throw_def)
qed

lemma polite_next_frame: "polite 0 (next_frame (n :: 'e notif) step)"
proof (rule polite_pointwise)
  fix w :: "'e shared world"
  have "polite 0 (bind (park None (\<lambda>w. frames n w \<noteq> [] \<or> link_is_down n w)) (\<lambda>_. wake_up n step))"
    by (intro polite_seq polite_park polite_wake_up)
  then show "\<exists>g. polite 0 g \<and> next_frame n step w = g w"
    unfolding next_frame_reads using polite_take_frame by (cases "frames n w \<noteq> [] \<or> link_is_down n w") auto
qed

lemma delivers_scope [simp]:
  "delivers n (push_scope t w) xs w' = delivers n w xs w'" "delivers n (pop_scope w) xs w' = delivers n w xs w'"
  "delivers n w xs (push_scope t w') = delivers n w xs w'" "delivers n w xs (pop_scope w') = delivers n w xs w'"
  by (simp_all add: delivers_def)

lemma delivers_clear: "delivers n w (frames n w) (left_with n [] w)"
  by (rule delivers_same) simp_all

fun handed :: "'a outcome \<Rightarrow> 'a list" where
  "handed (Return x) = [x]"
| "handed (Raise e) = []"
| "handed Hang = []"

text \<open>A moment of the wait: the link up, nothing queued and nothing handed out, so nothing has come.\<close>

definition awaited :: "'e notif \<Rightarrow> 'e shared world \<Rightarrow> 'e shared world \<Rightarrow> bool" where
  "awaited n w v \<longleftrightarrow> delivers n w [] v \<and> frames n v = [] \<and> \<not> link_is_down n v"

lemma link_is_down_scope [simp]:
  "link_is_down n (push_scope t w) = link_is_down n w" "link_is_down n (pop_scope w) = link_is_down n w"
  by (simp_all add: link_is_down_def)

lemma awaited_scope [simp]:
  "awaited n (push_scope t w) v = awaited n w v" "awaited n (pop_scope w) v = awaited n w v"
  "awaited n w (pop_scope v) = awaited n w v"
  by (simp_all add: awaited_def)

text \<open>The wait ends as soon as it can: at once, or with the signal that follows such a moment.\<close>

definition woken :: "'e notif \<Rightarrow> 'e shared world \<Rightarrow> 'e shared world \<Rightarrow> bool" where
  "woken n w w' \<longleftrightarrow>
     (if frames n w \<noteq> [] \<or> link_is_down n w then now w' = now w
      else \<exists>v. awaited n w v \<and> agenda v \<noteq> [] \<and> now w' = max (now v) (fst (hd (agenda v))))"

lemma woken_scope [simp]:
  "woken n (push_scope t w) w' = woken n w w'" "woken n (pop_scope w) w' = woken n w w'"
  "woken n w (pop_scope w') = woken n w w'"
  by (simp_all add: woken_def)

text \<open>The wait was cut by the step after such a moment.\<close>

definition cut_short :: "'e notif \<Rightarrow> 'e shared world \<Rightarrow> 'e shared world \<Rightarrow> bool" where
  "cut_short n w w' \<longleftrightarrow> (\<exists>v t. awaited n w v \<and> scopes v = scopes w \<and> next_time None v = Some t \<and> w' = advance t v)"

text \<open>Nothing happens before the time \<open>d\<close>, as \<open>v\<close> knows it.\<close>

definition silent_until :: "seconds \<Rightarrow> 'e shared world \<Rightarrow> bool" where
  "silent_until d v \<longleftrightarrow> (now v < d \<longrightarrow> agenda v = [] \<or> d \<le> fst (hd (agenda v)))"

text \<open>A wait its own scope cut: nothing came before the deadline.\<close>

lemma cut_by_scope:
  assumes "cut_short n w w'" and "scopes w = s # ss" and "deadline s = Some d" and "\<not> fired s"
    and "fired (hd (scopes w'))"
  shows "\<exists>v. awaited n w v \<and> silent_until d v"
proof -
  from assms(1) obtain v u where v: "awaited n w v" "scopes v = scopes w"
    "next_time None v = Some u" "w' = advance u v" unfolding cut_short_def by blast
  from assms(2-5) v(2,4) have u: "d \<le> u" by (auto simp: due_def split: if_splits)
  from v(3) obtain e where e: "earliest (wake_times None v) = Some e" "u = max (now v) e"
    by (auto simp: next_time_def)
  have "d \<le> fst (hd (agenda v))" if "now v < d" "agenda v \<noteq> []"
  proof -
    from that(2) have "fst (hd (agenda v)) \<in> set (wake_times None v)"
      by (cases "agenda v") (auto simp: wake_times_def)
    from earliest_le [OF e(1) this] e(2) u that(1) show ?thesis by auto
  qed
  with v(1) show ?thesis by (auto simp: silent_until_def)
qed

text \<open>How a wait ends.\<close>

definition wait_end :: "'e notif \<Rightarrow> string \<Rightarrow> 'e shared world \<Rightarrow> bytes outcome \<Rightarrow> 'e shared world \<Rightarrow> bool" where
  "wait_end n step w r w' \<longleftrightarrow> delivers n w (handed r) w' \<and>
     (\<forall>x. r = Return x \<longrightarrow> woken n w w' \<and> scopes w' = scopes w) \<and>
     (\<forall>e. r = Raise e \<longrightarrow>
        e = cancelled_error \<and> cut_short n w w' \<or> e = link_gone step \<and> drop_won n w' \<and> woken n w w')"

lemma take_frame_end:
  assumes "delivers n w [] v" and "frames n v \<noteq> [] \<or> link_is_down n v" and "take_frame n step v = (r, w')"
    and "woken n w v" and "scopes v = scopes w"
  shows "wait_end n step w r w'"
proof -
  have "delivers n v (handed r) w'"
    using assms(2,3) by (auto simp: take_frame_def intro: delivers_same split: list.splits)
  from delivers_trans [OF assms(1) this] have d: "delivers n w (handed r) w'" by simp
  from assms(3) have "now w' = now v" by (auto simp: take_frame_def split: list.splits)
  with assms(4) have "woken n w w'" by (simp add: woken_def)
  with d assms(2,3,5) show ?thesis
    by (auto simp: take_frame_def wait_end_def drop_won_def split: list.splits)
qed

lemma wake_up_end:
  assumes "delivers n w [] v" and "frames n v \<noteq> [] \<or> link_is_down n v" and "wake_up n step v = (r, w')"
    and "woken n w v" and "scopes v = scopes w"
  shows "wait_end n step w r w'"
proof (cases "link_is_down n v \<and> n_race n (now v) (mem v)")
  case True
  with assms(1,3,4) show ?thesis by (auto simp: wake_up_def wait_end_def drop_won_def)
next
  case False
  with assms(3) have "take_frame n step v = (r, w')" by (auto simp: wake_up_def)
  with assms show ?thesis by (intro take_frame_end)
qed

lemma world_frame_and:
  assumes "world_frame R" and "world_frame S"
  shows "world_frame (\<lambda>v w. R v w \<and> S v w)"
  using assms unfolding world_frame_def by metis

lemma next_frame_end:
  assumes "next_frame n step w = (r, w')"
  shows "wait_end n step w r w'"
proof (cases "frames n w \<noteq> [] \<or> link_is_down n w")
  case True
  with assms take_frame_end [of n w w] show ?thesis
    by (simp add: next_frame_reads delivers_queue_frame queue_frame_refl woken_def)
next
  case False
  let ?ready = "\<lambda>w. frames n w \<noteq> [] \<or> link_is_down n w"
  obtain x u where p: "park None ?ready w = (x, u)" by (cases "park None ?ready w")
  have q: "delivers n w [] u" unfolding delivers_queue_frame using keepsD [OF arrivals.keeps_park p] .
  from False assms p have run: "bind (\<lambda>_. (x, u)) (\<lambda>_. wake_up n step) w = (r, w')"
    by (simp add: next_frame_reads bind_def)
  show ?thesis
  proof (cases "x = Hang")
    case False
    with park_last [OF p _ _ arrivals.world_frame_axioms, of "n_queue n"] \<open>\<not> (frames n w \<noteq> [] \<or> link_is_down n w)\<close>
    obtain v t where v: "queue_frame (n_queue n) w v" "\<not> ?ready v" "scopes v = scopes w" "next_time None v = Some t"
      "u = advance t v" "is_raise x \<or> \<not> cancels v < cancels u" by blast
    then have aw: "awaited n w v" by (simp add: awaited_def delivers_queue_frame)
    show ?thesis
    proof (cases x)
      case (Return y)
      with v(4-6) have "agenda v \<noteq> [] \<and> t = max (now v) (fst (hd (agenda v)))" and s: "scopes u = scopes v"
        using step_at_signal [of v t] step_fires_none [of v t] by simp_all
      with aw v(5) \<open>\<not> (frames n w \<noteq> [] \<or> link_is_down n w)\<close> have "woken n w u"
        unfolding woken_def by (simp only: if_False) (intro exI [of _ v], simp)
      with Return run p park_ready [of ?ready w y u] wake_up_end [OF q] s v(3) show ?thesis by (simp add: bind_def)
    next
      case (Raise e)
      from aw v(3-5) have "cut_short n w u" unfolding cut_short_def by blast
      with Raise run p park_raises_cancelled q show ?thesis by (fastforce simp: bind_def wait_end_def)
    qed (use \<open>x \<noteq> Hang\<close> in simp)
  qed (use run q in \<open>simp add: bind_def wait_end_def\<close>)
qed

lemma keeps_next_frame:
  assumes "world_frame R" and "\<And>xs w. R w (left_with n xs w)"
  shows "keeps R (next_frame n step)"
proof (rule keepsI)
  fix w
  have t: "keeps R (take_frame n step)"
    using assms(2) world_frame.R_refl [OF assms(1)] by (auto simp: keeps_def take_frame_def split: list.split)
  then have u: "keeps R (wake_up n step)"
    using world_frame.R_refl [OF assms(1)] by (auto simp: keeps_def wake_up_def)
  have b: "keeps R (bind (park None (\<lambda>w. frames n w \<noteq> [] \<or> link_is_down n w)) (\<lambda>_. wake_up n step))"
    by (rule world_frame.keeps_bind [OF assms(1) world_frame.keeps_park [OF assms(1)] u])
  from t b show "R w (snd (next_frame n step w))" unfolding next_frame_reads by (simp add: keeps_def)
qed

lemma punctual_next_frame: "keeps punctual (next_frame n step)"
  by (rule keeps_next_frame [OF pun.world_frame_axioms]) (simp add: punctual_def still_def)

lemma orderly_next_frame: "orderly (next_frame n step)"
  unfolding orderly_def
proof (intro allI impI)
  fix w e w'
  assume run: "next_frame n step w = (Raise e, w')"
  have t: "orderly (take_frame n step)"
    by (auto simp: orderly_def take_frame_def issubclass_eval split: list.splits)
  then have u: "orderly (wake_up n step)"
    by (auto simp: orderly_def wake_up_def issubclass_eval split: if_splits)
  have b: "orderly (bind (park None (\<lambda>w. frames n w \<noteq> [] \<or> link_is_down n w)) (\<lambda>_. wake_up n step))"
    by (intro orderly_bind orderly_park frm.keeps_park u)
  show "isinstance e ExceptionC \<or> isinstance e CancelledErrorC \<and> cancels w < cancels w'"
    using run orderlyD [OF t, of w e w'] orderlyD [OF b, of w e w']
    unfolding next_frame_reads by (simp split: if_splits)
qed

lemma next_frame_no_timeout: "no_timeout (next_frame n step)"
  unfolding no_timeout_def
proof (intro allI impI)
  fix w e w'
  assume "next_frame n step w = (Raise e, w')"
  from next_frame_end [OF this] show "\<not> isinstance e TimeoutErrorC"
    by (auto simp: wait_end_def cancelled_error_def issubclass_eval)
qed

text \<open>A wait under a bound: it ends in time, and times out only when the time is over.\<close>

definition silence :: "'e notif \<Rightarrow> seconds \<Rightarrow> 'e shared world \<Rightarrow> bool" where
  "silence n t w \<longleftrightarrow> (\<exists>v. awaited n w v \<and> silent_until (now w + t) v)"

lemma bounded_next_frame:
  assumes "bounded (Some t) (next_frame n step) w = (r, w')"
  shows "r \<noteq> Hang" and "now w' \<le> now w + max 0 t" and "now w \<le> now w'" and "delivers n w (handed r) w'"
    and "r = Return x \<Longrightarrow> woken n w w'"
    and "r = Raise e \<Longrightarrow>
      e = with_cause timeout_error cancelled_error \<and> now w + t \<le> now w' \<and> silence n t w
      \<or> e = link_gone step \<and> drop_won n w' \<and> woken n w w'
      \<or> e = cancelled_error \<and> cancels w < cancels w'"
proof -
  show "r \<noteq> Hang" "now w' \<le> now w + max 0 t"
    using ends_withinD [OF ends_within_bounded [OF polite_next_frame] assms] by simp_all
  have k: "keeps frame (next_frame n step)" by (rule politeD(2) [OF polite_next_frame])
  show "now w \<le> now w'" using keepsD [OF frm.keeps_bounded [OF k] assms] by (simp add: frame_def)
  obtain y w1 where f: "next_frame n step (push_scope (Some t) w) = (y, w1)"
    by (cases "next_frame n step (push_scope (Some t) w)")
  note ends = next_frame_end [OF f, unfolded wait_end_def]
  have w': "w' = pop_scope w1" and r: "r = scope_outcome (hd (scopes w1)) (cancels w') y"
    using assms f by (auto simp: bounded_def with_timeout_def Let_def)
  from r have "handed r = handed y" by (cases y) (auto simp: scope_outcome_def)
  with ends w' show "delivers n w (handed r) w'" by simp
  show "woken n w w'" if "r = Return x"
    using that r ends w' by (cases y) (auto simp: scope_outcome_def split: if_splits)
  show "e = with_cause timeout_error cancelled_error \<and> now w + t \<le> now w' \<and> silence n t w
      \<or> e = link_gone step \<and> drop_won n w' \<and> woken n w w'
      \<or> e = cancelled_error \<and> cancels w < cancels w'" if "r = Raise e"
  proof (cases "isinstance e TimeoutErrorC")
    case True
    note late = bounded_times_out [OF k punctual_next_frame next_frame_no_timeout assms [unfolded that] True]
    from that r obtain e' where e': "y = Raise e'" by (cases y) (auto simp: scope_outcome_def)
    with late(2) f have e: "e = with_cause timeout_error e'" by simp
    have "\<not> isinstance e' TimeoutErrorC"
      using next_frame_no_timeout [of n step] f e' unfolding no_timeout_def by blast
    with r that e' True have "isinstance e' CancelledErrorC" and fired: "fired (hd (scopes w1))"
      by (auto simp: scope_outcome_def split: if_splits)
    with ends e' have "e' = cancelled_error" "cut_short n (push_scope (Some t) w) w1" by (auto simp: issubclass_eval)
    have top: "scopes (push_scope (Some t) w) = \<lparr>deadline = Some (now w + t), fired = False, base = cancels w\<rparr> # scopes w"
      by (simp add: push_scope_def)
    from cut_by_scope [OF \<open>cut_short n (push_scope (Some t) w) w1\<close> top _ _ fired] late(1) e \<open>e' = cancelled_error\<close>
    show ?thesis by (auto simp: silence_def)
  next
    case False
    with r that have y: "y = Raise e" by (cases y) (auto simp: scope_outcome_def timeout_error_def issubclass_eval split: if_splits)
    with ends have "e = cancelled_error \<or> e = link_gone step \<and> drop_won n w1 \<and> woken n (push_scope (Some t) w) w1" by blast
    then show ?thesis
    proof
      assume "e = cancelled_error"
      with orderlyD [OF orderly_bounded [OF orderly_next_frame k] assms [unfolded that]] show ?thesis
        by (simp add: cancelled_error_def issubclass_eval)
    qed (use w' in simp)
  qed
qed


section \<open>Waits that read on\<close>

text \<open>A wait that returns has used something up: the agenda, or the queue.\<close>

lemma park_uses_agenda:
  "park None ready w = (Return u, w') \<Longrightarrow> length (agenda w') < length (agenda w)"
proof (induction "None :: seconds option" ready w rule: park.induct)
  case (1 ready w)
  show ?case
  proof (cases "next_time None w")
    case (Some t)
    show ?thesis
    proof (cases "cancels w < cancels (advance t w)")
      case True
      with "1.prems" Some show ?thesis by (subst (asm) park.simps) (auto simp: Let_def)
    next
      case False
      then have "cancels (advance t w) = cancels w" by (simp add: advance_cancels)
      with step_uses_agenda [OF Some] have less: "length (agenda (advance t w)) < length (agenda w)"
        by (simp add: reached_def)
      show ?thesis
      proof (cases "ready (advance t w)")
        case True
        with False "1.prems" Some less show ?thesis by (subst (asm) park.simps) (auto simp: Let_def)
      next
        case not: False
        then have "park None ready (advance t w) = (Return u, w')"
          using "1.prems" Some False by (subst (asm) park.simps) (simp add: Let_def reached_def)
        with "1.hyps" [OF Some refl] False not less show ?thesis by (simp add: reached_def)
      qed
    qed
  qed (use "1.prems" in \<open>simp add: park.simps\<close>)
qed

lemma next_frame_uses:
  assumes "next_frame n step w = (Return x, w')"
  shows "length (agenda w') < length (agenda w)
    \<or> agenda w' = agenda w \<and> length (frames n w') < length (frames n w)"
proof (cases "frames n w \<noteq> [] \<or> link_is_down n w")
  case True
  with assms show ?thesis by (auto simp: next_frame_reads take_frame_def split: list.splits)
next
  case False
  let ?ready = "\<lambda>w. frames n w \<noteq> [] \<or> link_is_down n w"
  obtain y v where p: "park None ?ready w = (y, v)" by (cases "park None ?ready w")
  with False assms have "y = Return ()" "wake_up n step v = (Return x, w')"
    by (cases y; auto simp: next_frame_reads bind_def)+
  with park_uses_agenda [of ?ready w "()" v] p show ?thesis
    by (auto simp: wake_up_def take_frame_def split: list.splits if_splits)
qed

lemma bounded_next_frame_uses:
  assumes "bounded (Some t) (next_frame n step) w = (Return x, w')" and "frames n w = []"
  shows "length (agenda w') < length (agenda w)"
proof -
  obtain y v where f: "next_frame n step (push_scope (Some t) w) = (y, v)"
    by (cases "next_frame n step (push_scope (Some t) w)")
  with assms(1) have "y = Return x" "w' = pop_scope v" by (auto simp: bounded_def with_timeout_def Let_def)
  with next_frame_uses [of n step "push_scope (Some t) w" x v] f assms(2) show ?thesis by simp
qed

subsection \<open>\<open>next_burst\<close>\<close>

text \<open>The loop after the first frame; it ends because every further frame takes an arrival.\<close>

function burst_loop :: "'e notif \<Rightarrow> string \<Rightarrow> seconds \<Rightarrow> seconds \<Rightarrow> bytes list \<Rightarrow> (bytes list, 'e) ble" where
  "burst_loop n step gap_s until parts w =
     (let parts' = parts @ frames n w;
          v = left_with n [] w;
          wait = min gap_s (until - now v)
      in if wait \<le> 0 then (Return parts', v)
         else (case bounded (Some wait) (next_frame n step) v of
             (Return x, v') \<Rightarrow> burst_loop n step gap_s until (parts' @ [x]) v'
           | (Raise e, v') \<Rightarrow>
               if isinstance e TimeoutErrorC \<or> isinstance e SessionDroppedC then (Return parts', v')
               else (Raise e, v')
           | (Hang, v') \<Rightarrow> (Hang, v')))"
  by pat_completeness auto
termination
proof (relation "measure (\<lambda>(n, step, gap_s, until, parts, w). length (agenda w))", simp)
  fix n :: "'e notif" and step gap_s until parts parts' wait and w v v' :: "'e shared world" and r x
  assume "v = left_with n [] w" "(r, v') = bounded (Some wait) (next_frame n step) v" "r = Return x"
  then have "bounded (Some wait) (next_frame n step) v = (Return x, v')" "frames n v = []" "agenda v = agenda w"
    by simp_all
  with bounded_next_frame_uses [OF this(1,2)]
  show "((n, step, gap_s, until, parts' @ [x], v'), n, step, gap_s, until, parts, w)
      \<in> measure (\<lambda>(n, step, gap_s, until, parts, w). length (agenda w))" by simp
qed

declare burst_loop.simps [simp del]

definition next_burst :: "'e notif \<Rightarrow> seconds \<Rightarrow> string \<Rightarrow> seconds \<Rightarrow> (bytes, 'e) ble" where
  "next_burst n timeout step gap_s w =
     bind (next_reply n timeout step) (\<lambda>first.
     bind (burst_loop n step gap_s (now w + timeout) [first]) (\<lambda>parts.
       ret (concat parts))) w"

subsection \<open>\<open>wait_for\<close>\<close>

text \<open>\<open>accept\<close> answers, or raises.\<close>

function accept_loop :: "'e notif \<Rightarrow> string \<Rightarrow> (bytes \<Rightarrow> exc + bool) \<Rightarrow> (bytes, 'e) ble" where
  "accept_loop n step accept w =
     (case next_frame n step w of
        (Return x, w') \<Rightarrow>
          (case accept x of
             Inl e \<Rightarrow> (Raise e, w')
           | Inr yes \<Rightarrow> if yes then (Return x, w') else accept_loop n step accept w')
      | (Raise e, w') \<Rightarrow> (Raise e, w')
      | (Hang, w') \<Rightarrow> (Hang, w'))"
  by pat_completeness auto
termination
proof (relation "measures [\<lambda>(n, step, accept, w). length (agenda w), \<lambda>(n, step, accept, w). length (frames n w)]", simp)
  fix n :: "'e notif" and step accept and w w' :: "'e shared world" and r x
  assume "(r, w') = next_frame n step w" "r = Return x"
  with next_frame_uses [of n step w x w']
  show "((n, step, accept, w'), n, step, accept, w)
      \<in> measures [\<lambda>(n, step, accept, w). length (agenda w), \<lambda>(n, step, accept, w). length (frames n w)]"
    by auto
qed

declare accept_loop.simps [simp del]

definition wait_for :: "'e notif \<Rightarrow> (bytes \<Rightarrow> exc + bool) \<Rightarrow> seconds \<Rightarrow> string \<Rightarrow> (bytes, 'e) ble" where
  "wait_for n accept timeout step w =
     (case with_timeout (Some timeout) (accept_loop n step accept) w of
        ((Raise e, expired), w') \<Rightarrow>
          if isinstance e TimeoutErrorC \<and> expired
          then (Raise (with_cause (NotificationTimeout timeout step None) e), w')
          else (Raise e, w')
      | ((r, _), w') \<Rightarrow> (r, w'))"

subsection \<open>\<open>request\<close>\<close>

definition request ::
  "'e notif \<Rightarrow> string \<Rightarrow> bytes \<Rightarrow> seconds \<Rightarrow> string \<Rightarrow> seconds option \<Rightarrow> bool option
    \<Rightarrow> (bytes \<Rightarrow> exc + bool) option \<Rightarrow> seconds \<Rightarrow> (bytes, 'e) ble" where
  "request n characteristic data timeout step write_timeout response accept pace_s =
     bind (raise_if_dropped (n_dropped n) step ''before'') (\<lambda>_.
     bind (clear_frames n) (\<lambda>_.
     bind (guarded_write (n_client n) characteristic data step response
             (Some (case write_timeout of None \<Rightarrow> timeout | Some t \<Rightarrow> t)) (n_dropped n) ''before'') (\<lambda>_.
     bind (if pace_s > 0 then sleep pace_s else ret ()) (\<lambda>_.
       case accept of
         None \<Rightarrow> next_reply n timeout step
       | Some f \<Rightarrow> wait_for n f timeout step))))"

end
