(* ===== verification/NotificationLaws.thy ===== *)
theory NotificationLaws
  imports Notifications SessionLaws
begin

text \<open>
  What the waits of \<open>src/src/blesession/notifications.py\<close> promise: each ends in time, names its step,
  hands out the frames in the order they came and loses none; a request is answered by the reply to it;
  and a subscription lasts as long as its block.
\<close>

section \<open>One reply\<close>

definition timed_out :: "seconds \<Rightarrow> string \<Rightarrow> exc" where
  "timed_out t step =
     with_cause (NotificationTimeout t step None) (with_cause timeout_error cancelled_error)"

lemma next_reply_queued:
  assumes "frames n w = x # xs"
  shows "next_reply n t step w = (Return x, left_with n xs w)"
proof -
  have "frames n (push_scope (Some t) w) = x # xs" using assms by simp
  then have "next_frame n step (push_scope (Some t) w) = (Return x, left_with n xs (push_scope (Some t) w))"
    by (simp add: next_frame_def)
  then have "bounded (Some t) (next_frame n step) w = (Return x, left_with n xs w)"
    by (simp add: bounded_def with_timeout_def push_scope_def pop_scope_def scope_outcome_def left_with_def)
  then show ?thesis by (simp add: next_reply_def catch_def)
qed

text \<open>How one wait fails: nothing came before its time was over, the drop came first, or the task was
  cancelled.\<close>

definition wait_fails :: "'e notif \<Rightarrow> string \<Rightarrow> seconds \<Rightarrow> 'e shared world \<Rightarrow> 'e shared world \<Rightarrow> exc \<Rightarrow> bool" where
  "wait_fails n step t w w' e \<longleftrightarrow>
     e = timed_out t step \<and> now w + t \<le> now w' \<and> silence n t w
     \<or> e = link_gone step \<and> drop_won n w' \<and> woken n w w'
     \<or> e = cancelled_error \<and> cancels w < cancels w'"

lemma next_reply_ends:
  assumes "next_reply n t step w = (r, w')"
  shows "r \<noteq> Hang \<and> now w' \<le> now w + max 0 t \<and> delivers n w (handed r) w' \<and>
    (\<forall>x. r = Return x \<longrightarrow> woken n w w') \<and> (\<forall>e. r = Raise e \<longrightarrow> wait_fails n step t w w' e)"
proof -
  obtain x v where b: "bounded (Some t) (next_frame n step) w = (x, v)"
    by (cases "bounded (Some t) (next_frame n step) w")
  note ends = bounded_next_frame [OF b]
  have w': "w' = v" "handed r = handed x" "r \<noteq> Hang"
    using assms b ends(1) by (cases x; auto simp: next_reply_def catch_def throw_def split: if_splits)+
  have "wait_fails n step t w w' e" if r: "r = Raise e" for e
  proof -
    from assms b r obtain e' where x: "x = Raise e'"
      and e: "e = (if isinstance e' TimeoutErrorC then with_cause (NotificationTimeout t step None) e' else e')"
      by (cases x) (auto simp: next_reply_def catch_def throw_def split: if_splits)
    from ends(6) [OF x] show ?thesis
      using e w'(1) by (auto simp: wait_fails_def timed_out_def timeout_error_def cancelled_error_def issubclass_eval)
  qed
  moreover have "woken n w w'" if "r = Return y" for y
    using assms b that ends(5) by (cases x) (auto simp: next_reply_def catch_def throw_def split: if_splits)
  ultimately show ?thesis using ends(2,4) w' by simp
qed

lemma next_reply_frame: "keeps frame (next_reply n t step)"
  unfolding next_reply_def
  by (intro frm.keeps_catch frm.keeps_bounded frm.keeps_throw politeD(2) [OF polite_next_frame])


text \<open>A frame that is queued is the answer, and the one that comes later stays for the next wait.\<close>

definition handle_on :: "fake client \<Rightarrow> fake notif" where
  "handle_on c = \<lparr>n_client = c, n_char = ''2a19'', n_settle = 0, n_dropped = Some 0, n_queue = 1, n_recover = False,
     n_race = \<lambda>_ _. True\<rparr>"

definition busy_world :: "fake_memory world" where
  "busy_world =
     (let w = fake_world (FakeClient True)
      in w\<lparr>mem := put_frame 1 [7] (mem w), agenda := [(1, Change (put_frame 1 [8])), (2, Change (set_events [0]))]\<rparr>)"

lemma busy_world_sel: "queue_of busy_world 1 = [[7]]" "now busy_world = 0" "cancels busy_world = 0"
  by (simp_all add: busy_world_def put_frame_def fake_world_def idle_def Let_def)

lemma busy_world_brings:
  assumes "agenda busy_world = used @ rest"
  shows "\<exists>ys. arrive 1 used ys"
proof (rule arrive_prefix)
  have "appends 1 (put_frame 1 [8] :: fake_memory \<Rightarrow> _) [[8]]" "appends 1 (set_events [0] :: fake_memory \<Rightarrow> _) []"
    by (simp_all add: appends_def put_frame_def set_events_def)
  then have "arrive 1 (agenda busy_world) ([[8]] @ [] @ [])"
    unfolding busy_world_def by (simp add: Let_def) blast
  with assms show "arrive 1 (used @ rest) ([[8]] @ [] @ [])" by simp
qed

text \<open>What is handed out there is what was queued and what came, in order.\<close>

lemma busy_world_delivers:
  assumes "delivers (handle_on c) busy_world xs w'"
  shows "\<exists>ys. [7] # ys = xs @ queue_of w' 1"
proof -
  from assms obtain used where used: "agenda busy_world = used @ agenda w'"
    "\<And>ys. arrive 1 used ys \<Longrightarrow> queue_of busy_world 1 @ ys = xs @ queue_of w' 1"
    by (auto simp: delivers_def handle_on_def)
  from busy_world_brings [OF used(1)] obtain ys where "arrive 1 used ys" by blast
  from used(2) [OF this] busy_world_sel(1) have "[7] # ys = xs @ queue_of w' 1" by simp
  then show ?thesis by blast
qed

text \<open>A wait where nothing is queued: the frame that comes after a second.\<close>

definition quiet_world :: "fake_memory world" where
  "quiet_world = (fake_world (FakeClient True))\<lparr>agenda := [(1, Change (put_frame 1 [8] \<circ> put_frame 1 [7]))]\<rparr>"

lemma quiet_world_arrives:
  "arrive 1 (agenda quiet_world) [[7], [8]]" "queue_of quiet_world 1 = []"
proof -
  have "appends 1 (put_frame 1 [8] \<circ> put_frame 1 [7] :: fake_memory \<Rightarrow> _) [[7], [8]]"
    by (simp add: appends_def put_frame_def)
  then show "arrive 1 (agenda quiet_world) [[7], [8]]" by (simp add: quiet_world_def)
  show "queue_of quiet_world 1 = []" by (simp add: quiet_world_def fake_world_def idle_def)
qed


section \<open>A burst\<close>

text \<open>Why a reading loop stops, after the last frame it read at \<open>v\<close>: there is no pause to wait for, its
  time is over, the link dropped, or nothing came for the pause.\<close>

definition burst_over :: "'e notif \<Rightarrow> seconds \<Rightarrow> seconds \<Rightarrow> 'e shared world \<Rightarrow> 'e shared world \<Rightarrow> bool" where
  "burst_over n gap u v w' \<longleftrightarrow>
     frames n v = [] \<and> delivers n v [] w' \<and> now w' \<le> now v + max 0 gap \<and>
     (gap \<le> 0 \<and> w' = v \<or> u \<le> now w' \<or> drop_won n w' \<or> silence n gap v \<and> now v + gap \<le> now w')"

text \<open>What a reading loop with the parts so far may end with.\<close>

definition burst_end ::
  "'e notif \<Rightarrow> 'e shared world \<Rightarrow> bytes list \<Rightarrow> seconds \<Rightarrow> seconds \<Rightarrow> bytes list outcome \<Rightarrow> 'e shared world \<Rightarrow> bool" where
  "burst_end n w parts gap u r w' \<longleftrightarrow>
     r \<noteq> Hang \<and> now w' \<le> max (now w) u \<and>
     (\<forall>ps. r = Return ps \<longrightarrow> (\<exists>more v. ps = parts @ more \<and> delivers n w more v \<and> burst_over n gap u v w')) \<and>
     (\<forall>e. r = Raise e \<longrightarrow> e = cancelled_error \<and> cancels w < cancels w')"

lemma burst_end_more:
  assumes "burst_end n v' (parts @ xs) gap u r w'" and "delivers n w xs v'" and "now v' \<le> u" and "cancels w \<le> cancels v'"
  shows "burst_end n w parts gap u r w'"
proof -
  have "\<exists>more v. ps = parts @ more \<and> delivers n w more v \<and> burst_over n gap u v w'" if "r = Return ps" for ps
  proof -
    from assms(1) that obtain more v where "ps = (parts @ xs) @ more" "delivers n v' more v" "burst_over n gap u v w'"
      by (auto simp: burst_end_def)
    with delivers_trans [OF assms(2)] show ?thesis by (intro exI [of _ "xs @ more"] exI [of _ v]) simp
  qed
  with assms(1,3,4) show ?thesis by (auto simp: burst_end_def)
qed

text \<open>The loop stops where it cannot wait, or where its wait fails.\<close>

lemma burst_stops:
  assumes "frames n v = []" and "min gap (u - now v) \<le> 0"
  shows "burst_over n gap u v v"
  using assms by (auto simp: burst_over_def delivers_queue_frame queue_frame_refl)

lemma burst_wait_fails:
  assumes "bounded (Some (min gap (u - now v))) (next_frame n step) v = (Raise e, w')" and "frames n v = []"
    and "isinstance e TimeoutErrorC \<or> isinstance e SessionDroppedC"
  shows "burst_over n gap u v w'"
proof -
  note ends = bounded_next_frame [OF assms(1)]
  have soon: "now w' \<le> now v + max 0 gap" using ends(2) by auto
  from ends(6) [OF refl] assms(3)
  consider "now v + min gap (u - now v) \<le> now w'" "silence n (min gap (u - now v)) v" | "drop_won n w'"
    by (auto simp: cancelled_error_def issubclass_eval)
  then show ?thesis
  proof cases
    case 1
    then show ?thesis using assms(2) ends(4) soon by (cases "gap \<le> u - now v") (auto simp: burst_over_def)
  qed (use assms(2) ends(4) soon in \<open>simp add: burst_over_def\<close>)
qed

lemma burst_loop_ends:
  assumes "burst_loop n step gap u parts w = (r, w')"
  shows "burst_end n w parts gap u r w'"
  using assms
proof (induction n step gap u parts w rule: burst_loop.induct)
  case (1 n step gap u parts w)
  let ?v = "left_with n [] w" and ?parts = "parts @ frames n w" and ?wait = "min gap (u - now w)"
  have d: "delivers n w (frames n w) ?v" by (rule delivers_clear)
  obtain x v' where b: "bounded (Some ?wait) (next_frame n step) ?v = (x, v')"
    by (cases "bounded (Some ?wait) (next_frame n step) ?v")
  note ends = bounded_next_frame [OF b]
  have run: "(r, w') = (if ?wait \<le> 0 then (Return ?parts, ?v)
      else case x of
        Return y \<Rightarrow> burst_loop n step gap u (?parts @ [y]) v'
      | Raise e \<Rightarrow> if isinstance e TimeoutErrorC \<or> isinstance e SessionDroppedC then (Return ?parts, v') else (Raise e, v')
      | Hang \<Rightarrow> (Hang, v'))"
    using "1.prems" by (subst (asm) burst_loop.simps) (simp add: Let_def b cong: if_cong)
  have c: "cancels w \<le> cancels v'"
    using frame_cancels [OF keepsD [OF frm.keeps_bounded [OF politeD(2) [OF polite_next_frame]] b]] by simp
  have read: "\<exists>more v. ?parts = parts @ more \<and> delivers n w more v \<and> burst_over n gap u v z" if "burst_over n gap u ?v z" for z
    using d that by blast
  show ?case
  proof (cases "?wait \<le> 0")
    case True
    with run read [OF burst_stops [of ?v n]] show ?thesis by (simp add: burst_end_def)
  next
    case late: False
    show ?thesis
    proof (cases x)
      case (Return y)
      have t: "now v' \<le> u" using ends(2) late by auto
      have "(x, v') = bounded (Some (min gap (u - now ?v))) (next_frame n step) ?v" using b by simp
      from "1.IH" [OF refl refl refl _ this Return] late run Return
      have "burst_end n v' (?parts @ [y]) gap u r w'" by simp
      moreover have "delivers n w (frames n w @ [y]) v'" using delivers_trans [OF d ends(4)] Return by simp
      ultimately show ?thesis using burst_end_more [of n v' parts "frames n w @ [y]" gap u r w' w] t c by simp
    next
      case (Raise e)
      show ?thesis
      proof (cases "isinstance e TimeoutErrorC \<or> isinstance e SessionDroppedC")
        case True
        with run late Raise have "r = Return ?parts" "w' = v'" by simp_all
        moreover have "burst_over n gap u ?v v'" by (rule burst_wait_fails [of _ _ _ _ step e]) (use b Raise True in simp_all)
        ultimately show ?thesis using read ends(2) late by (auto simp: burst_end_def)
      next
        case False
        with run late Raise ends(2) ends(6) [OF Raise] show ?thesis
          by (auto simp: burst_end_def timeout_error_def issubclass_eval)
      qed
    qed (use ends(1) in simp)
  qed
qed



section \<open>The first accepted\<close>

lemma accept_loop_step:
  assumes "next_frame n step w = (x, v)"
  shows "accept_loop n step accept w =
    (case x of
       Return y \<Rightarrow> (case accept y of Inl e \<Rightarrow> (Raise e, v) | Inr yes \<Rightarrow> if yes then (Return y, v) else accept_loop n step accept v)
     | Raise e \<Rightarrow> (Raise e, v)
     | Hang \<Rightarrow> (Hang, v))"
  by (subst accept_loop.simps) (simp add: assms split: outcome.split)

text \<open>What every step of the loop does, the loop does.\<close>

lemma accept_loop_rel:
  assumes "accept_loop n step accept w = (r, w')"
    and "\<And>v x u. next_frame n step v = (x, u) \<Longrightarrow> R v x u"
    and "\<And>v y e u. R v (Return y) u \<Longrightarrow> accept y = Inl e \<Longrightarrow> P v (Raise e) u"
    and "\<And>v y u. R v (Return y) u \<Longrightarrow> accept y = Inr True \<Longrightarrow> P v (Return y) u"
    and "\<And>v e u. R v (Raise e) u \<Longrightarrow> P v (Raise e) u" and "\<And>v u. R v Hang u \<Longrightarrow> P v Hang u"
    and "\<And>v y u s z. R v (Return y) u \<Longrightarrow> accept y = Inr False \<Longrightarrow> P u s z \<Longrightarrow> P v s z"
  shows "P w r w'"
  using assms
proof (induction n step accept w rule: accept_loop.induct)
  case (1 n step accept w)
  obtain x v where f: "next_frame n step w = (x, v)" by (cases "next_frame n step w")
  note rel = "1.prems"(2) [OF f] and run = "1.prems"(1) [unfolded accept_loop_step [OF f]]
  show ?case
  proof (cases x)
    case (Return y)
    show ?thesis
    proof (cases "accept y")
      case (Inr yes)
      show ?thesis
      proof (cases yes)
        case False
        with run Return Inr have more: "accept_loop n step accept v = (r, w')" by simp
        have "P v r w'"
          by (rule "1.IH" [OF f [symmetric] Return Inr False more]) (use "1.prems" in blast)+
        from Inr False have "accept y = Inr False" by simp
        with "1.prems"(7) rel Return \<open>P v r w'\<close> show ?thesis by blast
      qed (use run rel Return Inr "1.prems"(4) in auto)
    qed (use run rel Return "1.prems"(3) in auto)
  qed (use run rel "1.prems"(5,6) in auto)
qed

text \<open>The frames read first were rejected; the last wait, from \<open>v\<close> on, gave the answer or failed.\<close>

definition picks :: "'e notif \<Rightarrow> (bytes \<Rightarrow> exc + bool) \<Rightarrow> 'e shared world \<Rightarrow> bytes outcome \<Rightarrow> 'e shared world
    \<Rightarrow> ('e shared world \<Rightarrow> exc \<Rightarrow> bool) \<Rightarrow> bool" where
  "picks n accept w r w' fails \<longleftrightarrow>
     (\<exists>rejected v. (\<forall>x \<in> set rejected. accept x = Inr False) \<and> delivers n w rejected v \<and>
        (case r of
           Return x \<Rightarrow> accept x = Inr True \<and> delivers n v [x] w' \<and> woken n v w'
         | Raise e \<Rightarrow> (\<exists>x. accept x = Inl e \<and> delivers n v [x] w' \<and> woken n v w') \<or> delivers n v [] w' \<and> fails v e
         | Hang \<Rightarrow> True))"

lemma picks_more:
  assumes "delivers n v [y] u" and "accept y = Inr False" and "picks n accept u r w' fails"
  shows "picks n accept v r w' fails"
proof -
  from assms(3) obtain rejected a where rej: "\<forall>x \<in> set rejected. accept x = Inr False" "delivers n u rejected a"
    "case r of
       Return x \<Rightarrow> accept x = Inr True \<and> delivers n a [x] w' \<and> woken n a w'
     | Raise e \<Rightarrow> (\<exists>x. accept x = Inl e \<and> delivers n a [x] w' \<and> woken n a w') \<or> delivers n a [] w' \<and> fails a e
     | Hang \<Rightarrow> True" unfolding picks_def by blast
  have "delivers n v (y # rejected) a" using delivers_trans [OF assms(1) rej(2)] by simp
  with rej(1,3) assms(2) show ?thesis
    unfolding picks_def by (intro exI [of _ "y # rejected"] exI [of _ a]) auto
qed

lemma picks_now:
  assumes "case r of
       Return x \<Rightarrow> accept x = Inr True \<and> delivers n w [x] w' \<and> woken n w w'
     | Raise e \<Rightarrow> (\<exists>x. accept x = Inl e \<and> delivers n w [x] w' \<and> woken n w w') \<or> delivers n w [] w' \<and> fails w e
     | Hang \<Rightarrow> True"
  shows "picks n accept w r w' fails"
  unfolding picks_def using assms
  by (intro exI [of _ "[]"] exI [of _ w]) (simp add: delivers_queue_frame queue_frame_refl)

lemma picks_mono:
  assumes "picks n accept w r w' fails" and "\<And>v e. r = Raise e \<Longrightarrow> fails v e \<Longrightarrow> fails' v e"
  shows "picks n accept w r w' fails'"
proof -
  from assms(1) obtain rejected v where rej: "\<forall>x \<in> set rejected. accept x = Inr False" "delivers n w rejected v"
    "case r of
       Return x \<Rightarrow> accept x = Inr True \<and> delivers n v [x] w' \<and> woken n v w'
     | Raise e \<Rightarrow> (\<exists>x. accept x = Inl e \<and> delivers n v [x] w' \<and> woken n v w') \<or> delivers n v [] w' \<and> fails v e
     | Hang \<Rightarrow> True" unfolding picks_def by blast
  with assms(2) show ?thesis
    unfolding picks_def by (intro exI [of _ rejected] exI [of _ v]) (auto split: outcome.splits)
qed

lemma picks_fail:
  assumes "picks n accept w (Raise e) w' fails" and "\<And>y. accept y \<noteq> Inl e" and "\<And>v. fails v e \<Longrightarrow> fails' v e'"
  shows "picks n accept w (Raise e') w' fails'"
proof -
  from assms(1,2) obtain rejected v where "\<forall>x \<in> set rejected. accept x = Inr False" "delivers n w rejected v"
    "delivers n v [] w'" "fails v e" unfolding picks_def by auto
  with assms(3) show ?thesis
    unfolding picks_def by (intro exI [of _ rejected] exI [of _ v]) auto
qed

text \<open>How a wait of the loop fails, inside the scope of the loop.\<close>

definition loop_fails :: "'e notif \<Rightarrow> string \<Rightarrow> 'e shared world \<Rightarrow> 'e shared world \<Rightarrow> 'e shared world \<Rightarrow> exc \<Rightarrow> bool" where
  "loop_fails n step w w' v e \<longleftrightarrow>
     e = cancelled_error \<and> cut_short n v w' \<and> scopes v = scopes w \<or> e = link_gone step \<and> drop_won n w' \<and> woken n v w'"

lemma accept_loop_picks:
  assumes "accept_loop n step accept w = (r, w')"
  shows "picks n accept w r w' (loop_fails n step w w')"
proof (rule accept_loop_rel [OF assms, where R = "wait_end n step" and P = "\<lambda>v r u. picks n accept v r u (loop_fails n step v u)"])
  show "wait_end n step v x u" if "next_frame n step v = (x, u)" for v x u
    using that by (rule next_frame_end)
  show "picks n accept v s z (loop_fails n step v z)"
    if "wait_end n step v (Return y) u" "accept y = Inr False" "picks n accept u s z (loop_fails n step u z)" for v y u s z
  proof (rule picks_more)
    show "delivers n v [y] u" "accept y = Inr False" using that(1,2) by (simp_all add: wait_end_def)
    from that(1) have "scopes u = scopes v" by (simp add: wait_end_def)
    then show "picks n accept u s z (loop_fails n step v z)"
      by (intro picks_mono [OF that(3)]) (simp add: loop_fails_def)
  qed
qed (auto simp: wait_end_def loop_fails_def intro!: picks_now)

lemma keeps_accept_loop:
  assumes "world_frame R" and "keeps R (next_frame n step)"
  shows "keeps R (accept_loop n step accept)"
proof (rule keepsI)
  fix w
  obtain r w' where run: "accept_loop n step accept w = (r, w')" by (cases "accept_loop n step accept w")
  have "R w w'"
  proof (rule accept_loop_rel [OF run, where R = "\<lambda>v x u. R v u" and P = "\<lambda>v x u. R v u"])
    show "R v u" if "next_frame n step v = (x, u)" for v x u using keepsD [OF assms(2) that] .
    show "R v z" if "R v u" "R u z" for v u z using world_frame.R_trans [OF assms(1) that] .
  qed
  with run show "R w (snd (accept_loop n step accept w))" by simp
qed

lemma polite_accept_loop: "polite 0 (accept_loop n step accept)"
proof -
  have "prompt 0 (accept_loop n step accept)"
  proof (rule promptI)
    fix w r w' i d
    assume run: "accept_loop n step accept w = (r, w')" and s: "still w i d"
    let ?R = "\<lambda>v x u. still v i d \<longrightarrow> now u \<le> max (now v) d \<and> x \<noteq> Hang \<and> (still u i d \<or> was_cancelled x)"
    have "?R w r w'"
    proof (rule accept_loop_rel [OF run, where R = ?R and P = ?R])
      show "?R v x u" if "next_frame n step v = (x, u)" for v x u
        using promptD [OF politeD(3) [OF polite_next_frame] that] by auto
    qed auto
    with s show "now w' \<le> max (now w) d + 0 \<and> r \<noteq> Hang \<and> (still w' i d \<or> was_cancelled r)" by simp
  qed
  then show ?thesis
    by (simp add: polite_def keeps_accept_loop [OF frm.world_frame_axioms politeD(2) [OF polite_next_frame]])
qed


lemma orderly_accept_loop:
  assumes "\<And>x e. accept x = Inl e \<Longrightarrow> isinstance e ExceptionC"
  shows "orderly (accept_loop n step accept)"
  unfolding orderly_def
proof (intro allI impI)
  fix w e w'
  assume run: "accept_loop n step accept w = (Raise e, w')"
  let ?P = "\<lambda>v (x :: bytes outcome) u. cancels v \<le> cancels u \<and>
    (\<forall>e. x = Raise e \<longrightarrow> isinstance e ExceptionC \<or> isinstance e CancelledErrorC \<and> cancels v < cancels u)"
  have "?P w (Raise e) w'"
  proof (rule accept_loop_rel [OF run, where R = ?P and P = ?P])
    show "?P v x u" if "next_frame n step v = (x, u)" for v x u
      using that orderlyD [OF orderly_next_frame] frame_cancels [OF keepsD [OF politeD(2) [OF polite_next_frame] that]]
      by blast
  qed (use assms in auto)
  then show "isinstance e ExceptionC \<or> isinstance e CancelledErrorC \<and> cancels w < cancels w'" by simp
qed

lemma picks_scope:
  assumes "picks n accept (push_scope t w) r v (\<lambda>a e. fails (pop_scope a) e)"
  shows "picks n accept w r (pop_scope v) fails"
proof -
  from assms obtain rejected a where rej: "\<forall>x \<in> set rejected. accept x = Inr False" "delivers n w rejected a"
    "case r of
       Return x \<Rightarrow> accept x = Inr True \<and> delivers n a [x] v \<and> woken n a v
     | Raise e \<Rightarrow> (\<exists>x. accept x = Inl e \<and> delivers n a [x] v \<and> woken n a v) \<or> delivers n a [] v \<and> fails (pop_scope a) e
     | Hang \<Rightarrow> True" unfolding picks_def by auto
  then show ?thesis
    unfolding picks_def by (intro exI [of _ rejected] exI [of _ "pop_scope a"]) (auto split: outcome.splits)
qed

text \<open>How \<open>wait_for\<close> fails in the wait that begins at \<open>v\<close>: as any wait, its time being counted from the
  beginning \<open>w\<close>.\<close>

definition last_wait_fails ::
  "'e notif \<Rightarrow> string \<Rightarrow> seconds \<Rightarrow> 'e shared world \<Rightarrow> 'e shared world \<Rightarrow> 'e shared world \<Rightarrow> exc \<Rightarrow> bool" where
  "last_wait_fails n step t w w' v e \<longleftrightarrow>
     e = timed_out t step \<and> now w + t \<le> now w' \<and> silence n (now w + t - now v) v
     \<or> e = link_gone step \<and> drop_won n w' \<and> woken n v w'
     \<or> e = cancelled_error \<and> cancels w < cancels w'"

lemma wait_for_run:
  "with_timeout (Some t) (accept_loop n step accept) w = ((y, expired), v) \<Longrightarrow>
   wait_for n accept t step w =
     (case y of
        Raise e \<Rightarrow> if isinstance e TimeoutErrorC \<and> expired
          then (Raise (with_cause (NotificationTimeout t step None) e), v) else (Raise e, v)
      | _ \<Rightarrow> (y, v))"
  by (cases y) (simp_all add: wait_for_def)

lemma loop_fails_scope:
  assumes "loop_fails n step (push_scope (Some t) w) v a e"
  shows "e = cancelled_error \<and> (fired (hd (scopes v)) \<longrightarrow> silence n (now w + t - now a) (pop_scope a))
    \<or> e = link_gone step \<and> drop_won n v \<and> woken n (pop_scope a) v"
proof -
  let ?s = "\<lparr>deadline = Some (now w + t), fired = False, base = cancels w\<rparr>"
  have "silence n (now w + t - now a) (pop_scope a)"
    if "cut_short n a v" "scopes a = scopes (push_scope (Some t) w)" "fired (hd (scopes v))"
    using cut_by_scope [OF that(1), of ?s "scopes w" "now w + t"] that(2,3) by (auto simp: push_scope_def silence_def)
  with assms show ?thesis by (auto simp: loop_fails_def)
qed

text \<open>A wait is its loop under one scope: what the loop picked, and what the scope makes of how it ended.\<close>

lemma wait_for_scoped:
  assumes accept: "\<And>x e. accept x = Inl e \<Longrightarrow> isinstance e ExceptionC" and run: "wait_for n accept t step w = (r, w')"
  obtains x s where
    "picks n accept w x w' (\<lambda>a e. e = cancelled_error \<and> (fired s \<longrightarrow> silence n (now w + t - now a) a)
      \<or> e = link_gone step \<and> drop_won n w' \<and> woken n a w')"
    and "fired s \<longrightarrow> now w + t \<le> now w'"
    and "\<forall>e. x = Raise e \<and> \<not> isinstance e CancelledErrorC \<longrightarrow> \<not> fired s"
    and "scope_outcome s (cancels w') x = Raise cancelled_error \<longrightarrow> cancels w < cancels w'"
    and "r = (case scope_outcome s (cancels w') x of
      Raise e \<Rightarrow> Raise (if isinstance e TimeoutErrorC \<and> fired s then with_cause (NotificationTimeout t step None) e else e) | y \<Rightarrow> y)"
proof -
  let ?f = "accept_loop n step accept"
  have k: "keeps frame ?f" by (rule politeD(2) [OF polite_accept_loop])
  obtain x v where f: "?f (push_scope (Some t) w) = (x, v)" by (cases "?f (push_scope (Some t) w)")
  obtain s ss where s: "scopes v = s # ss" "deadline s = map_option (\<lambda>x. now w + x) (Some t)" "base s = cancels w"
    "with_timeout (Some t) ?f w = ((scope_outcome s (cancels (pop_scope v)) x, fired s), pop_scope v)"
    by (rule with_timeout_run [OF k f])
  have r: "(r, w') = (case scope_outcome s (cancels (pop_scope v)) x of
      Raise e \<Rightarrow> if isinstance e TimeoutErrorC \<and> fired s
        then (Raise (with_cause (NotificationTimeout t step None) e), pop_scope v) else (Raise e, pop_scope v)
    | _ \<Rightarrow> (scope_outcome s (cancels (pop_scope v)) x, pop_scope v))"
    using wait_for_run [OF s(4)] run by simp
  then have w': "w' = pop_scope v" by (auto split: outcome.splits if_splits)
  show thesis
  proof (rule that [of x s])
    show "picks n accept w x w' (\<lambda>a e. e = cancelled_error \<and> (fired s \<longrightarrow> silence n (now w + t - now a) a)
      \<or> e = link_gone step \<and> drop_won n w' \<and> woken n a w')"
      unfolding w'
    proof (rule picks_scope [of _ _ "Some t"], rule picks_mono [OF accept_loop_picks [OF f]])
      fix a e
      assume "loop_fails n step (push_scope (Some t) w) v a e"
      from loop_fails_scope [OF this] s(1)
      show "e = cancelled_error \<and> (fired s \<longrightarrow> silence n (now w + t - now (pop_scope a)) (pop_scope a))
        \<or> e = link_gone step \<and> drop_won n (pop_scope v) \<and> woken n (pop_scope a) (pop_scope v)" by simp
    qed
    show "fired s \<longrightarrow> now w + t \<le> now w'"
      using keepsD [OF keeps_accept_loop [OF pun.world_frame_axioms punctual_next_frame] f] s(1,2) w'
      by (auto simp: punctual_def still_def split: if_splits dest!: spec [of _ "0 :: nat"])
    show "\<forall>e. x = Raise e \<and> \<not> isinstance e CancelledErrorC \<longrightarrow> \<not> fired s"
    proof -
      have "still (push_scope (Some t) w) 0 (now w + t)" by (simp add: still_def)
      from promptD [OF politeD(3) [OF polite_accept_loop] f this] s(1) show ?thesis by (auto simp: still_def)
    qed
    show "scope_outcome s (cancels w') x = Raise cancelled_error \<longrightarrow> cancels w < cancels w'"
    proof
      assume cut: "scope_outcome s (cancels w') x = Raise cancelled_error"
      have "bounded (Some t) ?f w = (Raise cancelled_error, w')" using s(4) cut w' by (simp add: bounded_def)
      from orderlyD [OF orderly_bounded [OF orderly_accept_loop [OF accept] k] this]
      show "cancels w < cancels w'" by (simp add: cancelled_error_def issubclass_eval)
    qed
    show "r = (case scope_outcome s (cancels w') x of
      Raise e \<Rightarrow> Raise (if isinstance e TimeoutErrorC \<and> fired s then with_cause (NotificationTimeout t step None) e else e) | y \<Rightarrow> y)"
      using r unfolding w' by (cases x) (auto simp: scope_outcome_def split: if_splits)
  qed
qed

lemma wait_for_picks:
  assumes accept: "\<And>x e. accept x = Inl e \<Longrightarrow> isinstance e ExceptionC" and run: "wait_for n accept t step w = (r, w')"
  shows "picks n accept w r w' (last_wait_fails n step t w w')"
proof -
  let ?fails = "\<lambda>s a e. e = cancelled_error \<and> (fired s \<longrightarrow> silence n (now w + t - now a) a)
      \<or> e = link_gone step \<and> drop_won n w' \<and> woken n a w'"
  obtain x s where p: "picks n accept w x w' (?fails s)"
    and late: "fired s \<longrightarrow> now w + t \<le> now w'"
    and quiet: "\<forall>e. x = Raise e \<and> \<not> isinstance e CancelledErrorC \<longrightarrow> \<not> fired s"
    and cut: "scope_outcome s (cancels w') x = Raise cancelled_error \<longrightarrow> cancels w < cancels w'"
    and r: "r = (case scope_outcome s (cancels w') x of
      Raise e \<Rightarrow> Raise (if isinstance e TimeoutErrorC \<and> fired s then with_cause (NotificationTimeout t step None) e else e) | y \<Rightarrow> y)"
    by (rule wait_for_scoped [OF assms])
  show ?thesis
  proof (cases x)
    case (Raise e)
    show ?thesis
    proof (cases "e = cancelled_error")
      case True
      with accept have plain: "accept y \<noteq> Inl e" for y by (force simp: cancelled_error_def issubclass_eval)
      show ?thesis
      proof (cases "fired s \<and> cancels w' \<le> base s")
        case fired: True
        with r Raise True have "r = Raise (timed_out t step)"
          by (simp add: scope_outcome_def timed_out_def cancelled_error_def timeout_error_def issubclass_eval)
        have "isinstance e CancelledErrorC \<noteq> isinstance (link_gone step) CancelledErrorC"
          using True by (simp add: cancelled_error_def issubclass_eval)
        then have "e \<noteq> link_gone step" by auto
        then have "last_wait_fails n step t w w' v (timed_out t step)" if "?fails s v e" for v
          using that late fired by (auto simp: last_wait_fails_def)
        then show ?thesis
          using picks_fail [OF p [unfolded Raise] plain, where fails' = "last_wait_fails n step t w w'" and e' = "timed_out t step"]
            \<open>r = Raise (timed_out t step)\<close> by blast
      next
        case False
        with Raise True have out: "scope_outcome s (cancels w') x = Raise cancelled_error"
          by (auto simp: scope_outcome_def)
        with r have "r = Raise cancelled_error" by (simp add: cancelled_error_def issubclass_eval)
        then show ?thesis
          using picks_fail [OF p [unfolded Raise] plain, of "last_wait_fails n step t w w'" cancelled_error] cut out
          by (auto simp: last_wait_fails_def)
      qed
    next
      case False
      with p Raise accept have e: "\<not> isinstance e CancelledErrorC"
        using isinstance_exception_not_cancelled by (auto simp: picks_def issubclass_eval)
      with r Raise quiet have "r = Raise e" by (simp add: scope_outcome_def)
      with p Raise False show ?thesis
        using picks_mono [OF p, of "last_wait_fails n step t w w'"] by (auto simp: last_wait_fails_def)
    qed
  qed (use r p in \<open>simp_all add: picks_def scope_outcome_def\<close>)
qed

lemma ends_within_wait_for: "ends_within (max 0 t) (wait_for n accept t step)"
proof (rule ends_withinI)
  fix w r w'
  assume wait: "wait_for n accept t step w = (r, w')"
  obtain y ex v where run: "with_timeout (Some t) (accept_loop n step accept) w = ((y, ex), v)"
    by (cases "with_timeout (Some t) (accept_loop n step accept) w") auto
  then have "bounded (Some t) (accept_loop n step accept) w = (y, v)" by (simp add: bounded_def)
  from ends_withinD [OF ends_within_bounded [OF polite_accept_loop] this] wait
  show "r \<noteq> Hang \<and> now w' \<le> now w + max 0 t"
    by (cases y) (auto simp: wait_for_run [OF run] split: if_splits)
qed




section \<open>Asking and being answered\<close>

text \<open>The fake is up, its one subscription is the handle's, and nothing makes a write fail.\<close>

definition responsive :: "fake notif \<Rightarrow> fake_memory world \<Rightarrow> bool" where
  "responsive n w \<longleftrightarrow>
     subscribed (env (mem w)) = [(n_char n, n_queue n)] \<and> fail_write (env (mem w)) = None
     \<and> write_delay_s (env (mem w)) = 0 \<and> \<not> link_down (n_client n) (n_dropped n) w w"

lemma left_with_client [simp]:
  "dropped_event c (left_with n xs w) = dropped_event c w" "env (mem (left_with n xs w)) = env (mem w)"
  by (simp_all add: left_with_def set_queue_def dropped_event_def)

lemma replies_run:
  assumes "subscribed (env m) = [(k, q)]"
  shows "fold (\<lambda>x. reply x None) xs m = fold (put_frame q) xs m"
  using assms
proof (induction xs arbitrary: m)
  case (Cons x xs)
  then have "reply x None m = put_frame q x m" by (simp add: reply_def Let_def)
  with Cons show ?case by simp
qed simp

lemma puts_sel:
  "queues (fold (put_frame q) xs m) q = queues m q @ xs" "events (fold (put_frame q) xs m) = events m"
  "env (fold (put_frame q) xs m) = env m"
  by (induction xs arbitrary: m) simp_all

lemma fake_write_answers:
  assumes "responsive n w" and "n_client n = fake_client i (Some (answering answer))"
  shows "\<exists>v. guarded_write (n_client n) ch data step r (Some t) (n_dropped n) phase w = (Return (), v)
    \<and> frames n v = frames n w @ answer ch data \<and> fake_writes (mem v) = fake_writes (mem w) @ [(ch, data, r)]
    \<and> now v = now w \<and> is_set v = is_set w"
proof -
  let ?m = "on_fake (\<lambda>s. s\<lparr>writes := writes s @ [(ch, data, r)]\<rparr>) (mem w)"
  let ?v = "w\<lparr>mem := fold (put_frame (n_queue n)) (answer ch data) ?m\<rparr>"
  have sub: "subscribed (env ?m) = [(n_char n, n_queue n)]" using assms(1) by (simp add: responsive_def on_fake_def)
  have "fake_write (Some (answering answer)) ch data r (push_scope (Some t) w)
      = (Return (), (push_scope (Some t) w)\<lparr>mem := fold (put_frame (n_queue n)) (answer ch data) ?m\<rparr>)"
    using assms(1) replies_run [OF sub]
    by (simp add: fake_write_def bind_def reading_def pause_if_def raise_if_def ret_def responsive_def change_def
        update_def call_on_write_def answering_def)
  then have "with_timeout (Some t) (c_write (n_client n) ch data r) w = ((Return (), False), ?v)"
    by (simp add: assms(2) fake_client_def with_timeout_def push_scope_def pop_scope_def scope_outcome_def)
  from bounded_write_run [OF this] assms(1)
  have "guarded_write (n_client n) ch data step r (Some t) (n_dropped n) phase w = (Return (), ?v)"
    by (simp add: guarded_write_unfold responsive_def)
  then show ?thesis
    by (intro exI [of _ ?v]) (simp add: puts_sel on_fake_def)
qed

text \<open>
  C21: A request is answered by the reply to it: whatever was queued before is dropped, the data is
  written once, and the first notification the device sends for it is the result, with the others left
  for the next wait.
\<close>

theorem request_answered:
  assumes "responsive n w" and "n_client n = fake_client i (Some (answering answer))"
    and "answer ch data = reply1 # later"
  shows "\<exists>w'. request n ch data t step wt r None 0 w = (Return reply1, w') \<and> frames n w' = later
    \<and> fake_writes (mem w') = fake_writes (mem w) @ [(ch, data, r)] \<and> now w' = now w"
proof -
  let ?w = "left_with n [] w" and ?t = "case wt of None \<Rightarrow> t | Some s \<Rightarrow> s"
  have up: "raise_if_dropped (n_dropped n) step ''before'' w = (Return (), w)"
    using assms(1) by (auto simp: raise_if_dropped_cases responsive_def link_down_def)
  have "responsive n ?w" using assms(1) by (simp add: responsive_def link_down_def cong: option.case_cong)
  from fake_write_answers [OF this assms(2), of ch data step r ?t "''before''"] obtain v where
    v: "guarded_write (n_client n) ch data step r (Some ?t) (n_dropped n) ''before'' ?w = (Return (), v)"
      "frames n v = reply1 # later" "fake_writes (mem v) = fake_writes (mem w) @ [(ch, data, r)]" "now v = now w"
    using assms(3) by auto
  have "request n ch data t step wt r None 0 w = next_reply n t step v"
    using up v(1) by (simp add: request_def bind_def clear_frames_def ret_def)
  with next_reply_queued [OF v(2)] v(3,4) show ?thesis by simp
qed

text \<open>A stale frame is dropped, and the device echoes what it is sent.\<close>

theorem request_answered_witness:
  "\<exists>w'. request (handle_on (fake_client 1 (Some (answering (\<lambda>_ d. [d, [0]]))))) ''2a1a'' [1, 2] 5 ''ask'' None (Some False) None 0
       ((fake_world ((FakeClient True)\<lparr>subscribed := [(''2a19'', 1)]\<rparr>))\<lparr>mem :=
          put_frame 1 [9] (mem (fake_world ((FakeClient True)\<lparr>subscribed := [(''2a19'', 1)]\<rparr>)))\<rparr>)
     = (Return [1, 2], w')"
proof -
  let ?n = "handle_on (fake_client 1 (Some (answering (\<lambda>_ d. [d, [0]]))))"
  let ?f = "fake_world ((FakeClient True)\<lparr>subscribed := [(''2a19'', 1)]\<rparr>)"
  let ?w = "?f\<lparr>mem := put_frame 1 [9] (mem ?f)\<rparr>"
  have r: "responsive ?n ?w"
    by (simp add: responsive_def handle_on_def fake_world_def idle_def FakeClient_def link_down_def put_frame_def)
  from request_answered [OF r, of 1 "\<lambda>_ d. [d, [0]]" "''2a1a''" "[1, 2]" "[1, 2]" "[[0]]" 5 "''ask''" None "Some False"]
  show ?thesis by (auto simp: handle_on_def)
qed

section \<open>The subscription\<close>

text \<open>What the unsubscribe depends on: the fake's subscriptions, whether its unsubscribe fails, its link.\<close>

abbreviation subscription_state :: "fake_memory \<Rightarrow> (string, nat) dict \<times> exc option \<times> bool" where
  "subscription_state m \<equiv> (subscribed (env m), fail_stop_notify (env m), f_connected (env m))"

lemma fake_stop_run:
  assumes "f_connected (env (mem w))" and "fail_stop_notify (env (mem w)) = None"
  shows "\<exists>v. stop_notify_best_effort (fake_client i f) ch None w = (Return (), v)
    \<and> subscribed (env (mem v)) = filter (\<lambda>(k, _). k \<noteq> ch) (subscribed (env (mem w)))"
  using assms
  by (simp add: stop_notify_best_effort_def fake_client_def catch_def bounded_def with_timeout_def push_scope_def
      pop_scope_def scope_outcome_def fake_stop_notify_def reading_def bind_def raise_if_def ret_def change_def
      update_def on_fake_def)

lemma fresh_key_removed: "\<not> dict_has d k \<Longrightarrow> filter (\<lambda>(j, _). j \<noteq> k) (d @ [(k, v)]) = d"
  by (force simp: dict_has_def filter_id_conv)

lemma fake_start_run:
  assumes "fail_start_notify (env (mem w)) = None" and "\<not> dict_has (subscribed (env (mem w))) ch"
  shows "\<exists>v. fake_start_notify ch q w = (Return (), v)
    \<and> subscription_state (mem v) = (subscribed (env (mem w)) @ [(ch, q)], fail_stop_notify (env (mem w)), f_connected (env (mem w)))
    \<and> agenda v = agenda w \<and> cancels v = cancels w"
  using assms
  by (simp add: fake_start_notify_def reading_def bind_def raise_if_def ret_def change_def update_def on_fake_def
      puts_sel Let_def dict_set_fresh dict_has_def)

text \<open>What comes before the block: the characteristic is subscribed, then given time to settle.\<close>

definition subscribing :: "fake notif \<Rightarrow> (unit, fake) ble" where
  "subscribing n = bind (fake_start_notify (n_char n) (n_queue n))
     (\<lambda>_. if n_settle n \<noteq> 0 then sleep (n_settle n) else ret ())"

text \<open>
  C15: A subscription lasts as long as its block, on a fake client whose link stays up and which is not
  scripted to fail, and for a block that ends and leaves the subscriptions alone.  The block runs with the handle's characteristic
  subscribed to the handle's queue besides what was subscribed before, and its outcome is the outcome,
  whatever it is; the characteristic is unsubscribed when it ends.  Where the task is cancelled while the
  subscription settles, the block does not run, the cancellation is the outcome, and the characteristic
  is unsubscribed as well.
\<close>

theorem subscription_scoped:
  fixes body :: "('a, fake) ble"
  assumes "n_client n = fake_client i f" and "\<not> n_recover n" and "fail_start_notify (env (mem w)) = None"
    and "subscription_state (mem w) = (subs, None, True)" and "\<not> dict_has subs (n_char n)"
    and "intact subscription_state w" and "keeps (part_frame subscription_state) body"
    and "with_notifications n body w = (r, w')" and "r \<noteq> Hang"
  shows "subscribed (env (mem w')) = subs \<and>
    (case subscribing n w of
       (Return _, w2) \<Rightarrow> subscribed (env (mem w2)) = subs @ [(n_char n, n_queue n)] \<and> (\<exists>w3. body w2 = (r, w3))
     | (Raise e, w2) \<Rightarrow> e = cancelled_error \<and> cancels w < cancels w2 \<and> r = Raise e
         \<and> (\<forall>other. with_notifications n other w = (r, w'))
     | (Hang, w2) \<Rightarrow> False)"
proof -
  let ?on = "(subs @ [(n_char n, n_queue n)], None, True) :: (string, nat) dict \<times> exc option \<times> bool"
  let ?settle = "if n_settle n \<noteq> 0 then sleep (n_settle n) else ret () :: (unit, fake) ble"
  have stop: "\<exists>u. stop_notifications n v = (Return (), u) \<and> subscribed (env (mem u)) = subs"
    if "subscription_state (mem v) = ?on" for v
    using fake_stop_run [of v i f "n_char n"] that fresh_key_removed [OF assms(5)]
    by (auto simp: stop_notifications_def assms(1))
  obtain w1 where 1: "fake_start_notify (n_char n) (n_queue n) w = (Return (), w1)"
    "subscription_state (mem w1) = ?on" "agenda w1 = agenda w" "cancels w1 = cancels w"
    using fake_start_run [of w "n_char n" "n_queue n"] assms(3,4,5) by auto
  have i1: "intact subscription_state w1" using assms(6) 1(3) by (simp add: intact_def)
  obtain x w2 where 2: "?settle w1 = (x, w2)" by (cases "?settle w1")
  with 1(1) have sub: "subscribing n w = (x, w2)" by (simp add: subscribing_def bind_def)
  have "keeps (part_frame subscription_state) ?settle" by (simp add: part.keeps_sleep part.keeps_ret)
  from part_frameD [OF this 2 i1] 1(2) have s2: "intact subscription_state w2" "subscription_state (mem w2) = ?on"
    by simp_all
  have run: "with_notifications n b w =
      bind (catch ?settle (\<lambda>_. True) (\<lambda>e. bind (stop_notifications n) (\<lambda>_. throw e)))
        (\<lambda>_. finally_do b (stop_notifications n)) w1" for b :: "('a, fake) ble"
    using 1(1) assms(1,2) by (simp add: with_notifications_def start_notifications_def bind_def fake_client_def)
  show ?thesis
  proof (cases x)
    case (Return u)
    obtain y w3 where 3: "body w2 = (y, w3)" by (cases "body w2")
    from part_frameD [OF assms(7) 3 s2(1)] s2(2) have "subscription_state (mem w3) = ?on" by simp
    from stop [OF this] obtain u where "stop_notifications n w3 = (Return (), u)" "subscribed (env (mem u)) = subs" by blast
    with run [of body] Return 2 3 assms(8,9) have "r = y" "w' = u"
      by (cases y; auto simp: bind_def catch_def finally_do_def)+
    with 3 \<open>subscribed (env (mem u)) = subs\<close> sub Return s2(2) show ?thesis by simp
  next
    case (Raise e)
    with 2 have e: "e = cancelled_error" using sleep_raises by (auto simp: ret_def split: if_splits)
    have "orderly ?settle" by (simp add: orderly_sleep orderly_ret)
    from orderlyD [OF this 2 [unfolded Raise]] e 1(4) have "cancels w < cancels w2"
      by (simp add: cancelled_error_def issubclass_eval)
    moreover from stop [OF s2(2)] obtain u where u: "stop_notifications n w2 = (Return (), u)" "subscribed (env (mem u)) = subs"
      by blast
    moreover have "with_notifications n b w = (Raise e, u)" for b :: "('a, fake) ble"
      using run Raise 2 u(1) by (simp add: bind_def catch_def throw_def)
    ultimately show ?thesis using sub Raise e assms(8) by auto
  next
    case Hang
    with run [of body] 2 assms(8,9) show ?thesis by (simp add: bind_def catch_def)
  qed
qed

text \<open>A block that fails.\<close>

theorem subscription_scoped_witness:
  "\<exists>w'. with_notifications (handle_on (fake_client 1 None)) (throw (plain_exc BleakErrorC ''boom'') :: (unit, fake) ble)
       (fake_world ((FakeClient True)\<lparr>subscribed := [(''2a1b'', 7)]\<rparr>)) = (Raise (plain_exc BleakErrorC ''boom''), w')
     \<and> subscribed (env (mem w')) = [(''2a1b'', 7)]"
proof -
  let ?n = "handle_on (fake_client 1 None)" and ?w = "fake_world ((FakeClient True)\<lparr>subscribed := [(''2a1b'', 7)]\<rparr>)"
  let ?body = "throw (plain_exc BleakErrorC ''boom'') :: (unit, fake) ble"
  obtain r w' where run: "with_notifications ?n ?body ?w = (r, w')" by (cases "with_notifications ?n ?body ?w")
  have "fst (with_notifications ?n ?body ?w) = Raise (plain_exc BleakErrorC ''boom'')"
    by (simp add: with_notifications_def start_notifications_def stop_notifications_def stop_notify_best_effort_def
        handle_on_def fake_start_notify_def fake_stop_notify_def session_run loop_run)
  with run have r: "r = Raise (plain_exc BleakErrorC ''boom'')" by simp
  have n: "n_client ?n = fake_client 1 None" "\<not> n_recover ?n" "\<not> dict_has [(''2a1b'', 7 :: nat)] (n_char ?n)"
    by (simp_all add: handle_on_def dict_has_def)
  have w: "fail_start_notify (env (mem ?w)) = None" "subscription_state (mem ?w) = ([(''2a1b'', 7)], None, True)"
    "intact subscription_state ?w"
    by (simp_all add: fake_world_def idle_def FakeClient_def intact_def)
  have "r \<noteq> Hang" using r by simp
  with subscription_scoped [OF n(1,2) w(1,2) n(3) w(3) part.keeps_throw run] run r show ?thesis by blast
qed

end
