(* ===== verification/WaitTasks.thy ===== *)
theory WaitTasks
  imports NotificationLaws
begin

text \<open>
  The tasks inside one wait of \<open>Notifications._next\<close> (\<open>notifications.py\<close>): the two inner tasks, \<open>get\<close> on the
  queue and \<open>drop\<close> on the event of the link, the task that runs \<open>asyncio.wait\<close> over them, and the
  callbacks the event loop has still to run.  A history is any sequence of frames, drops, cancellations
  and turns of the loop.  Python's part (when a task is woken, what a cancellation does to a waiting and
  to a scheduled one) is \<open>happen\<close> and \<open>run_handle\<close>; the library's part is \<open>enter_wait\<close> and \<open>resume_wait\<close>.

  The lemmas: invariants of every history (\<open>sound\<close>, \<open>attended\<close>, \<open>in_turn\<close>, \<open>slim\<close>), by induction over it;
  from them, that no frame is lost, that a wait wakes, and that the wait in one step of theory
  Notifications, whose outcome in a race is a parameter, covers every interleaving.
\<close>

section \<open>The tasks of one wait\<close>

text \<open>A task waits on its future, is scheduled to run, or has ended; \<open>Took x\<close> is a \<open>get\<close> whose result is \<open>x\<close>.\<close>

datatype 'f getter = GetWaits | GetScheduled | Took 'f | GetCancelled

datatype dropper = DropWaits | DropScheduled | DropSeen | DropCancelled

text \<open>A callback the event loop has still to run: a step of a task, or \<open>asyncio.wait\<close>'s notice that
  one of them completed.\<close>

datatype handle = RunGet | RunDrop | Notice | RunMain

datatype 'f verdict = Handed 'f | LinkLost | Interrupted

text \<open>\<open>get_cut\<close>, \<open>drop_cut\<close>, \<open>main_cut\<close>: a cancellation was requested; \<open>woken\<close>: the future \<open>asyncio.wait\<close>
  waits on is done.\<close>

record 'f wait_state =
  inbox :: "'f list"
  link_flag :: bool
  getter :: "'f getter"
  get_cut :: bool
  dropper :: dropper
  drop_cut :: bool
  handles :: "handle list"
  woken :: bool
  main_cut :: bool
  verdict :: "'f verdict option"

text \<open>The queue is empty and the link up: both inner tasks are created, the outer one waits.\<close>

definition enter_wait :: "'f wait_state" where
  "enter_wait =
     \<lparr>inbox = [], link_flag = False, getter = GetScheduled, get_cut = False, dropper = DropScheduled, drop_cut = False,
      handles = [RunGet, RunDrop], woken = False, main_cut = False, verdict = None\<rparr>"

definition schedule :: "handle \<Rightarrow> 'f wait_state \<Rightarrow> 'f wait_state" where
  "schedule h s = s\<lparr>handles := handles s @ [h]\<rparr>"

text \<open>\<open>drop.cancel()\<close> and \<open>get.cancel()\<close>: a waiting task is woken to see it, a scheduled one sees it when it runs.\<close>

definition cancel_drop :: "'f wait_state \<Rightarrow> 'f wait_state" where
  "cancel_drop s =
     (case dropper s of
        DropWaits \<Rightarrow> schedule RunDrop (s\<lparr>dropper := DropScheduled, drop_cut := True\<rparr>)
      | DropScheduled \<Rightarrow> s\<lparr>drop_cut := True\<rparr>
      | _ \<Rightarrow> s)"

definition cancel_get :: "'f wait_state \<Rightarrow> 'f wait_state" where
  "cancel_get s =
     (case getter s of
        GetWaits \<Rightarrow> schedule RunGet (s\<lparr>getter := GetScheduled, get_cut := True\<rparr>)
      | GetScheduled \<Rightarrow> s\<lparr>get_cut := True\<rparr>
      | _ \<Rightarrow> s)"

text \<open>The outer task runs again: the rest of \<open>_next\<close>, its \<open>finally\<close> included.\<close>

definition resume_wait :: "'f wait_state \<Rightarrow> 'f wait_state" where
  "resume_wait s =
     (if main_cut s then
        (case getter s of
           Took x \<Rightarrow> (cancel_drop s)\<lparr>inbox := x # inbox s, verdict := Some Interrupted\<rparr>
         | GetCancelled \<Rightarrow> (cancel_drop s)\<lparr>verdict := Some Interrupted\<rparr>
         | _ \<Rightarrow> (cancel_get (cancel_drop s))\<lparr>verdict := Some Interrupted\<rparr>)
      else
        (case getter s of
           Took x \<Rightarrow> (cancel_drop s)\<lparr>verdict := Some (Handed x)\<rparr>
         | GetCancelled \<Rightarrow> (cancel_drop s)\<lparr>verdict := Some Interrupted\<rparr>
         | _ \<Rightarrow> (cancel_get (cancel_drop s))\<lparr>verdict := Some LinkLost\<rparr>))"

text \<open>A task that ended tells \<open>asyncio.wait\<close>, as long as that still waits.\<close>

definition completed :: "'f wait_state \<Rightarrow> 'f wait_state" where
  "completed s = (if verdict s = None then schedule Notice s else s)"

fun run_handle :: "handle \<Rightarrow> 'f wait_state \<Rightarrow> 'f wait_state" where
  "run_handle RunGet s =
     (if getter s \<noteq> GetScheduled then s
      else if get_cut s then completed (s\<lparr>getter := GetCancelled\<rparr>)
      else case inbox s of
        [] \<Rightarrow> s\<lparr>getter := GetWaits\<rparr>
      | x # xs \<Rightarrow> completed (s\<lparr>inbox := xs, getter := Took x\<rparr>))"
| "run_handle RunDrop s =
     (if dropper s \<noteq> DropScheduled then s
      else if drop_cut s then completed (s\<lparr>dropper := DropCancelled\<rparr>)
      else if link_flag s then completed (s\<lparr>dropper := DropSeen\<rparr>)
      else s\<lparr>dropper := DropWaits\<rparr>)"
| "run_handle Notice s = (if woken s then s else schedule RunMain (s\<lparr>woken := True\<rparr>))"
| "run_handle RunMain s = (if verdict s = None then resume_wait s else s)"

text \<open>What happens, in any order: a frame, the drop of the link, a cancellation of the outer task (a bound
  that fires), one turn of the event loop.\<close>

datatype 'f happening = Arrives 'f | Drops | Cut | Turn

fun happen :: "'f wait_state \<Rightarrow> 'f happening \<Rightarrow> 'f wait_state" where
  "happen s (Arrives x) =
     (let s1 = s\<lparr>inbox := inbox s @ [x]\<rparr>
      in if getter s = GetWaits then schedule RunGet (s1\<lparr>getter := GetScheduled\<rparr>) else s1)"
| "happen s Drops =
     (let s1 = s\<lparr>link_flag := True\<rparr>
      in if dropper s = DropWaits then schedule RunDrop (s1\<lparr>dropper := DropScheduled\<rparr>) else s1)"
| "happen s Cut =
     (if verdict s \<noteq> None then s
      else if woken s then s\<lparr>main_cut := True\<rparr>
      else schedule RunMain (s\<lparr>main_cut := True, woken := True\<rparr>))"
| "happen s Turn = (case handles s of [] \<Rightarrow> s | h # hs \<Rightarrow> run_handle h (s\<lparr>handles := hs\<rparr>))"

definition history_of :: "'f happening list \<Rightarrow> 'f wait_state" where
  "history_of es = foldl happen enter_wait es"

definition frames_in :: "'f happening list \<Rightarrow> 'f list" where
  "frames_in es = concat (map (\<lambda>e. case e of Arrives x \<Rightarrow> [x] | _ \<Rightarrow> []) es)"

section \<open>What every history keeps\<close>

abbreviation took :: "'f wait_state \<Rightarrow> bool" where
  "took s \<equiv> \<exists>x. getter s = Took x"

definition sound :: "'f wait_state \<Rightarrow> bool" where
  "sound s \<longleftrightarrow>
     (verdict s = None \<longrightarrow> \<not> get_cut s \<and> \<not> drop_cut s \<and> getter s \<noteq> GetCancelled \<and> dropper s \<noteq> DropCancelled) \<and>
     (verdict s \<noteq> None \<longrightarrow> (getter s = GetScheduled \<longrightarrow> get_cut s) \<and> (dropper s = DropScheduled \<longrightarrow> drop_cut s)) \<and>
     (getter s = GetWaits \<longrightarrow> verdict s = None \<and> inbox s = []) \<and>
     (dropper s = DropWaits \<longrightarrow> verdict s = None \<and> \<not> link_flag s) \<and>
     (dropper s = DropSeen \<longrightarrow> link_flag s) \<and> (verdict s = Some LinkLost \<longrightarrow> link_flag s) \<and> (main_cut s \<longrightarrow> woken s)"

text \<open>Whatever is due has a callback that will see to it.\<close>

definition attended :: "'f wait_state \<Rightarrow> bool" where
  "attended s \<longleftrightarrow>
     (getter s = GetScheduled \<longrightarrow> RunGet \<in> set (handles s)) \<and>
     (dropper s = DropScheduled \<longrightarrow> RunDrop \<in> set (handles s)) \<and>
     (verdict s = None \<and> woken s \<longrightarrow> RunMain \<in> set (handles s)) \<and>
     (verdict s = None \<and> \<not> woken s \<and> (took s \<or> dropper s = DropSeen) \<longrightarrow> Notice \<in> set (handles s)) \<and>
     (RunMain \<in> set (handles s) \<longrightarrow> woken s) \<and>
     (verdict s = None \<and> (Notice \<in> set (handles s) \<or> woken s \<and> \<not> main_cut s) \<longrightarrow> took s \<or> dropper s = DropSeen)"

lemma schedule_sel [simp]:
  "inbox (schedule h s) = inbox s" "link_flag (schedule h s) = link_flag s" "getter (schedule h s) = getter s"
  "get_cut (schedule h s) = get_cut s" "dropper (schedule h s) = dropper s" "drop_cut (schedule h s) = drop_cut s"
  "handles (schedule h s) = handles s @ [h]" "woken (schedule h s) = woken s" "main_cut (schedule h s) = main_cut s"
  "verdict (schedule h s) = verdict s"
  by (simp_all add: schedule_def)

lemma completed_sel [simp]:
  "inbox (completed s) = inbox s" "link_flag (completed s) = link_flag s" "getter (completed s) = getter s"
  "get_cut (completed s) = get_cut s" "dropper (completed s) = dropper s" "drop_cut (completed s) = drop_cut s"
  "handles (completed s) = handles s @ (if verdict s = None then [Notice] else [])" "woken (completed s) = woken s"
  "main_cut (completed s) = main_cut s" "verdict (completed s) = verdict s"
  by (simp_all add: completed_def)

text \<open>What the outer task leaves behind: a verdict, and inner tasks that have ended or are about to.\<close>

lemma resume_sel [simp]:
  "link_flag (resume_wait s) = link_flag s" "woken (resume_wait s) = woken s" "main_cut (resume_wait s) = main_cut s"
  "getter (resume_wait s) = (if getter s = GetWaits then GetScheduled else getter s)"
  "get_cut (resume_wait s) \<longleftrightarrow> getter s \<in> {GetWaits, GetScheduled} \<or> get_cut s"
  "dropper (resume_wait s) = (if dropper s = DropWaits then DropScheduled else dropper s)"
  "drop_cut (resume_wait s) \<longleftrightarrow> dropper s \<in> {DropWaits, DropScheduled} \<or> drop_cut s"
  "handles (resume_wait s) = handles s @ (if dropper s = DropWaits then [RunDrop] else [])
     @ (if getter s = GetWaits then [RunGet] else [])"
  by (cases "getter s"; cases "dropper s"; simp add: resume_wait_def cancel_get_def cancel_drop_def)+

lemma resume_verdict:
  "verdict (resume_wait s) = Some (case getter s of
     Took x \<Rightarrow> if main_cut s then Interrupted else Handed x
   | GetCancelled \<Rightarrow> Interrupted
   | _ \<Rightarrow> if main_cut s then Interrupted else LinkLost)"
  by (cases "getter s") (simp_all add: resume_wait_def)

lemma resume_inbox:
  "inbox (resume_wait s) = (case getter s of Took x \<Rightarrow> if main_cut s then x # inbox s else inbox s | _ \<Rightarrow> inbox s)"
  by (cases "getter s"; cases "dropper s"; simp add: resume_wait_def cancel_get_def cancel_drop_def)

lemma turn_cases:
  obtains "handles s = []" and "happen s Turn = s"
  | h hs where "handles s = h # hs" and "happen s Turn = run_handle h (s\<lparr>handles := hs\<rparr>)"
  by (cases "handles s") simp_all

lemma run_sound:
  assumes "sound s" and "attended (s\<lparr>handles := h # hs\<rparr>)"
  shows "sound (run_handle h (s\<lparr>handles := hs\<rparr>))"
proof (cases h)
  case RunGet
  with assms(1) show ?thesis by (cases "verdict s") (auto simp: sound_def split: list.split)
next
  case RunDrop
  with assms(1) show ?thesis by (cases "verdict s") (auto simp: sound_def)
next
  case Notice
  with assms(1) show ?thesis by (auto simp: sound_def)
next
  case RunMain
  show ?thesis
  proof (cases "verdict s")
    case None
    have "link_flag s" if "\<not> main_cut s" "getter s \<in> {GetWaits, GetScheduled}"
      using assms RunMain None that by (auto simp: sound_def attended_def)
    then show ?thesis using assms(1) RunMain None
      by (auto simp: sound_def resume_verdict split: getter.splits if_splits)
  qed (use assms(1) RunMain in \<open>simp add: sound_def\<close>)
qed

lemma run_attended:
  assumes "sound s" and "attended (s\<lparr>handles := h # hs\<rparr>)"
  shows "attended (run_handle h (s\<lparr>handles := hs\<rparr>))"
proof (cases h)
  case RunGet
  with assms show ?thesis by (cases "verdict s") (auto simp: attended_def sound_def split: list.split)
next
  case RunDrop
  with assms show ?thesis by (cases "verdict s") (auto simp: attended_def sound_def)
next
  case Notice
  with assms show ?thesis by (auto simp: attended_def)
next
  case RunMain
  with assms show ?thesis by (auto simp: attended_def resume_verdict)
qed

lemma happen_sound:
  assumes "sound s" and "attended s"
  shows "sound (happen s e) \<and> attended (happen s e)"
proof (cases e)
  case (Arrives x)
  with assms show ?thesis by (cases "verdict s") (auto simp: sound_def attended_def Let_def)
next
  case Drops
  with assms show ?thesis by (cases "verdict s") (auto simp: sound_def attended_def Let_def)
next
  case Cut
  with assms show ?thesis by (cases "verdict s") (auto simp: sound_def attended_def)
next
  case Turn
  show ?thesis
  proof (cases s rule: turn_cases)
    case (2 h hs)
    then have "attended (s\<lparr>handles := h # hs\<rparr>)" using assms(2) by (simp add: attended_def)
    from run_sound [OF assms(1) this] run_attended [OF assms(1) this] 2(2) Turn show ?thesis by simp
  qed (use Turn assms in simp)
qed

lemma history_snoc: "history_of (es @ [e]) = happen (history_of es) e"
  by (simp add: history_of_def)

lemma history_inv: "sound (history_of es) \<and> attended (history_of es)"
proof (induction es rule: rev_induct)
  case Nil
  show ?case by (simp add: history_of_def enter_wait_def sound_def attended_def)
qed (simp add: history_snoc happen_sound)

lemmas history_sound = history_inv [THEN conjunct1]
lemmas history_attended = history_inv [THEN conjunct2]

section \<open>No frame is lost\<close>

fun handed_over :: "'f verdict option \<Rightarrow> 'f list" where
  "handed_over (Some (Handed x)) = [x]"
| "handed_over _ = []"

definition in_hand :: "'f wait_state \<Rightarrow> 'f list" where
  "in_hand s = (if verdict s = None then (case getter s of Took x \<Rightarrow> [x] | _ \<Rightarrow> []) else [])"

definition kept :: "'f wait_state \<Rightarrow> 'f list" where
  "kept s = handed_over (verdict s) @ in_hand s @ inbox s"

lemma kept_handles [simp]: "kept (s\<lparr>handles := hs\<rparr>) = kept s"
  by (simp add: kept_def in_hand_def)

lemma kept_run:
  assumes "sound s"
  shows "kept (run_handle h s) = kept s"
proof (cases h)
  case RunGet
  with assms show ?thesis by (cases "verdict s") (auto simp: sound_def kept_def in_hand_def split: list.split)
next
  case RunMain
  then show ?thesis
    by (auto simp: kept_def in_hand_def resume_verdict resume_inbox split: getter.split)
qed (auto simp: kept_def in_hand_def)

lemma kept_happen:
  assumes "sound s"
  shows "kept (happen s e) = kept s @ frames_in [e]"
proof (cases e)
  case Turn
  have "sound (s\<lparr>handles := hs\<rparr>)" for hs using assms by (simp add: sound_def)
  with Turn show ?thesis by (cases s rule: turn_cases) (simp_all add: kept_run frames_in_def)
qed (auto simp: kept_def in_hand_def Let_def frames_in_def split: getter.split)

lemma frames_in_append [simp]: "frames_in (es @ fs) = frames_in es @ frames_in fs"
  by (simp add: frames_in_def)

lemma history_keeps: "kept (history_of es) = frames_in es"
proof (induction es rule: rev_induct)
  case Nil
  show ?case by (simp add: history_of_def enter_wait_def kept_def in_hand_def frames_in_def)
next
  case (snoc e es)
  with history_sound [of es] show ?case by (simp add: history_snoc kept_happen)
qed

section \<open>A frame before the drop answers the wait\<close>

definition up_to_drop :: "'f happening list \<Rightarrow> 'f happening list" where
  "up_to_drop es = takeWhile (\<lambda>e. e \<noteq> Drops) es"

text \<open>While a \<open>get\<close> has a frame to take and the drop came after that frame, nothing that could end the wait
  is ahead of its step.\<close>

definition in_turn :: "'f happening list \<Rightarrow> 'f wait_state \<Rightarrow> bool" where
  "in_turn es s \<longleftrightarrow>
     (verdict s = None \<and> \<not> main_cut s \<and> getter s = GetScheduled \<and> (Drops \<in> set es \<longrightarrow> frames_in (up_to_drop es) \<noteq> []) \<longrightarrow>
        set (takeWhile (\<lambda>h. h \<noteq> RunGet) (handles s)) \<subseteq> {RunDrop}) \<and>
     (link_flag s \<longleftrightarrow> Drops \<in> set es) \<and>
     (verdict s = Some LinkLost \<longrightarrow> frames_in (up_to_drop es) = [])"

lemma up_to_drop_snoc:
  "up_to_drop (es @ [e]) = (if Drops \<in> set es then up_to_drop es else if e = Drops then es else es @ [e])"
  by (induction es) (auto simp: up_to_drop_def)

lemma up_to_drop_all: "Drops \<notin> set es \<Longrightarrow> up_to_drop es = es"
  by (auto simp: up_to_drop_def takeWhile_eq_all_conv)

lemma frames_up_to_drop: "frames_in es = [] \<Longrightarrow> frames_in (up_to_drop es) = []"
  by (metis frames_in_append append_is_Nil_conv takeWhile_dropWhile_id up_to_drop_def)

text \<open>A \<open>get\<close> that still waits has seen no frame.\<close>

lemma waiting_no_frames: "sound s \<Longrightarrow> getter s = GetWaits \<Longrightarrow> kept s = []"
  by (auto simp: sound_def kept_def in_hand_def)

lemma nothing_ahead:
  assumes "sound s" and "attended s" and "getter s = GetWaits" and "\<not> link_flag s" and "\<not> main_cut s"
  shows "set (takeWhile (\<lambda>h. h \<noteq> RunGet) (handles s @ [RunGet])) \<subseteq> {RunDrop}"
proof -
  have "\<not> took s" "dropper s \<noteq> DropSeen" "verdict s = None" using assms(1,3,4) by (auto simp: sound_def)
  with assms(2,5) have "Notice \<notin> set (handles s)" "RunMain \<notin> set (handles s)" by (auto simp: attended_def)
  moreover have "h = RunDrop" if "h \<noteq> RunGet" "h \<noteq> Notice" "h \<noteq> RunMain" for h
    using that by (cases h) simp_all
  ultimately show ?thesis by (fastforce dest: set_takeWhileD)
qed

lemma run_in_turn:
  assumes "sound s" and "attended s" and "kept s = frames_in es" and "in_turn es s" and "handles s = h # hs"
  shows "in_turn es (run_handle h (s\<lparr>handles := hs\<rparr>))"
proof (cases h)
  case RunGet
  with assms show ?thesis by (auto simp: in_turn_def sound_def split: list.split)
next
  case RunDrop
  have "RunGet \<in> set hs" if "getter s = GetScheduled" using assms(2,5) RunDrop that by (auto simp: attended_def)
  with assms(4,5) RunDrop show ?thesis by (auto simp: in_turn_def takeWhile_append1)
next
  case Notice
  with assms(4,5) show ?thesis by (auto simp: in_turn_def)
next
  case RunMain
  show ?thesis
  proof (cases "verdict s")
    case None
    have "frames_in (up_to_drop es) = []" if "\<not> main_cut s" "getter s \<in> {GetWaits, GetScheduled}"
    proof (cases "getter s = GetWaits")
      case True
      with waiting_no_frames [OF assms(1)] assms(3) show ?thesis by (simp add: frames_up_to_drop)
    next
      case False
      with that None assms(4,5) RunMain show ?thesis by (auto simp: in_turn_def)
    qed
    with assms(4) None RunMain show ?thesis by (auto simp: in_turn_def resume_verdict split: getter.splits if_splits)
  qed (use assms(4) RunMain in \<open>simp add: in_turn_def\<close>)
qed

lemma happen_in_turn:
  assumes "sound s" and "attended s" and "kept s = frames_in es" and "in_turn es s"
  shows "in_turn (es @ [e]) (happen s e)"
proof (cases e)
  case (Arrives x)
  show ?thesis
  proof (cases "getter s = GetWaits")
    case True
    with assms(3) waiting_no_frames [OF assms(1)] have no: "frames_in (up_to_drop es) = []" by (simp add: frames_up_to_drop)
    have "set (takeWhile (\<lambda>h. h \<noteq> RunGet) (handles s @ [RunGet])) \<subseteq> {RunDrop}"
      if "\<not> main_cut s" "Drops \<notin> set es"
      using nothing_ahead [OF assms(1,2) True _ that(1)] assms(4) that(2) by (simp add: in_turn_def)
    with True no assms(1,4) Arrives show ?thesis by (auto simp: in_turn_def up_to_drop_snoc sound_def Let_def)
  next
    case False
    with assms(1,4) Arrives show ?thesis by (auto simp: in_turn_def up_to_drop_snoc up_to_drop_all sound_def Let_def)
  qed
next
  case Drops
  have "RunGet \<in> set (handles s)" if "getter s = GetScheduled" using assms(2) that by (auto simp: attended_def)
  with assms(1,4) Drops show ?thesis
    by (auto simp: in_turn_def up_to_drop_snoc up_to_drop_all sound_def Let_def takeWhile_append1)
next
  case Cut
  with assms(1,4) show ?thesis by (auto simp: in_turn_def up_to_drop_snoc up_to_drop_all sound_def frames_in_def)
next
  case Turn
  have t: "in_turn (es @ [Turn]) v = in_turn es v" for v
    by (auto simp: in_turn_def up_to_drop_snoc up_to_drop_all) (simp_all add: frames_in_def)
  from Turn t assms run_in_turn show ?thesis by (cases s rule: turn_cases) auto
qed

lemma history_in_turn: "in_turn es (history_of es)"
proof (induction es rule: rev_induct)
  case Nil
  show ?case by (simp add: history_of_def enter_wait_def in_turn_def)
next
  case (snoc e es)
  from happen_in_turn [OF history_sound history_attended history_keeps snoc] show ?case by (simp add: history_snoc)
qed

section \<open>The wait wakes\<close>

text \<open>What the event loop has left to do, weighted so that every turn takes something off it.\<close>

fun weight :: "handle \<Rightarrow> nat" where
  "weight Notice = 1"
| "weight RunMain = 1"
| "weight _ = 2"

definition work :: "'f wait_state \<Rightarrow> nat" where
  "work s = sum_list (map weight (handles s)) + (if woken s then 0 else 1) + (if verdict s = None then 4 else 0)"

lemma run_works: "work (run_handle h s) < work s + weight h"
  by (cases h) (auto simp: work_def resume_verdict split: list.split)

lemma turn_works: "handles s \<noteq> [] \<Longrightarrow> work (happen s Turn) < work s"
  using run_works [of "hd (handles s)" "s\<lparr>handles := tl (handles s)\<rparr>"]
  by (cases "handles s") (simp_all add: work_def)

text \<open>The event loop turns until nothing is left to run.\<close>

function drain :: "'f wait_state \<Rightarrow> 'f wait_state" where
  "drain s = (if handles s = [] then s else drain (happen s Turn))"
  by pat_completeness auto
termination by (relation "measure work") (use turn_works in auto)

declare drain.simps [simp del]

lemma drain_turns: "\<exists>k. drain s = foldl happen s (replicate k Turn) \<and> k \<le> work s \<and> handles (drain s) = []"
proof (induction s rule: drain.induct)
  case (1 s)
  show ?case
  proof (cases "handles s = []")
    case True
    then show ?thesis by (intro exI [of _ 0]) (simp add: drain.simps)
  next
    case False
    then obtain k where k: "drain (happen s Turn) = foldl happen (happen s Turn) (replicate k Turn)" "k \<le> work (happen s Turn)"
      "handles (drain (happen s Turn)) = []" using 1 by blast
    with False turn_works [OF False] show ?thesis
      by (intro exI [of _ "Suc k"]) (simp add: drain.simps [of s])
  qed
qed

lemma idle_undecided:
  assumes "sound s" and "attended s" and "handles s = []" and "verdict s = None"
  shows "kept s = [] \<and> \<not> link_flag s \<and> \<not> main_cut s"
proof -
  have "getter s = GetWaits" "dropper s = DropWaits" "\<not> woken s"
    using assms by (cases "getter s"; cases "dropper s"; auto simp: sound_def attended_def)+
  with assms(1) waiting_no_frames [OF assms(1)] show ?thesis by (auto simp: sound_def)
qed

lemma main_cut_history: "Cut \<in> set es \<Longrightarrow> main_cut (history_of es) \<or> verdict (history_of es) \<noteq> None"
proof (induction es rule: rev_induct)
  case (snoc e es)
  have run: "main_cut (run_handle h s) = main_cut s" "verdict s \<noteq> None \<Longrightarrow> verdict (run_handle h s) = verdict s" for h and s :: "'a wait_state"
    by (cases h; auto split: list.split)+
  have turn: "main_cut (happen s Turn) = main_cut s" "verdict s \<noteq> None \<Longrightarrow> verdict (happen s Turn) = verdict s" for s :: "'a wait_state"
    using run by (cases s rule: turn_cases; simp)+
  from snoc turn show ?case by (cases e) (auto simp: history_snoc Let_def)
qed simp

lemma history_append: "foldl happen (history_of es) fs = history_of (es @ fs)"
  by (simp add: history_of_def)

text \<open>How many callbacks there can be.\<close>

definition slim :: "'f wait_state \<Rightarrow> bool" where
  "slim s \<longleftrightarrow>
     count_list (handles s) RunGet = (if getter s = GetScheduled then 1 else 0) \<and>
     count_list (handles s) RunDrop = (if dropper s = DropScheduled then 1 else 0) \<and>
     count_list (handles s) Notice \<le> (if getter s \<in> {GetWaits, GetScheduled} then 0 else 1)
       + (if dropper s \<in> {DropWaits, DropScheduled} then 0 else 1) \<and>
     count_list (handles s) RunMain \<le> (if woken s then 1 else 0)"

lemma weights_counted:
  "sum_list (map weight hs) = 2 * count_list hs RunGet + 2 * count_list hs RunDrop + count_list hs Notice + count_list hs RunMain"
proof (induction hs)
  case (Cons h hs)
  then show ?case by (cases h) simp_all
qed simp

lemma slim_work: "slim s \<Longrightarrow> work s \<le> 9"
  by (auto simp: slim_def work_def weights_counted split: if_splits)

lemma run_slim: "slim (s\<lparr>handles := h # hs\<rparr>) \<Longrightarrow> slim (run_handle h (s\<lparr>handles := hs\<rparr>))"
  by (cases h; cases "getter s"; cases "dropper s") (auto simp: slim_def split: list.split if_splits)

lemma happen_slim: "slim s \<Longrightarrow> slim (happen s e)"
proof (cases e)
  case Turn
  assume "slim s"
  then have "slim (s\<lparr>handles := h # hs\<rparr>)" if "handles s = h # hs" for h hs using that by (simp add: slim_def)
  with Turn \<open>slim s\<close> run_slim show ?thesis by (cases s rule: turn_cases) auto
qed (auto simp: slim_def Let_def split: if_splits)

lemma history_slim: "slim (history_of es)"
proof (induction es rule: rev_induct)
  case Nil
  show ?case by (simp add: history_of_def enter_wait_def slim_def)
qed (simp add: history_snoc happen_slim)

lemma interrupted_cut:
  "(main_cut (history_of es) \<longrightarrow> Cut \<in> set es) \<and> (verdict (history_of es) = Some Interrupted \<longrightarrow> main_cut (history_of es))"
proof (induction es rule: rev_induct)
  case Nil
  show ?case by (simp add: history_of_def enter_wait_def)
next
  case (snoc e es)
  let ?s = "history_of es"
  have snd: "verdict ?s = None \<Longrightarrow> getter ?s \<noteq> GetCancelled" using history_sound [of es] by (simp add: sound_def)
  have "main_cut (run_handle h (?s\<lparr>handles := hs\<rparr>)) = main_cut ?s
      \<and> (verdict (run_handle h (?s\<lparr>handles := hs\<rparr>)) = Some Interrupted \<longrightarrow> verdict ?s = Some Interrupted \<or> main_cut ?s)" for h hs
    using snd by (cases h) (auto simp: resume_verdict split: list.split getter.splits if_splits)
  then have "e = Turn \<Longrightarrow> ?case" using snoc by (cases ?s rule: turn_cases) (auto simp: history_snoc)
  with snoc show ?case by (cases e) (auto simp: history_snoc Let_def)
qed

text \<open>What a verdict says.\<close>

lemma link_flag_history: "link_flag (history_of es) \<longleftrightarrow> Drops \<in> set es"
  using history_in_turn [of es] by (simp add: in_turn_def)

lemma link_lost_history:
  "verdict (history_of es) = Some LinkLost \<Longrightarrow> Drops \<in> set es \<and> frames_in (up_to_drop es) = []"
  using history_in_turn [of es] history_sound [of es] by (simp add: in_turn_def sound_def)

lemma decided_keeps:
  "verdict (history_of es) = Some v \<Longrightarrow> handed_over (Some v) @ inbox (history_of es) = frames_in es"
  using history_keeps [of es] by (simp add: kept_def in_hand_def)

section \<open>Properties\<close>

text \<open>
  C6: No interleaving of the tasks of a wait loses, doubles or reorders a frame: with frames, the drop and
  a cancellation arriving between any two steps of the event loop, the frame handed out is the oldest and
  every other one stays queued in order; the drop ends the wait only when the link did drop and no frame
  came before it; a cancelled wait leaves every frame, one that the inner task had taken included.
\<close>

theorem wait_loses_no_frame:
  "case verdict (history_of es) of
     None \<Rightarrow> in_hand (history_of es) @ inbox (history_of es) = frames_in es
   | Some (Handed x) \<Rightarrow> x # inbox (history_of es) = frames_in es
   | Some LinkLost \<Rightarrow> inbox (history_of es) = frames_in es \<and> Drops \<in> set es \<and> frames_in (up_to_drop es) = []
   | Some Interrupted \<Rightarrow> inbox (history_of es) = frames_in es \<and> Cut \<in> set es"
proof (cases "verdict (history_of es)")
  case None
  with history_keeps [of es] show ?thesis by (simp add: kept_def)
next
  case (Some v)
  with decided_keeps [OF Some] link_lost_history [of es] interrupted_cut [of es] show ?thesis by (cases v) simp_all
qed

text \<open>
  C10: A wait ends the moment there is something to end it: once a frame has arrived, the link has dropped
  or the wait was cancelled, it has its verdict within nine turns of the event loop.
\<close>

theorem wait_wakes:
  assumes "frames_in es \<noteq> [] \<or> Drops \<in> set es \<or> Cut \<in> set es"
  shows "\<exists>k \<le> 9. verdict (history_of (es @ replicate k Turn)) \<noteq> None"
proof -
  let ?s = "history_of es"
  obtain k where k: "drain ?s = history_of (es @ replicate k Turn)" "k \<le> work ?s" "handles (drain ?s) = []"
    using drain_turns [of ?s] by (auto simp: history_append)
  let ?fs = "es @ replicate k Turn"
  have "verdict (history_of ?fs) \<noteq> None"
  proof
    assume none: "verdict (history_of ?fs) = None"
    with k have q: "kept (history_of ?fs) = [] \<and> \<not> link_flag (history_of ?fs) \<and> \<not> main_cut (history_of ?fs)"
      by (intro idle_undecided history_sound history_attended) simp_all
    then have "Cut \<notin> set ?fs" using none main_cut_history [of ?fs] by blast
    with q have "frames_in es = []" "Drops \<notin> set es" "Cut \<notin> set es"
      using history_keeps [of ?fs] link_flag_history [of ?fs] by auto
    with assms show False by simp
  qed
  with k(2) slim_work [OF history_slim [of es]] show ?thesis by (meson order_trans)
qed

theorem wait_wakes_witness:
  "\<exists>k \<le> 9. verdict (history_of ([Turn, Turn, Drops] @ replicate k Turn)) \<noteq> (None :: nat verdict option)"
  by (rule wait_wakes) simp

text \<open>
  C9: The wait as the other properties see it, in one step, is a sound view of its tasks: whatever the
  interleaving, the frame or the error it ends with and the queue it leaves are those of the one step
  for some answer of the scheduler.
\<close>

theorem tasks_refine_wait:
  fixes n :: "'e notif"
  assumes "verdict (history_of es) = Some v" and "frames n w = frames_in es" and "is_set w d \<longleftrightarrow> Drops \<in> set es"
  shows "\<exists>race. let m = n\<lparr>n_race := race\<rparr>; w' = left_with n (inbox (history_of es)) w in
    case v of
      Handed x \<Rightarrow> after_wait m step d w = (Return x, w')
    | LinkLost \<Rightarrow> after_wait m step d w = (Raise (link_gone step), w')
    | Interrupted \<Rightarrow> give_back m w = w'"
proof -
  have l: "left_with (n\<lparr>n_race := race\<rparr>) xs w = left_with n xs w" for race xs by (simp add: left_with_def)
  have same: "left_with n (frames_in es) w = w" using left_with_sel(3) [of n w] assms(2) by simp
  show ?thesis
  proof (cases v)
    case (Handed x)
    with decided_keeps [OF assms(1)] assms(2) have "frames n w = x # inbox (history_of es)" by simp
    then have "after_wait (n\<lparr>n_race := \<lambda>_ _. False\<rparr>) step d w = (Return x, left_with n (inbox (history_of es)) w)"
      by (simp add: after_wait_def l)
    with Handed show ?thesis by (intro exI [of _ "\<lambda>_ _. False"]) (simp add: Let_def)
  next
    case LinkLost
    with decided_keeps [OF assms(1)] link_lost_history [of es] assms(1,3) same show ?thesis
      by (intro exI [of _ "\<lambda>_ _. True"]) (simp add: after_wait_def Let_def)
  next
    case Interrupted
    with decided_keeps [OF assms(1)] same show ?thesis by (simp add: Let_def)
  qed
qed

text \<open>The link drops and a frame lands before the wait runs again: the wait reports the drop, the frame stays.\<close>

theorem tasks_refine_wait_witness:
  "\<exists>race. after_wait (handle_on (fake_client 1 None)\<lparr>n_race := race\<rparr>) ''start'' 0
      ((fake_world (FakeClient True))\<lparr>mem := put_frame 1 [7] (set_events [0] (mem (fake_world (FakeClient True))))\<rparr>)
    = (Raise (link_gone ''start''), left_with (handle_on (fake_client 1 None)) [[7]]
        ((fake_world (FakeClient True))\<lparr>mem := put_frame 1 [7] (set_events [0] (mem (fake_world (FakeClient True))))\<rparr>))"
proof -
  let ?es = "[Turn, Turn, Drops, Turn, Turn, Arrives [7], Turn] :: bytes happening list"
  let ?w = "(fake_world (FakeClient True))\<lparr>mem := put_frame 1 [7] (set_events [0] (mem (fake_world (FakeClient True))))\<rparr>"
  have h: "verdict (history_of ?es) = Some LinkLost" "inbox (history_of ?es) = [[7]]" "frames_in ?es = [[7]]" by code_simp+
  have w: "frames (handle_on (fake_client 1 None)) ?w = [[7]]" "is_set ?w 0"
    by (simp_all add: handle_on_def fake_world_def idle_def put_frame_def)
  from tasks_refine_wait [OF h(1), where n = "handle_on (fake_client 1 None)" and w = ?w and d = 0 and step = "''start''"] h w show ?thesis by (simp add: Let_def)
qed

end
