(* ===== verification/TimeBounds.thy ===== *)
theory TimeBounds
  imports NotificationLaws
begin

text \<open>
  How long the composed operations take: a transfer in chunks (\<open>write_chunks\<close> of \<open>transfer.py\<close>) and a request
  with its reply (\<open>Notifications.request\<close> of \<open>notifications.py\<close>).  Each part ends within its own bound
  (\<open>ends_within\<close> of RuntimeLaws), and the bounds add up along the code.
\<close>

section \<open>Writes\<close>

lemma ends_within_raise_if_dropped: "ends_within 0 (raise_if_dropped d step phase)"
  by (simp add: ends_within_def raise_if_dropped_cases)

lemma ends_within_guarded_write:
  assumes "ble_client c"
  shows "ends_within (max 0 t) (guarded_write c ch data step r (Some t) dropped phase)"
proof (rule ends_withinI)
  fix w x v
  assume g: "guarded_write c ch data step r (Some t) dropped phase w = (x, v)"
  from ble_client.guarded_write_ends [OF assms g] show "x \<noteq> Hang \<and> now v \<le> now w + max 0 t"
    by (auto simp: write_end_def Let_def split: if_splits prod.splits outcome.splits)
qed

text \<open>The integration's callback takes at most \<open>b\<close>.\<close>

definition chunk_callback_within :: "seconds \<Rightarrow> 'e chunking \<Rightarrow> bool" where
  "chunk_callback_within b k \<longleftrightarrow> 0 \<le> b \<and> (\<forall>f n. k_on_chunk k = Some f \<longrightarrow> ends_within b (f n))"

text \<open>One chunk, and the loop over the chunks.\<close>

definition chunk_bound :: "'e chunking \<Rightarrow> seconds \<Rightarrow> seconds \<Rightarrow> seconds" where
  "chunk_bound k t b = max 0 t + b + max 0 (k_gap_s k)"

lemma ends_within_write_chunk:
  assumes "ble_client c" and "k_write_timeout k = Some t" and "chunk_callback_within b k"
  shows "ends_within (chunk_bound k t b) (write_chunk c ch data sz k dropped o' sent)"
proof -
  have frame: "ends_within 0 (case framed k o' (take sz (drop o' data)) of Inl e \<Rightarrow> throw e | Inr chunk \<Rightarrow> ret chunk)"
    by (simp add: ends_within_throw ends_within_ret split: sum.split)
  have on: "ends_within b (case k_on_chunk k of None \<Rightarrow> ret () | Some f \<Rightarrow> f (sent + 1))"
    using assms(3) ends_within_weaken [OF ends_within_ret, of b] by (auto simp: chunk_callback_within_def split: option.split)
  have "ends_within (0 + (0 + (max 0 t + (b + max 0 (k_gap_s k))))) (write_chunk c ch data sz k dropped o' sent)"
    unfolding write_chunk_def assms(2)
    by (intro ends_within_bind ends_within_raise_if_dropped frame ends_within_guarded_write [OF assms(1)] on ends_within_pause)
      (use assms(3) in \<open>simp_all add: chunk_callback_within_def\<close>)
  then show ?thesis by (simp add: chunk_bound_def add.assoc)
qed

lemma ends_within_chunk_loop:
  assumes "ble_client c" and "k_write_timeout k = Some t" and "chunk_callback_within b k"
  shows "ends_within (of_nat (length os) * chunk_bound k t b) (chunk_loop c ch data sz k dropped os sent)"
proof (induction os arbitrary: sent)
  case (Cons o' os)
  have "0 \<le> of_nat (length os) * chunk_bound k t b" using assms(3) by (simp add: chunk_bound_def chunk_callback_within_def)
  then have "ends_within (chunk_bound k t b + of_nat (length os) * chunk_bound k t b)
      (chunk_loop c ch data sz k dropped (o' # os) sent)"
    by (simp add: ends_within_bind ends_within_write_chunk [OF assms] Cons.IH)
  then show ?case by (simp add: algebra_simps)
qed (simp add: ends_within_ret)

text \<open>How many writes a payload takes.\<close>

definition chunk_count :: "nat \<Rightarrow> int \<Rightarrow> nat" where
  "chunk_count len sz = (len + nat sz - 1) div nat sz"

lemma length_offsets: "length (offsets len (nat sz)) = chunk_count len sz"
  by (simp add: offsets_def chunk_count_def)

text \<open>
  C20: A chunked transfer ends in time: with a bound on each write it never hangs, and takes at most the
  write's bound, the callback's time and the gap for each of the \<open>\<lceil>length / size\<rceil>\<close> chunks, whatever the
  stack does; a size below one is refused before anything is sent, and an empty payload sends nothing.
\<close>

theorem transfer_in_time:
  assumes "ble_client c" and "k_write_timeout k = Some t" and "chunk_callback_within b k" and "write_chunks c ch data sz k w = (r, w')"
  shows "r \<noteq> Hang \<and>
    (if sz < 1 then w' = w \<and> (\<exists>e. r = Raise e \<and> isinstance e ValueErrorC)
     else now w' \<le> now w + of_nat (chunk_count (length data) sz) * (max 0 t + b + max 0 (k_gap_s k))
       \<and> (data = [] \<longrightarrow> r = Return 0 \<and> w' = w))"
proof (cases "sz < 1")
  case True
  with assms(4) show ?thesis by (auto simp: write_chunks_def issubclass_eval)
next
  case False
  let ?os = "offsets (length data) (nat sz)"
  from False assms(4) have run: "chunk_loop c ch data (nat sz) k (dropped_event c w) ?os 0 w = (r, w')"
    by (simp add: write_chunks_def)
  have "?os = []" if "data = []" using that False by (simp add: offsets_def)
  with run have "data = [] \<longrightarrow> r = Return 0 \<and> w' = w" by (auto simp: ret_def)
  with ends_withinD [OF ends_within_chunk_loop [OF assms(1-3)] run] False show ?thesis
    by (simp add: length_offsets chunk_bound_def)
qed

text \<open>Three bytes two at a time over a proxy that takes four seconds for each write, a second apart.\<close>

theorem transfer_in_time_witness:
  "\<exists>r w'. write_chunks (fake_client 1 None) ''2a19'' [1, 2, 3] 2 ((default_chunking ''send'')\<lparr>k_gap_s := 1\<rparr>)
       (fake_world ((FakeClient True)\<lparr>write_delay_s := 4\<rparr>)) = (r, w') \<and> r \<noteq> Hang \<and> now w' \<le> 22"
proof -
  let ?k = "(default_chunking ''send'')\<lparr>k_gap_s := 1\<rparr> :: fake chunking" and ?w = "fake_world ((FakeClient True)\<lparr>write_delay_s := 4\<rparr>)"
  obtain r w' where run: "write_chunks (fake_client 1 None) ''2a19'' [1, 2, 3] 2 ?k ?w = (r, w')"
    by (cases "write_chunks (fake_client 1 None) ''2a19'' [1, 2, 3] 2 ?k ?w")
  have k: "k_write_timeout ?k = Some 10" "chunk_callback_within 0 ?k"
    by (simp_all add: default_chunking_def WRITE_TIMEOUT_S_def chunk_callback_within_def)
  from transfer_in_time [OF fake.ble_client_axioms k run] run show ?thesis
    by (simp add: chunk_count_def default_chunking_def fake_world_def idle_def)
qed

section \<open>Requests\<close>

lemma ends_within_next_reply: "ends_within (max 0 t) (next_reply n t step)"
proof -
  have "ends_within (max 0 t + 0 + 0) (next_reply n t step)"
    unfolding next_reply_def
    by (intro ends_within_catch ends_within_throw ends_within_bounded [OF polite_next_frame]) simp
  then show ?thesis by simp
qed

text \<open>The end of a request after the write: the pause and the reply.\<close>

definition await_reply :: "'e notif \<Rightarrow> seconds \<Rightarrow> string \<Rightarrow> (bytes \<Rightarrow> exc + bool) option \<Rightarrow> (bytes, 'e) ble" where
  "await_reply n t step accept = (case accept of None \<Rightarrow> next_reply n t step | Some f \<Rightarrow> wait_for n f t step)"

lemma await_reply_accepted:
  assumes "\<And>f x e. accept = Some f \<Longrightarrow> f x = Inl e \<Longrightarrow> isinstance e ExceptionC"
    and "await_reply n t step accept w = (Return x, w')"
  shows "case accept of None \<Rightarrow> True | Some f \<Rightarrow> f x = Inr True"
proof (cases accept)
  case (Some f)
  with assms(2) have "wait_for n f t step w = (Return x, w')" by (simp add: await_reply_def)
  moreover have "isinstance e ExceptionC" if "f y = Inl e" for y e using assms(1) [OF Some that] .
  ultimately have "picks n f w (Return x) w' (last_wait_fails n step t w w')" by (intro wait_for_picks)
  with Some show ?thesis by (auto simp: picks_def)
qed simp

text \<open>
  C18: A request ends in time, however the link, the stack and the device behave: within the bound on the
  write, the pause, and the bound on the reply.  On a link that is already down it raises
  \<open>SessionDropped\<close> naming the step before it touches anything; and what it returns as the reply is a frame
  its test accepts.
\<close>

theorem request_in_time:
  assumes "ble_client (n_client n)" and "\<And>f x e. accept = Some f \<Longrightarrow> f x = Inl e \<Longrightarrow> isinstance e ExceptionC"
    and "request n ch data t step wt resp accept pace w = (r, w')"
  shows "r \<noteq> Hang
    \<and> now w' \<le> now w + max 0 (case wt of None \<Rightarrow> t | Some s \<Rightarrow> s) + max 0 pace + max 0 t
    \<and> (link_is_down n w \<longrightarrow>
        r = Raise (SessionDropped (''The link dropped before '' @ step) (Some step)) \<and> w' = w)
    \<and> (\<forall>x. r = Return x \<longrightarrow> (case accept of None \<Rightarrow> True | Some f \<Rightarrow> f x = Inr True))"
proof -
  let ?t = "case wt of None \<Rightarrow> t | Some s \<Rightarrow> s"
  let ?pause = "if pace > 0 then sleep pace else ret ()"
  have clear: "ends_within 0 (clear_frames n)" by (simp add: ends_within_def clear_frames_def)
  have reply: "ends_within (max 0 t) (await_reply n t step accept)"
    by (simp add: await_reply_def ends_within_next_reply ends_within_wait_for split: option.split)
  have req: "request n ch data t step wt resp accept pace =
      bind (raise_if_dropped (n_dropped n) step ''before'') (\<lambda>_. bind (clear_frames n) (\<lambda>_.
      bind (guarded_write (n_client n) ch data step resp (Some ?t) (n_dropped n) ''before'') (\<lambda>_.
      bind ?pause (\<lambda>_. await_reply n t step accept))))"
    by (simp add: request_def await_reply_def)
  have "ends_within (0 + (0 + (max 0 ?t + (max 0 pace + max 0 t)))) (request n ch data t step wt resp accept pace)"
    unfolding req
    by (intro ends_within_bind ends_within_raise_if_dropped clear ends_within_guarded_write [OF assms(1)]
        ends_within_pause reply) simp_all
  from ends_withinD [OF this assms(3)] have "r \<noteq> Hang \<and> now w' \<le> now w + max 0 ?t + max 0 pace + max 0 t"
    by (simp add: add.assoc)
  moreover have "r = Raise (SessionDropped (''The link dropped before '' @ step) (Some step)) \<and> w' = w" if "link_is_down n w"
    using assms(3) that by (auto simp: req bind_def raise_if_dropped_cases link_is_down_def split: option.splits)
  moreover have "case accept of None \<Rightarrow> True | Some f \<Rightarrow> f x = Inr True" if "r = Return x" for x
  proof -
    from assms(3) that obtain v where "await_reply n t step accept v = (Return x, w')"
      by (auto simp: req bind_def split: prod.splits outcome.splits)
    with await_reply_accepted [of accept] assms(2) show ?thesis by blast
  qed
  ultimately show ?thesis by blast
qed

text \<open>A device that takes the write and says nothing: two seconds, a half, and five.\<close>

theorem request_in_time_witness:
  "\<exists>r w'. request (handle_on (fake_client 1 None)) ''2a1a'' [1] 5 ''ask'' (Some 2) (Some False) (Some (\<lambda>d. Inr (d = [8]))) (1 / 2)
       (fake_world (FakeClient True)) = (r, w') \<and> r \<noteq> Hang \<and> now w' \<le> 15 / 2"
proof -
  let ?n = "handle_on (fake_client 1 None)" and ?f = "\<lambda>d :: bytes. Inr (d = [8]) :: exc + bool"
  obtain r w' where run: "request ?n ''2a1a'' [1] 5 ''ask'' (Some 2) (Some False) (Some ?f) (1 / 2) (fake_world (FakeClient True)) = (r, w')"
    by (cases "request ?n ''2a1a'' [1] 5 ''ask'' (Some 2) (Some False) (Some ?f) (1 / 2) (fake_world (FakeClient True))")
  have c: "ble_client (n_client ?n)" by (simp add: handle_on_def fake.ble_client_axioms)
  have "isinstance e ExceptionC" if "Some ?f = Some f" "f x = Inl e" for f x e using that by auto
  from request_in_time [OF c this run] show ?thesis using run by (simp add: fake_world_def idle_def)
qed

end
