(* ===== verification/Attempt.thy ===== *)
theory Attempt
  imports Trace
begin

text \<open>
  One try and how it ended (\<open>class Attempt\<close> of \<open>src/src/blesession/attempts.py\<close>): the
  record, what it says of the failure, and the default retry rule.  \<open>skipped\<close> is
  \<^const>\<open>PyNone\<close> unless a guard declined the attempt.
\<close>

record 'r attempt =
  number :: int
  att_trace :: session_trace
  att_result :: "'r option"
  att_error :: "exc option"
  timed_out :: bool
  skipped :: pyval
  retrying :: bool
  att_state :: "(string, pyval) dict"

definition new_attempt :: "int \<Rightarrow> session_trace \<Rightarrow> (string, pyval) dict \<Rightarrow> 'r attempt" where
  "new_attempt n t s =
     \<lparr>number = n, att_trace = t, att_result = None, att_error = None, timed_out = False,
      skipped = PyNone, retrying = False, att_state = s\<rparr>"

definition ok :: "'r attempt \<Rightarrow> bool" where
  "ok a \<longleftrightarrow> att_error a = None \<and> skipped a = PyNone"

definition att_failed_stage :: "'r attempt \<Rightarrow> string option" where
  "att_failed_stage a = fst (failure (att_trace a) (att_error a))"

definition att_failed_detail :: "'r attempt \<Rightarrow> string option" where
  "att_failed_detail a = snd (failure (att_trace a) (att_error a))"

text \<open>\<open>not attempt.timed_out and getattr(attempt.error, "retryable", True)\<close>\<close>

definition default_retry_if :: "'r attempt \<Rightarrow> pyval" where
  "default_retry_if a =
     (if timed_out a then PyBool False
      else case att_error a of None \<Rightarrow> PyBool True | Some e \<Rightarrow> PyBool (attr_retryable e))"

lemma default_retry_if_truthy:
  "truthy (default_retry_if a) \<longleftrightarrow>
     \<not> timed_out a \<and> (\<forall>e. att_error a = Some e \<longrightarrow> attr_retryable e)"
  by (auto simp: default_retry_if_def split: option.splits)

end
