(* ===== verification/Attempts.thy ===== *)
theory Attempts
  imports RuntimeLaws Attempt
begin

text \<open>
  The retry loop (\<open>run_attempts\<close> of \<open>src/src/blesession/attempts.py\<close>) over the event loop of
  the theory Runtime.  The attempt function and the integration's callbacks are parameters: coroutines
  that may do anything to the world.  The attempt's trace and state dictionary are the world's
  \<open>live\<close> and \<open>scratch\<close> while it runs; \<open>snapshot\<close> is the Attempt object as a callback sees it.
\<close>

text \<open>The keyword arguments of \<open>run_attempts\<close>; \<open>p_lock\<close> says whether a lock was given.\<close>

record ('r, 'm) policy =
  p_lock :: bool
  p_max :: int
  p_timeout :: "seconds option"
  p_pause :: seconds
  p_retry_if :: "'r attempt \<Rightarrow> (pyval, 'm) co"
  p_guard :: "(pyval, 'm) co option"
  p_on_attempt :: "('r attempt \<Rightarrow> (unit, 'm) co) option"
  p_stage_map :: "stage_map option"

definition default_policy :: "('r, 'm) policy" where
  "default_policy =
     \<lparr>p_lock = False, p_max = 1, p_timeout = None, p_pause = 1,
      p_retry_if = \<lambda>a. ret (default_retry_if a), p_guard = None, p_on_attempt = None, p_stage_map = None\<rparr>"

definition snapshot :: "'r attempt \<Rightarrow> 'm world \<Rightarrow> 'r attempt" where
  "snapshot a w = a\<lparr>att_trace := live w, att_state := scratch w\<rparr>"

text \<open>The \<open>try\<close> around the bound: an \<open>Exception\<close> is the attempt's outcome, anything else passes.\<close>

definition run_attempt :: "seconds option \<Rightarrow> (int \<Rightarrow> ('r, 'm) co) \<Rightarrow> int \<Rightarrow> ('r attempt, 'm) co" where
  "run_attempt t fn n w =
     (case with_timeout t (fn n) w of
        ((Hang, _), w') \<Rightarrow> (Hang, w')
      | ((Return x, _), w') \<Rightarrow>
          (Return ((new_attempt n (live w') (scratch w'))\<lparr>att_result := Some x\<rparr>), w')
      | ((Raise e, expired), w') \<Rightarrow>
          (let a = new_attempt n (live w') (scratch w') in
           if \<not> isinstance e ExceptionC then (Raise e, w')
           else if expired then
             (case t of
                None \<Rightarrow> (Raise (plain_exc AssertionErrorC []), w')
              | Some s \<Rightarrow>
                  (Return (a\<lparr>timed_out := True,
                     att_error := Some (with_cause
                       (AttemptTimedOut s (failed_primary (live w')) (failed_detail (live w'))) e)\<rparr>), w'))
           else (Return (a\<lparr>att_error := Some e\<rparr>), w')))"

text \<open>What runs under the lock: the guard, then the attempt unless the guard declined it.\<close>

definition guarded_attempt :: "('r, 'm) policy \<Rightarrow> (int \<Rightarrow> ('r, 'm) co) \<Rightarrow> int \<Rightarrow> ('r attempt, 'm) co" where
  "guarded_attempt p fn n =
     (case p_guard p of
        None \<Rightarrow> run_attempt (p_timeout p) fn n
      | Some g \<Rightarrow>
          bind g (\<lambda>skip.
            if skip \<noteq> PyNone
            then (\<lambda>w. (Return ((new_attempt n (live w) (scratch w))\<lparr>skipped := skip\<rparr>), w))
            else run_attempt (p_timeout p) fn n))"

text \<open>\<open>attempt.retrying = bool(...)\<close>\<close>

definition decide_retry :: "('r, 'm) policy \<Rightarrow> int \<Rightarrow> 'r attempt \<Rightarrow> (bool, 'm) co" where
  "decide_retry p n a =
     (if att_error a \<noteq> None \<and> skipped a = PyNone \<and> n < p_max p
      then bind (\<lambda>w. p_retry_if p (snapshot a w) w) (\<lambda>v. ret (truthy v))
      else ret False)"

definition finish_attempt :: "('r, 'm) policy \<Rightarrow> int \<Rightarrow> 'r attempt \<Rightarrow> ('r attempt, 'm) co" where
  "finish_attempt p n a =
     bind (decide_retry p n a) (\<lambda>retry.
       let a' = a\<lparr>retrying := retry\<rparr> in
       bind (case p_on_attempt p of None \<Rightarrow> ret () | Some f \<Rightarrow> (\<lambda>w. f (snapshot a' w) w))
         (\<lambda>_ w. (Return (snapshot a' w), w)))"

definition one_attempt :: "('r, 'm) policy \<Rightarrow> (int \<Rightarrow> ('r, 'm) co) \<Rightarrow> int \<Rightarrow> ('r attempt, 'm) co" where
  "one_attempt p fn n =
     bind (update (\<lambda>w. w\<lparr>live := new_trace (p_stage_map p)\<rparr>)) (\<lambda>_.
       bind (with_lock (p_lock p) (guarded_attempt p fn n)) (finish_attempt p n))"

text \<open>\<open>for number in range(1, max_attempts + 1)\<close>, with the module-level \<open>sleep\<close> as a parameter: the source
  keeps it at module level so that it can be stubbed.\<close>

fun attempts_paced ::
  "(seconds \<Rightarrow> (unit, 'm) co) \<Rightarrow> ('r, 'm) policy \<Rightarrow> (int \<Rightarrow> ('r, 'm) co) \<Rightarrow> int list \<Rightarrow> 'r attempt option
    \<Rightarrow> ('r attempt, 'm) co" where
  "attempts_paced nap p fn [] prev =
     (case prev of None \<Rightarrow> throw (plain_exc AssertionErrorC []) | Some a \<Rightarrow> ret a)"
| "attempts_paced nap p fn (n # ns) prev =
     bind (one_attempt p fn n) (\<lambda>a.
       if retrying a then bind (nap (p_pause p)) (\<lambda>_. attempts_paced nap p fn ns (Some a))
       else ret a)"

text \<open>The trace and the state dictionaries the loop makes are its own: what the caller had stays.\<close>

definition run_paced ::
  "(seconds \<Rightarrow> (unit, 'm) co) \<Rightarrow> ('r, 'm) policy \<Rightarrow> (int \<Rightarrow> ('r, 'm) co) \<Rightarrow> ('r attempt, 'm) co" where
  "run_paced nap p fn w =
     (if p_max p < 1 then (Raise (plain_exc ValueErrorC ''max_attempts must be at least 1''), w)
      else
        (let (r, w') = attempts_paced nap p fn [1..p_max p] None (w\<lparr>scratch := []\<rparr>)
         in (r, w'\<lparr>live := live w, scratch := scratch w\<rparr>)))"

text \<open>With \<open>asyncio.sleep\<close>, as the code runs.\<close>

definition attempts_over ::
  "('r, 'm) policy \<Rightarrow> (int \<Rightarrow> ('r, 'm) co) \<Rightarrow> int list \<Rightarrow> 'r attempt option \<Rightarrow> ('r attempt, 'm) co" where
  "attempts_over = attempts_paced sleep"

definition run_attempts :: "('r, 'm) policy \<Rightarrow> (int \<Rightarrow> ('r, 'm) co) \<Rightarrow> ('r attempt, 'm) co" where
  "run_attempts = run_paced sleep"

lemma attempts_over_simps [simp]:
  "attempts_over p fn [] prev = (case prev of None \<Rightarrow> throw (plain_exc AssertionErrorC []) | Some a \<Rightarrow> ret a)"
  "attempts_over p fn (n # ns) prev =
     bind (one_attempt p fn n) (\<lambda>a.
       if retrying a then bind (sleep (p_pause p)) (\<lambda>_. attempts_over p fn ns (Some a)) else ret a)"
  unfolding attempts_over_def by simp_all

lemma run_attempts_run:
  "run_attempts p fn w =
     (if p_max p < 1 then (Raise (plain_exc ValueErrorC ''max_attempts must be at least 1''), w)
      else
        (let (r, w') = attempts_over p fn [1..p_max p] None (w\<lparr>scratch := []\<rparr>)
         in (r, w'\<lparr>live := live w, scratch := scratch w\<rparr>)))"
  by (simp add: run_attempts_def run_paced_def attempts_over_def)

end
