(* ===== verification/AttemptLaws.thy ===== *)
theory AttemptLaws
  imports Attempts TraceLaws
begin

text \<open>
  What the retry loop promises: which attempts run and what \<open>on_attempt\<close> sees of them, when the
  lock is held, what an attempt that was cut at its bound reports, and that the loop ends in time.
\<close>

section \<open>One attempt\<close>

context world_frame
begin

text \<open>Taking and giving back the lock keeps what does not speak of its holder.\<close>

lemma keeps_with_lock:
  assumes "\<And>w h. R w (w\<lparr>holder := h\<rparr>)" and "keeps R f"
  shows "keeps R (with_lock u f)"
proof -
  have "keeps R acquire"
    by (rule keepsI) (auto simp: acquire_def assms(1) split: prod.split outcome.split
        dest: keepsD [OF keeps_park] intro: R_trans)
  moreover have "keeps R release" by (rule keepsI) (simp add: release_def assms(1))
  ultimately show ?thesis using assms(2)
    by (simp add: with_lock_def keeps_bind keeps_finally)
qed

end

text \<open>What is said of the trace, kept by the waits.\<close>

definition trace_frame :: "(session_trace \<Rightarrow> bool) \<Rightarrow> 'm world \<Rightarrow> 'm world \<Rightarrow> bool" where
  "trace_frame Q w w' \<longleftrightarrow> (Q (live w) \<longrightarrow> Q (live w'))"

interpretation tra: scoped_frame "trace_frame Q" for Q
  by unfold_locales (auto simp: trace_frame_def push_scope_def pop_scope_def)

lemma snd_run_attempt: "snd (run_attempt t fn n w) = snd (with_timeout t (fn n) w)"
  by (auto simp: run_attempt_def Let_def split: prod.split outcome.split option.split)

text \<open>The loop keeps what the attempt function and the guard keep.\<close>

context scoped_frame
begin

lemma keeps_run_attempt: "(\<And>n. keeps R (fn n)) \<Longrightarrow> keeps R (run_attempt t fn n)"
  by (rule keepsI) (simp add: snd_run_attempt R_with_timeout)

lemma keeps_guarded_attempt:
  assumes "\<And>n. keeps R (fn n)" and "\<And>g. p_guard p = Some g \<Longrightarrow> keeps R g"
  shows "keeps R (guarded_attempt p fn n)"
proof (cases "p_guard p")
  case None
  then show ?thesis using keeps_run_attempt [OF assms(1)] by (simp add: guarded_attempt_def)
next
  case (Some g)
  have "keeps R (\<lambda>w. (Return (a w), w))" for a :: "_ \<Rightarrow> 'x" by (simp add: keeps_def R_refl)
  with Some assms show ?thesis
    by (auto simp: guarded_attempt_def intro!: keeps_bind keeps_run_attempt)
qed

lemma keeps_decide_retry:
  assumes "\<And>a. keeps R (p_retry_if p a)"
  shows "keeps R (decide_retry p n b)"
proof -
  have "keeps R (\<lambda>w. p_retry_if p (snapshot b w) w)" using assms by (simp add: keeps_def)
  then show ?thesis by (auto simp: decide_retry_def intro!: keeps_bind keeps_ret)
qed

end

text \<open>What an attempt is when it comes out of the lock.\<close>

lemma run_attempt_fields:
  "run_attempt t fn n w = (Return a, w') \<Longrightarrow>
     number a = n \<and> skipped a = PyNone \<and> att_trace a = live w' \<and> att_state a = scratch w'"
  by (auto simp: run_attempt_def new_attempt_def Let_def split: prod.splits outcome.splits if_splits option.splits)

lemma guarded_attempt_fields:
  "guarded_attempt p fn n w = (Return a, w') \<Longrightarrow>
     number a = n \<and> (skipped a = PyNone \<or> att_error a = None) \<and> att_trace a = live w' \<and> att_state a = scratch w'"
  using run_attempt_fields [of "p_timeout p" fn n _ a w']
  by (fastforce simp: guarded_attempt_def bind_def new_attempt_def split: option.splits prod.splits outcome.splits if_splits)

lemma with_lock_Return:
  assumes "with_lock u f w = (Return a, w')"
  obtains w0 w1 where "f w0 = (Return a, w1)" and "live w' = live w1" and "scratch w' = scratch w1"
    and "mem w' = mem w1" and "agenda w' = agenda w1"
    and "if u then acquire w = (Return (), w0) else w0 = w"
proof (cases u)
  case False
  with assms show ?thesis by (intro that [of w w']) (simp_all add: with_lock_def)
next
  case True
  from assms True obtain w0 where a: "acquire w = (Return (), w0)" "finally_do f release w0 = (Return a, w')"
    by (auto simp: with_lock_def bind_def split: prod.splits outcome.splits)
  then obtain w1 where f: "f w0 = (Return a, w1)" "w' = w1\<lparr>holder := Nobody\<rparr>"
    by (auto simp: finally_do_def release_def split: prod.splits outcome.splits)
  with a True show ?thesis by (intro that [of w0 w1]) simp_all
qed

lemma snapshot_sel [simp]:
  "number (snapshot a w) = number a" "att_error (snapshot a w) = att_error a" "skipped (snapshot a w) = skipped a"
  "retrying (snapshot a w) = retrying a" "timed_out (snapshot a w) = timed_out a" "att_result (snapshot a w) = att_result a"
  "att_trace (snapshot a w) = live w" "att_state (snapshot a w) = scratch w"
  by (simp_all add: snapshot_def)

lemma decide_retry_true:
  "decide_retry p n a w = (Return True, w') \<Longrightarrow>
     att_error a \<noteq> None \<and> skipped a = PyNone \<and> n < p_max p
     \<and> (\<exists>v. p_retry_if p (snapshot a w) w = (Return v, w') \<and> truthy v)"
  by (auto simp: decide_retry_def bind_def ret_def split: if_splits prod.splits outcome.splits)

section \<open>The attempts that run\<close>

text \<open>\<open>on_attempt\<close> as a recorder: what it does to a part \<open>g\<close> of the memory nothing else touches is \<open>U\<close>.\<close>

definition files :: "('m \<Rightarrow> 's) \<Rightarrow> ('r attempt \<Rightarrow> 's \<Rightarrow> 's \<Rightarrow> bool) \<Rightarrow> ('r, 'm) policy \<Rightarrow> bool" where
  "files g U p \<longleftrightarrow>
     (\<exists>f. p_on_attempt p = Some f \<and>
        (\<forall>a w u w'. f a w = (Return u, w') \<longrightarrow> intact g w \<longrightarrow>
           intact g w' \<and> U a (g (mem w)) (g (mem w')) \<and> live w' = live w \<and> scratch w' = scratch w))"

definition abides :: "('m world \<Rightarrow> 'm world \<Rightarrow> bool) \<Rightarrow> ('r, 'm) policy \<Rightarrow> (int \<Rightarrow> ('r, 'm) co) \<Rightarrow> bool" where
  "abides R p fn \<longleftrightarrow>
     (\<forall>n. keeps R (fn n)) \<and> (\<forall>h. p_guard p = Some h \<longrightarrow> keeps R h) \<and> (\<forall>a. keeps R (p_retry_if p a))"

fun filed :: "('r attempt \<Rightarrow> 's \<Rightarrow> 's \<Rightarrow> bool) \<Rightarrow> 'r attempt list \<Rightarrow> 's \<Rightarrow> 's \<Rightarrow> bool" where
  "filed U [] s s' \<longleftrightarrow> s' = s"
| "filed U (a # as) s s' \<longleftrightarrow> (\<exists>t. U a s t \<and> filed U as t s')"

text \<open>What \<open>retry_if\<close> allows: \<open>P\<close> holds of every attempt it wants retried.\<close>

definition retries_only :: "('r, 'm) policy \<Rightarrow> (bool \<Rightarrow> exc option \<Rightarrow> bool) \<Rightarrow> bool" where
  "retries_only p P \<longleftrightarrow>
     (\<forall>a w v w'. p_retry_if p a w = (Return v, w') \<longrightarrow> truthy v \<longrightarrow> P (timed_out a) (att_error a))"

lemma one_attempt_files:
  assumes U: "files g U p" and part: "abides (part_frame g) p fn" and Q: "abides (trace_frame Q) p fn"
    and new: "Q (new_trace (p_stage_map p))" and P: "retries_only p P"
    and run: "one_attempt p fn n w = (Return a, w')" and i: "intact g w"
  shows "intact g w' \<and> U a (g (mem w)) (g (mem w')) \<and> number a = n \<and> Q (att_trace a)
    \<and> (retrying a \<longrightarrow> att_error a \<noteq> None \<and> skipped a = PyNone \<and> n < p_max p \<and> P (timed_out a) (att_error a))"
proof -
  let ?w = "w\<lparr>live := new_trace (p_stage_map p)\<rparr>"
  let ?under = "with_lock (p_lock p) (guarded_attempt p fn n)"
  from run obtain b w1 where b: "?under ?w = (Return b, w1)" and fin: "finish_attempt p n b w1 = (Return a, w')"
    by (auto simp: one_attempt_def bind_def update_def split: prod.splits outcome.splits)
  have "keeps (part_frame g) ?under"
    using part by (intro part.keeps_with_lock part.keeps_guarded_attempt) (auto simp: abides_def part_frame_def intact_def)
  from part_frameD [OF this b] i have w1: "intact g w1" "g (mem w1) = g (mem w)" by simp_all
  have "keeps (trace_frame Q) ?under"
    using Q by (intro tra.keeps_with_lock tra.keeps_guarded_attempt) (auto simp: abides_def trace_frame_def)
  from keepsD [OF this b] new have q1: "Q (live w1)" by (simp add: trace_frame_def)
  obtain w0 w0' where "guarded_attempt p fn n w0 = (Return b, w0')" by (rule with_lock_Return [OF b])
  from guarded_attempt_fields [OF this] have nb: "number b = n" by simp
  from U obtain f where f: "p_on_attempt p = Some f" and
    fU: "\<And>a w u w'. f a w = (Return u, w') \<Longrightarrow> intact g w \<Longrightarrow>
      intact g w' \<and> U a (g (mem w)) (g (mem w')) \<and> live w' = live w \<and> scratch w' = scratch w"
    unfolding files_def by blast
  from fin f obtain retry w2 u where d: "decide_retry p n b w1 = (Return retry, w2)"
    and on: "f (snapshot (b\<lparr>retrying := retry\<rparr>) w2) w2 = (Return u, w')" and a: "a = snapshot (b\<lparr>retrying := retry\<rparr>) w'"
    by (auto simp: finish_attempt_def bind_def Let_def split: prod.splits outcome.splits)
  have kp: "keeps (part_frame g) (decide_retry p n b)" and kt: "keeps (trace_frame Q) (decide_retry p n b)"
    using part Q by (auto simp: abides_def intro: part.keeps_decide_retry tra.keeps_decide_retry)
  have w2: "intact g w2" "g (mem w2) = g (mem w)" "Q (live w2)"
    using part_frameD [OF kp d w1(1)] keepsD [OF kt d] w1(2) q1 by (auto simp: trace_frame_def)
  from fU [OF on w2(1)] have "snapshot (b\<lparr>retrying := retry\<rparr>) w2 = a" by (simp add: a snapshot_def)
  with fU [OF on w2(1)] w2 have "intact g w'" "U a (g (mem w)) (g (mem w'))" "Q (att_trace a)" by (simp_all add: a)
  moreover have "retry \<longrightarrow> att_error b \<noteq> None \<and> skipped b = PyNone \<and> n < p_max p \<and> P (timed_out b) (att_error b)"
    using decide_retry_true [of p n b w1 w2] d P unfolding retries_only_def by (cases retry) fastforce+
  ultimately show ?thesis using nb by (simp add: a)
qed

lemma attempts_over_files:
  assumes U: "files g U p" and part: "abides (part_frame g) p fn" and Q: "abides (trace_frame Q) p fn"
    and new: "Q (new_trace (p_stage_map p))" and P: "retries_only p P"
    and "attempts_over p fn [n..p_max p] prev w = (Return a, w')" and "intact g w" and "n \<le> p_max p"
  shows "\<exists>h. h \<noteq> [] \<and> filed U h (g (mem w)) (g (mem w')) \<and> last h = a \<and> map number h = [n..n + int (length h) - 1]
    \<and> n + int (length h) - 1 \<le> p_max p \<and> \<not> retrying a \<and> (\<forall>b \<in> set h. Q (att_trace b))
    \<and> (\<forall>b \<in> set (butlast h). retrying b \<and> att_error b \<noteq> None \<and> skipped b = PyNone \<and> P (timed_out b) (att_error b))"
  using assms(6-8)
proof (induction "nat (p_max p - n)" arbitrary: n prev w)
  case (0 n)
  then have ns: "[n..p_max p] = [n]" and n: "n = p_max p" by (simp_all add: upto.simps)
  with "0.prems"(1) obtain b w1 where one: "one_attempt p fn n w = (Return b, w1)"
    by (auto simp: bind_def split: prod.splits outcome.splits)
  note b = one_attempt_files [OF U part Q new P one "0.prems"(2)]
  with n "0.prems"(1) one ns have "b = a" "w1 = w'" "\<not> retrying b" by (auto simp add: bind_def ret_def)
  with b n show ?case by (intro exI [of _ "[a]"]) (simp add: upto.simps)
next
  case (Suc k n)
  then have ns: "[n..p_max p] = n # [n + 1..p_max p]" by (simp add: upto.simps)
  with Suc.prems(1) obtain b w1 where one: "one_attempt p fn n w = (Return b, w1)"
    by (auto simp: bind_def split: prod.splits outcome.splits)
  note rec1 = one_attempt_files [OF U part Q new P one Suc.prems(2)]
  show ?case
  proof (cases "retrying b")
    case False
    with Suc.prems(1) one ns have "b = a" "w1 = w'" by (simp_all add: bind_def ret_def)
    with rec1 False Suc.prems(3) show ?thesis by (intro exI [of _ "[a]"]) (simp add: upto.simps)
  next
    case True
    with Suc.prems(1) one ns obtain w2 where s: "sleep (p_pause p) w1 = (Return (), w2)"
      and more: "attempts_over p fn [n + 1..p_max p] (Some b) w2 = (Return a, w')"
      by (auto simp: bind_def split: prod.splits outcome.splits)
    from part_frameD [OF part.keeps_sleep s, of g] rec1 have w2: "intact g w2" "g (mem w2) = g (mem w1)" by simp_all
    have "k = nat (p_max p - (n + 1))" "n + 1 \<le> p_max p" using Suc.hyps(2) by simp_all
    from Suc.hyps(1) [OF this(1) more w2(1) this(2)] obtain h where h: "h \<noteq> []"
      "filed U h (g (mem w1)) (g (mem w'))" "last h = a" "map number h = [n + 1..n + 1 + int (length h) - 1]"
      "n + 1 + int (length h) - 1 \<le> p_max p" "\<not> retrying a" "\<forall>b \<in> set h. Q (att_trace b)"
      "\<forall>b \<in> set (butlast h). retrying b \<and> att_error b \<noteq> None \<and> skipped b = PyNone \<and> P (timed_out b) (att_error b)"
      using w2(2) by auto
    have "[n..n + int (length (b # h)) - 1] = n # [n + 1..n + 1 + int (length h) - 1]"
      using h(1) by (simp add: upto.simps [of n] algebra_simps)
    with h rec1 True show ?thesis by (intro exI [of _ "b # h"]) (auto simp: algebra_simps)
  qed
qed


text \<open>\<open>on_attempt\<close> as the simplest recorder: it appends the attempt it is handed to a list nothing else
  touches.\<close>

definition recording :: "('r, 'r attempt list \<times> 'x) policy \<Rightarrow> bool" where
  "recording p \<longleftrightarrow>
     p_on_attempt p = Some (\<lambda>a. update (\<lambda>w. w\<lparr>mem := (fst (mem w) @ [a], snd (mem w))\<rparr>))
     \<and> (\<forall>g. p_guard p = Some g \<longrightarrow> keeps (part_frame fst) g)
     \<and> (\<forall>a. keeps (part_frame fst) (p_retry_if p a))"

lemma recording_files: "recording p \<Longrightarrow> files fst (\<lambda>a s s'. s' = s @ [a]) p"
  by (auto simp: recording_def files_def update_def)

lemma filed_append: "filed (\<lambda>a s s'. s' = s @ [a]) h s s' \<longleftrightarrow> s' = s @ h"
  by (induction h arbitrary: s) auto

lemma always_true_abides: "abides (trace_frame (\<lambda>_. True)) p fn"
  by (simp add: abides_def keeps_def trace_frame_def)

lemma attempts_over_recorded:
  assumes rec: "recording p" and fn: "\<And>n. keeps (part_frame fst) (fn n)" and P: "retries_only p P"
    and run: "attempts_over p fn [n..p_max p] prev w = (Return a, w')" and "intact fst w" and "n \<le> p_max p"
  shows "\<exists>h. h \<noteq> [] \<and> fst (mem w') = fst (mem w) @ h \<and> last h = a \<and> map number h = [n..n + int (length h) - 1]
    \<and> n + int (length h) - 1 \<le> p_max p \<and> \<not> retrying a
    \<and> (\<forall>b \<in> set (butlast h). retrying b \<and> att_error b \<noteq> None \<and> skipped b = PyNone \<and> P (timed_out b) (att_error b))"
proof -
  have "abides (part_frame fst) p fn" using rec fn by (simp add: abides_def recording_def)
  from attempts_over_files [OF recording_files [OF rec] this always_true_abides _ P run assms(5,6)]
  show ?thesis by (auto simp: filed_append)
qed

text \<open>
  C8: \<open>on_attempt\<close> sees every attempt exactly once, in order, numbered from one and at most
  \<open>max_attempts\<close> of them; every attempt but the last failed and is marked as about to be retried,
  the last is not, and it is the one handed back.
\<close>

theorem attempts_in_sequence:
  assumes "recording p" and "\<And>n. keeps (part_frame fst) (fn n)" and "intact fst w" and "fst (mem w) = []"
    and "run_attempts p fn w = (Return a, w')"
  shows "let seen = fst (mem w') in
    seen \<noteq> [] \<and> last seen = a \<and> map number seen = [1..int (length seen)] \<and> int (length seen) \<le> p_max p
    \<and> \<not> retrying a \<and> (\<forall>b \<in> set (butlast seen). retrying b \<and> att_error b \<noteq> None \<and> skipped b = PyNone)"
proof -
  have P: "retries_only p (\<lambda>_ _. True)" by (simp add: retries_only_def)
  from assms(5) obtain w1 where "attempts_over p fn [1..p_max p] None (w\<lparr>scratch := []\<rparr>) = (Return a, w1)"
    and "mem w' = mem w1" and "1 \<le> p_max p"
    by (auto simp: run_attempts_run Let_def split: if_splits prod.splits)
  with attempts_over_recorded [OF assms(1,2) P this(1)] assms(3,4) show ?thesis by (auto simp: Let_def)
qed

text \<open>With the default policy a retry follows only an attempt that was not cut at its bound and
  whose error does not call itself final.\<close>

lemma default_retries:
  assumes "recording p" and "p_retry_if p = (\<lambda>a. ret (default_retry_if a))"
    and "\<And>n. keeps (part_frame fst) (fn n)" and "intact fst w" and "fst (mem w) = []"
    and "run_attempts p fn w = (Return a, w')"
  shows "\<forall>b \<in> set (butlast (fst (mem w'))). \<not> timed_out b \<and> (\<exists>e. att_error b = Some e \<and> attr_retryable e)"
proof -
  have P: "retries_only p (\<lambda>t e. \<not> t \<and> (\<forall>x. e = Some x \<longrightarrow> attr_retryable x))"
    using assms(2) by (auto simp: retries_only_def ret_def default_retry_if_truthy)
  from assms(6) obtain w1 where "attempts_over p fn [1..p_max p] None (w\<lparr>scratch := []\<rparr>) = (Return a, w1)"
    and "mem w' = mem w1" and "1 \<le> p_max p"
    by (auto simp: run_attempts_run Let_def split: if_splits prod.splits)
  with attempts_over_recorded [OF assms(1,3) P this(1)] assms(4,5) show ?thesis by fastforce
qed

text \<open>Three tries allowed: the first finds no free slot, the second a device of another model.\<close>

definition recorder :: "(unit, unit attempt list \<times> unit) policy" where
  "recorder =
     default_policy\<lparr>p_max := 3, p_lock := True,
       p_on_attempt := Some (\<lambda>a. update (\<lambda>w. w\<lparr>mem := (fst (mem w) @ [a], snd (mem w))\<rparr>))\<rparr>"

definition no_slot_then_wrong_model :: "int \<Rightarrow> (unit, unit attempt list \<times> unit) co" where
  "no_slot_then_wrong_model n =
     timed (if n = 1 then CONNECT else SESSION)
       (throw (if n = 1 then ConnectFailed ''no slot'' None else GattMismatch ''no service'' None))"

lemma recorder_recording: "recording recorder"
  by (simp add: recording_def recorder_def default_policy_def part.keeps_ret)

lemma example_keeps: "keeps (part_frame fst) (no_slot_then_wrong_model n)"
  by (rule keepsI) (simp add: no_slot_then_wrong_model_def timed_def throw_def part_frame_refl)

lemma example_returns:
  obtains a w' where "run_attempts recorder no_slot_then_wrong_model (idle ([], ())) = (Return a, w')"
    and "map number (fst (mem w')) = [1, 2]" and "map retrying (fst (mem w')) = [True, False]"
    and "map att_failed_stage (fst (mem w')) = [Some CONNECT, Some SESSION]" and "number a = 2"
proof -
  let ?run = "run_attempts recorder no_slot_then_wrong_model (idle ([], ()))"
  have "(case fst ?run of Return a \<Rightarrow> number a = 2 | _ \<Rightarrow> False)
      \<and> map number (fst (mem (snd ?run))) = [1, 2] \<and> map retrying (fst (mem (snd ?run))) = [True, False]
      \<and> map att_failed_stage (fst (mem (snd ?run))) = [Some CONNECT, Some SESSION]"
    by code_simp
  then show thesis using that by (cases ?run) (auto split: outcome.splits)
qed

theorem attempts_in_sequence_witness:
  "\<exists>w' a. run_attempts recorder no_slot_then_wrong_model (idle ([], ())) = (Return a, w')
     \<and> map number (fst (mem w')) = [1, 2] \<and> last (fst (mem w')) = a \<and> \<not> retrying a"
proof -
  obtain a w' where run: "run_attempts recorder no_slot_then_wrong_model (idle ([], ())) = (Return a, w')"
    and "map number (fst (mem w')) = [1, 2]" by (rule example_returns)
  moreover have "intact fst (idle ([], ()) :: (unit attempt list \<times> unit) world)"
    and "fst (mem (idle ([], ()) :: (unit attempt list \<times> unit) world)) = []"
    by (simp_all add: intact_def idle_def)
  ultimately show ?thesis
    using attempts_in_sequence [OF recorder_recording example_keeps _ _ run] by (auto simp: Let_def)
qed

section \<open>The lock\<close>

lemma keeps_lock_run_attempt: "(\<And>n. keeps lock_frame (fn n)) \<Longrightarrow> keeps lock_frame (run_attempt t fn n)"
  by (rule lck.keeps_run_attempt)

text \<open>What runs under the lock sees it held, and afterwards it is free.\<close>

lemma with_lock_cong:
  assumes "\<And>w. holder w = Me \<Longrightarrow> f w = g w"
  shows "with_lock True f w = with_lock True g w"
proof -
  obtain r w1 where a: "acquire w = (r, w1)" by (cases "acquire w")
  have "holder w1 = Me" if "r = Return x" for x
    using a that by (auto simp: acquire_def split: if_splits prod.splits outcome.splits)
  with a assms show ?thesis
    by (cases r) (simp_all add: with_lock_def bind_def finally_do_def)
qed

lemma with_lock_free:
  assumes "with_lock True f w = (r, w')" and "r \<noteq> Hang" and "holder w \<noteq> Me"
  shows "holder w' \<noteq> Me"
proof -
  obtain r1 w1 where a: "acquire w = (r1, w1)" by (cases "acquire w")
  have park: "holder (snd (park None (\<lambda>w. holder w = Nobody) w)) \<noteq> Me"
    using lck.R_park [of w] assms(3) by (simp add: lock_frame_def)
  show ?thesis
  proof (cases r1)
    case (Return u)
    obtain r2 w2 where f: "f w1 = (r2, w2)" by (cases "f w1")
    with a Return assms(1,2) show ?thesis
      by (cases r2) (auto simp: with_lock_def bind_def finally_do_def release_def)
  next
    case (Raise e)
    with a assms park show ?thesis
      by (auto simp: with_lock_def bind_def acquire_def split: if_splits prod.splits outcome.splits)
  qed (use a assms in \<open>auto simp: with_lock_def bind_def\<close>)
qed

text \<open>A callback that is only called where \<open>q\<close> holds may be replaced by one that agrees there.\<close>

definition agree_when :: "('m world \<Rightarrow> bool) \<Rightarrow> ('a, 'm) co \<Rightarrow> ('a, 'm) co \<Rightarrow> bool" where
  "agree_when q f g \<longleftrightarrow> (\<forall>w. q w \<longrightarrow> f w = g w)"

abbreviation locked :: "'m world \<Rightarrow> bool" where "locked w \<equiv> holder w = Me"

abbreviation unlocked :: "'m world \<Rightarrow> bool" where "unlocked w \<equiv> holder w \<noteq> Me"

text \<open>Two calls of the loop that differ only in what the attempt function and the guard do without
  the lock, and in what \<open>retry_if\<close> and \<open>on_attempt\<close> do holding it.\<close>

definition agree_on_lock ::
  "('r, 'm) policy \<Rightarrow> (int \<Rightarrow> ('r, 'm) co) \<Rightarrow> ('r, 'm) policy \<Rightarrow> (int \<Rightarrow> ('r, 'm) co) \<Rightarrow> bool" where
  "agree_on_lock p fn q fn' \<longleftrightarrow>
     p_lock p \<and> p_lock q \<and> p_max q = p_max p \<and> p_timeout q = p_timeout p \<and> p_pause q = p_pause p
     \<and> p_stage_map q = p_stage_map p
     \<and> (\<forall>n. agree_when locked (fn n) (fn' n))
     \<and> rel_option (agree_when locked) (p_guard p) (p_guard q)
     \<and> (\<forall>a. agree_when unlocked (p_retry_if p a) (p_retry_if q a))
     \<and> rel_option (\<lambda>f g. \<forall>a. agree_when unlocked (f a) (g a)) (p_on_attempt p) (p_on_attempt q)"

text \<open>Callbacks that leave the lock alone.\<close>

definition lock_respecting :: "('r, 'm) policy \<Rightarrow> (int \<Rightarrow> ('r, 'm) co) \<Rightarrow> bool" where
  "lock_respecting p fn \<longleftrightarrow>
     (\<forall>n. keeps lock_frame (fn n)) \<and> (\<forall>g. p_guard p = Some g \<longrightarrow> keeps lock_frame g)
     \<and> (\<forall>a. keeps lock_frame (p_retry_if p a))
     \<and> (\<forall>f a. p_on_attempt p = Some f \<longrightarrow> keeps lock_frame (f a))"

lemma lockedD: "keeps lock_frame f \<Longrightarrow> f w = (r, w') \<Longrightarrow> locked w' \<longleftrightarrow> locked w"
  using keepsD [of lock_frame f w r w'] by (simp add: lock_frame_def)

lemma guarded_attempt_agree:
  assumes "agree_on_lock p fn q fn'" and "lock_respecting p fn" and "locked w"
  shows "guarded_attempt p fn n w = guarded_attempt q fn' n w"
proof -
  have run: "run_attempt (p_timeout p) fn n v = run_attempt (p_timeout q) fn' n v" if "locked v" for v
  proof -
    have "fn n (push_scope (p_timeout p) v) = fn' n (push_scope (p_timeout p) v)"
      using assms(1) that by (simp add: agree_on_lock_def agree_when_def)
    then show ?thesis using assms(1) by (simp add: agree_on_lock_def run_attempt_def with_timeout_def)
  qed
  have g: "rel_option (agree_when locked) (p_guard p) (p_guard q)" using assms(1) by (simp add: agree_on_lock_def)
  show ?thesis
  proof (cases "p_guard p")
    case None
    with g run assms(3) show ?thesis by (simp add: guarded_attempt_def)
  next
    case (Some f)
    with g obtain f' where f': "p_guard q = Some f'" "f w = f' w"
      using assms(3) by (auto simp: option_rel_Some1 agree_when_def)
    obtain r w1 where f: "f w = (r, w1)" by (cases "f w")
    with Some assms(2,3) have "locked w1" using lockedD by (auto simp: lock_respecting_def)
    with Some f f' run show ?thesis by (cases r) (auto simp: guarded_attempt_def bind_def)
  qed
qed

lemma decide_retry_agree:
  assumes "agree_on_lock p fn q fn'" and "unlocked w"
  shows "decide_retry p n a w = decide_retry q n a w"
  using assms by (auto simp: decide_retry_def bind_def agree_on_lock_def agree_when_def)

lemma decide_retry_lock:
  assumes "lock_respecting p fn" and "decide_retry p n a w = (r, w')"
  shows "locked w' \<longleftrightarrow> locked w"
proof -
  have "keeps lock_frame (decide_retry p n a)"
    using assms(1) unfolding decide_retry_def lock_respecting_def
    by (auto simp: keeps_def ret_def intro!: lck.keeps_bind [unfolded keeps_def, rule_format] lck.R_refl)
  from lockedD [OF this assms(2)] show ?thesis .
qed

lemma finish_attempt_agree:
  assumes "agree_on_lock p fn q fn'" and "lock_respecting p fn" and "unlocked w"
  shows "finish_attempt p n a w = finish_attempt q n a w \<and> unlocked (snd (finish_attempt p n a w))"
proof -
  obtain r w1 where d: "decide_retry p n a w = (r, w1)" by (cases "decide_retry p n a w")
  then have w1: "unlocked w1" using decide_retry_lock [OF assms(2)] assms(3) by blast
  have d': "decide_retry q n a w = (r, w1)" using decide_retry_agree [OF assms(1,3)] d by simp
  have on: "rel_option (\<lambda>f g. \<forall>a. agree_when unlocked (f a) (g a)) (p_on_attempt p) (p_on_attempt q)"
    using assms(1) by (simp add: agree_on_lock_def)
  show ?thesis
  proof (cases r)
    case (Return b)
    let ?a = "a\<lparr>retrying := b\<rparr>"
    show ?thesis
    proof (cases "p_on_attempt p")
      case None
      with on d d' Return w1 show ?thesis by (simp add: finish_attempt_def bind_def ret_def)
    next
      case (Some f)
      with on obtain f' where f': "p_on_attempt q = Some f'" "f (snapshot ?a w1) w1 = f' (snapshot ?a w1) w1"
        using w1 by (auto simp: option_rel_Some1 agree_when_def)
      obtain r2 w2 where f: "f (snapshot ?a w1) w1 = (r2, w2)" by (cases "f (snapshot ?a w1) w1")
      have "keeps lock_frame (f (snapshot ?a w1))" using Some assms(2) by (simp add: lock_respecting_def)
      from lockedD [OF this f] w1 have "unlocked w2" by simp
      with f f' Some d d' Return show ?thesis by (cases r2) (simp_all add: finish_attempt_def bind_def Let_def)
    qed
  qed (use d d' w1 in \<open>simp_all add: finish_attempt_def bind_def\<close>)
qed

lemma one_attempt_agree:
  assumes "agree_on_lock p fn q fn'" and "lock_respecting p fn" and "unlocked w"
  shows "one_attempt p fn n w = one_attempt q fn' n w
    \<and> (fst (one_attempt p fn n w) \<noteq> Hang \<longrightarrow> unlocked (snd (one_attempt p fn n w)))"
proof -
  let ?w = "w\<lparr>live := new_trace (p_stage_map p)\<rparr>"
  have lock: "p_lock p" "p_lock q" "p_stage_map q = p_stage_map p" using assms(1) by (simp_all add: agree_on_lock_def)
  obtain r w1 where l: "with_lock True (guarded_attempt p fn n) ?w = (r, w1)"
    by (cases "with_lock True (guarded_attempt p fn n) ?w")
  have l': "with_lock True (guarded_attempt q fn' n) ?w = (r, w1)"
    using with_lock_cong [of "guarded_attempt p fn n" "guarded_attempt q fn' n" ?w]
      guarded_attempt_agree [OF assms(1,2)] l by simp
  have "unlocked w1" if "r \<noteq> Hang" using with_lock_free [OF l that] assms(3) by simp
  then have fin: "finish_attempt p n b w1 = finish_attempt q n b w1 \<and> unlocked (snd (finish_attempt p n b w1))"
    if "r = Return b" for b
    using finish_attempt_agree [OF assms(1,2), of w1 n b] that outcome.distinct(3) by blast
  with l l' lock fin with_lock_free [OF l] assms(3) show ?thesis
    by (cases r) (simp_all add: one_attempt_def bind_def update_def)
qed

text \<open>Two pauses that differ only in what they do holding the lock.\<close>

definition agree_on_pause :: "(seconds \<Rightarrow> (unit, 'm) co) \<Rightarrow> bool" where
  "agree_on_pause nap \<longleftrightarrow> (\<forall>t. agree_when unlocked (sleep t) (nap t))"

lemma attempts_over_agree:
  assumes "agree_on_lock p fn q fn'" and "lock_respecting p fn" and "unlocked w" and "agree_on_pause nap"
  shows "attempts_over p fn ns prev w = attempts_paced nap q fn' ns prev w
    \<and> (fst (attempts_over p fn ns prev w) \<noteq> Hang \<longrightarrow> unlocked (snd (attempts_over p fn ns prev w)))"
  using assms(3)
proof (induction ns arbitrary: prev w)
  case Nil
  then show ?case by (cases prev) (simp_all add: throw_def ret_def)
next
  case (Cons n ns)
  obtain r w1 where one: "one_attempt p fn n w = (r, w1)" by (cases "one_attempt p fn n w")
  have a: "one_attempt q fn' n w = (r, w1)" "r \<noteq> Hang \<Longrightarrow> unlocked w1"
    using one_attempt_agree [OF assms(1,2) Cons.prems, of n] one by simp_all
  show ?case
  proof (cases r)
    case (Return b)
    obtain r2 w2 where s: "sleep (p_pause p) w1 = (r2, w2)" by (cases "sleep (p_pause p) w1")
    have w1: "unlocked w1" using a Return by simp
    with assms(4) s have nap: "nap (p_pause p) w1 = (r2, w2)" by (simp add: agree_on_pause_def agree_when_def)
    from w1 have "unlocked w2" using lockedD [OF lck.keeps_sleep s] by simp
    from Cons.IH [OF this, of "Some b"] have
      "attempts_over p fn ns (Some b) w2 = attempts_paced nap q fn' ns (Some b) w2"
      "fst (attempts_over p fn ns (Some b) w2) \<noteq> Hang \<Longrightarrow> unlocked (snd (attempts_over p fn ns (Some b) w2))"
      by blast+
    moreover have "p_pause q = p_pause p" using assms(1) by (simp add: agree_on_lock_def)
    ultimately show ?thesis
      using a Return one s nap w1 \<open>unlocked w2\<close> by (cases r2) (simp_all add: bind_def ret_def)
  qed (use a one in \<open>simp_all add: bind_def\<close>)
qed

text \<open>
  C14: The lock is held for one attempt, not for the sequence: the attempt function and the guard run
  only while it is held, \<open>retry_if\<close>, \<open>on_attempt\<close> and the pause between two attempts only while it is not,
  so what either side would do otherwise makes no difference; and however the loop ends, the lock is
  given back.
\<close>

theorem lock_discipline:
  assumes "agree_on_lock p fn q fn'" and "agree_on_pause nap" and "lock_respecting p fn" and "unlocked w"
  shows "run_attempts p fn w = run_paced nap q fn' w
    \<and> (fst (run_attempts p fn w) \<noteq> Hang \<longrightarrow> unlocked (snd (run_attempts p fn w)))"
  using attempts_over_agree [OF assms(1,3) _ assms(2), of "w\<lparr>scratch := []\<rparr>" "[1..p_max p]" None] assms
  by (auto simp: run_attempts_run run_paced_def Let_def agree_on_lock_def split: prod.splits)

text \<open>Two attempts: an attempt function that would fail without the lock, and a callback and a pause that
  would hang with it.\<close>

definition needs_lock :: "int \<Rightarrow> (unit, unit) co" where
  "needs_lock n w =
     (if locked w then (if n = 1 then (Raise (plain_exc BleakErrorC []), w) else (Return (), w))
      else (Raise (plain_exc RuntimeErrorC []), w))"

definition first_fails :: "int \<Rightarrow> (unit, unit) co" where
  "first_fails n = (if n = 1 then throw (plain_exc BleakErrorC []) else ret ())"

definition locking :: "(unit, unit) policy" where
  "locking = default_policy\<lparr>p_lock := True, p_max := 2, p_on_attempt := Some (\<lambda>a. ret ())\<rparr>"

definition shy_recorder :: "(unit, unit) policy" where
  "shy_recorder = default_policy\<lparr>p_lock := True, p_max := 2,
     p_on_attempt := Some (\<lambda>a w. if locked w then (Hang, w) else (Return (), w))\<rparr>"

definition shy_pause :: "seconds \<Rightarrow> (unit, 'm) co" where
  "shy_pause t w = (if locked w then (Hang, w) else sleep t w)"

theorem lock_discipline_witness:
  "\<exists>a. fst (run_attempts locking first_fails (idle ())) = Return a \<and> ok a \<and> number a = 2
     \<and> run_attempts locking first_fails (idle ()) = run_paced shy_pause shy_recorder needs_lock (idle ())
     \<and> unlocked (snd (run_paced shy_pause shy_recorder needs_lock (idle ())))"
proof -
  have agree: "agree_on_lock locking first_fails shy_recorder needs_lock"
    by (simp add: agree_on_lock_def locking_def shy_recorder_def default_policy_def agree_when_def
        needs_lock_def first_fails_def ret_def throw_def)
  have pause: "agree_on_pause shy_pause" by (simp add: agree_on_pause_def agree_when_def shy_pause_def)
  have resp: "lock_respecting locking first_fails"
    by (simp add: lock_respecting_def locking_def default_policy_def first_fails_def lck.keeps_ret lck.keeps_throw)
  have run: "case fst (run_attempts locking first_fails (idle ())) of Return a \<Rightarrow> ok a \<and> number a = 2 | _ \<Rightarrow> False"
    by code_simp
  have "unlocked (idle ())" by (simp add: idle_def)
  from lock_discipline [OF agree pause resp this] run show ?thesis by (auto split: outcome.splits)
qed

section \<open>The loop ends in time and reports\<close>

text \<open>A callback that returns without waiting, and leaves the attempt's trace alone.\<close>

definition immediate :: "('a, 'm) co \<Rightarrow> bool" where
  "immediate f \<longleftrightarrow>
     (\<forall>w. \<exists>x w'. f w = (Return x, w') \<and> now w' = now w \<and> scopes w' = scopes w \<and> agenda w' = agenda w
        \<and> cancels w' = cancels w \<and> holder w' = holder w \<and> live w' = live w)"

text \<open>No scope around, nobody going to cancel the task, and no other task after the lock.\<close>

definition undisturbed :: "'m world \<Rightarrow> bool" where
  "undisturbed w \<longleftrightarrow> scopes w = [] \<and> cancel_count (agenda w) = 0"

definition unclaimed :: "'m world \<Rightarrow> bool" where
  "unclaimed w \<longleftrightarrow> holder w = Nobody \<and> (\<forall>(t, s) \<in> set (agenda w). s \<noteq> LockTaken)"

definition unclaimed_frame :: "'m world \<Rightarrow> 'm world \<Rightarrow> bool" where
  "unclaimed_frame w w' \<longleftrightarrow> (unclaimed w \<longrightarrow> unclaimed w')"

lemma fold_deliver_unclaimed:
  "(\<forall>(t, s) \<in> set xs. s \<noteq> LockTaken) \<Longrightarrow> holder w = Nobody \<Longrightarrow> holder (fold (\<lambda>(_, s). deliver s) xs w) = Nobody"
proof (induction xs arbitrary: w)
  case (Cons x xs)
  obtain t s where x: "x = (t, s)" by (cases x)
  with Cons.prems have "holder (deliver s w) = Nobody" by (cases s) auto
  with Cons x show ?case by simp
qed simp

lemma unclaimed_advance: "unclaimed w \<Longrightarrow> unclaimed (advance t w)"
proof -
  assume u: "unclaimed w"
  then have "\<forall>(t', s) \<in> set (takeWhile (\<lambda>(s, _). s \<le> t) (agenda w)). s \<noteq> LockTaken"
    unfolding unclaimed_def using set_takeWhileD by fastforce
  from fold_deliver_unclaimed [OF this] u have "holder (advance t w) = Nobody"
    by (simp add: unclaimed_def advance_def fire_due_def deliver_due_def)
  with u show ?thesis unfolding unclaimed_def using set_dropWhileD by fastforce
qed

interpretation unc: scoped_frame unclaimed_frame
  by unfold_locales (auto simp: unclaimed_frame_def unclaimed_advance, auto simp: unclaimed_def)

lemma cancel_count_suffix: "frame w w' \<Longrightarrow> cancel_count (agenda w) = 0 \<Longrightarrow> cancel_count (agenda w') = 0"
  by (auto simp: frame_def)

lemma undisturbed_frame: "frame w w' \<Longrightarrow> undisturbed w \<Longrightarrow> undisturbed w'"
  using cancel_count_suffix by (auto simp: undisturbed_def frame_def)

text \<open>At the top, the bound turns the cancellation it asked for into a TimeoutError.\<close>

lemma bound_converts:
  assumes f: "keeps frame f" "orderly f" and u: "undisturbed w"
    and run: "with_timeout t f w = ((Raise e, x), w')"
  shows "isinstance e ExceptionC"
proof -
  obtain r w1 where f1: "f (push_scope t w) = (r, w1)" by (cases "f (push_scope t w)")
  obtain s ss where s: "scopes w1 = s # ss" "base s = cancels w"
    "with_timeout t f w = ((scope_outcome s (cancels (pop_scope w1)) r, fired s), pop_scope w1)"
    by (rule with_timeout_run [OF f(1) f1])
  have fr: "frame (push_scope t w) w1" using keepsD [OF f(1) f1] .
  with u obtain used where "agenda w = used @ agenda w1" "scopes w1 = [s]"
    "cancels w1 = cancels w + fired_count [s] + cancel_count used"
    using s(1) by (auto simp: frame_def undisturbed_def)
  with u have c: "cancels w1 = cancels w + (if fired s then 1 else 0)" by (simp add: undisturbed_def)
  from run s(3) have "scope_outcome s (cancels (pop_scope w1)) r = Raise e" by auto
  then obtain e' where r: "r = Raise e'" by (cases r) (auto simp: scope_outcome_def)
  show ?thesis
  proof (cases "isinstance e' CancelledErrorC")
    case True
    then have "cancels w < cancels w1"
      using f(2) f1 r isinstance_exception_not_cancelled by (fastforce simp: orderly_def)
    then have "fired s" using c by (simp split: if_splits)
    then have "e = with_cause timeout_error e'"
      using run s r c True by (simp add: scope_outcome_def pop_scope_def)
    then show ?thesis by (simp add: timeout_error_def issubclass_eval)
  next
    case False
    then have "e = e'" using run s r by (simp add: scope_outcome_def)
    with f(2) f1 r False show ?thesis by (auto simp: orderly_def)
  qed
qed

text \<open>How an attempt under a bound ends.\<close>

definition reports :: "seconds \<Rightarrow> 'r attempt \<Rightarrow> bool" where
  "reports t a \<longleftrightarrow>
     (case att_error a of
        None \<Rightarrow> \<not> timed_out a
      | Some e \<Rightarrow>
          isinstance e ExceptionC \<and> skipped a = PyNone
          \<and> (timed_out a \<longrightarrow>
              (\<exists>c. e = with_cause (AttemptTimedOut t (failed_primary (att_trace a)) (failed_detail (att_trace a))) c)))"

lemma run_attempt_returns:
  assumes f: "polite b (fn n)" "orderly (fn n)" and u: "undisturbed w"
  shows "\<exists>a w'. run_attempt (Some t) fn n w = (Return a, w') \<and> reports t a
    \<and> now w' \<le> now w + (max 0 t + b) \<and> undisturbed w'"
proof -
  obtain r x w' where run: "with_timeout (Some t) (fn n) w = ((r, x), w')"
    by (cases "with_timeout (Some t) (fn n) w") auto
  have b: "bounded (Some t) (fn n) w = (r, w')" using run by (simp add: bounded_def)
  have "now w' \<le> now w + (max 0 t + b)" "r \<noteq> Hang"
    using ends_withinD [OF ends_within_bounded [OF f(1)] b] by simp_all
  moreover have "undisturbed w'"
    using undisturbed_frame [OF keepsD [OF frm.keeps_bounded b] u] politeD(2) [OF f(1)] by blast
  moreover have "isinstance e ExceptionC" if "r = Raise e" for e
    using bound_converts [OF politeD(2) [OF f(1)] f(2) u] run that by blast
  ultimately show ?thesis
    using run by (cases r)
      (auto simp: run_attempt_def reports_def new_attempt_def Let_def issubclass_eval)
qed

text \<open>The callbacks return without waiting, the attempt function is under a bound.\<close>

definition well_behaved :: "('r, 'm) policy \<Rightarrow> (int \<Rightarrow> ('r, 'm) co) \<Rightarrow> seconds \<Rightarrow> bool" where
  "well_behaved p fn b \<longleftrightarrow>
     (\<forall>n. polite b (fn n) \<and> orderly (fn n))
     \<and> (\<forall>g. p_guard p = Some g \<longrightarrow> immediate g)
     \<and> (\<forall>a. immediate (p_retry_if p a))
     \<and> (\<forall>f a. p_on_attempt p = Some f \<longrightarrow> immediate (f a))"

lemma immediateE:
  assumes "immediate f"
  obtains x w' where "f w = (Return x, w')" and "now w' = now w" and "undisturbed w' = undisturbed w"
    and "unclaimed w' = unclaimed w" and "live w' = live w" and "agenda w' = agenda w"
  using assms unfolding immediate_def undisturbed_def unclaimed_def by metis

definition ready_to_try :: "('r, 'm) policy \<Rightarrow> 'm world \<Rightarrow> bool" where
  "ready_to_try p w \<longleftrightarrow> undisturbed w \<and> (p_lock p \<longrightarrow> unclaimed w)"

lemma guarded_attempt_returns:
  assumes ok: "well_behaved p fn b" and t: "p_timeout p = Some t" and u: "undisturbed w"
  shows "\<exists>a w'. guarded_attempt p fn n w = (Return a, w') \<and> reports t a \<and> now w' \<le> now w + (max 0 t + b)
    \<and> undisturbed w' \<and> (\<exists>used. agenda w = used @ agenda w')"
proof -
  have fn: "polite b (fn n)" "orderly (fn n)" using ok by (simp_all add: well_behaved_def)
  have run: "\<exists>a w'. run_attempt (Some t) fn n v = (Return a, w') \<and> reports t a \<and> now w' \<le> now v + (max 0 t + b)
      \<and> undisturbed w' \<and> (\<exists>used. agenda v = used @ agenda w')" if "undisturbed v" for v
  proof -
    have "keeps frame (run_attempt (Some t) fn n)"
      using ok by (intro frm.keeps_run_attempt) (auto simp: well_behaved_def intro: politeD(2))
    then show ?thesis
      using run_attempt_returns [where fn = fn and n = n, OF fn that, of t] by (fastforce simp: frame_def dest: keepsD)
  qed
  have nonneg: "0 \<le> max 0 t + b" using politeD(1) [OF fn(1)] by simp
  show ?thesis
  proof (cases "p_guard p")
    case None
    then show ?thesis using run [OF u] t by (simp add: guarded_attempt_def)
  next
    case (Some g)
    with ok have "immediate g" by (simp add: well_behaved_def)
    then obtain skip w1 where g: "g w = (Return skip, w1)" "now w1 = now w" "undisturbed w1" "agenda w1 = agenda w"
      using u by (metis immediateE)
    show ?thesis
    proof (cases "skip = PyNone")
      case True
      with Some g t run [OF g(3)] show ?thesis by (simp add: guarded_attempt_def bind_def)
    next
      case False
      with Some g nonneg show ?thesis by (simp add: guarded_attempt_def bind_def reports_def new_attempt_def)
    qed
  qed
qed

lemma with_lock_returns:
  assumes ok: "well_behaved p fn b" and t: "p_timeout p = Some t" and u: "ready_to_try p w"
  shows "\<exists>a w'. with_lock (p_lock p) (guarded_attempt p fn n) w = (Return a, w') \<and> reports t a
    \<and> now w' \<le> now w + (max 0 t + b) \<and> ready_to_try p w'"
proof (cases "p_lock p")
  case False
  with guarded_attempt_returns [OF ok t] u show ?thesis
    by (fastforce simp: with_lock_def ready_to_try_def)
next
  case True
  let ?w = "w\<lparr>holder := Me\<rparr>"
  have u': "undisturbed ?w" "unclaimed w" using u True by (simp_all add: ready_to_try_def undisturbed_def)
  from guarded_attempt_returns [OF ok t u'(1)] obtain a w' used where
    g: "guarded_attempt p fn n ?w = (Return a, w')" "reports t a" "now w' \<le> now ?w + (max 0 t + b)"
      "undisturbed w'" "agenda ?w = used @ agenda w'" by blast
  have "with_lock True (guarded_attempt p fn n) w = (Return a, w'\<lparr>holder := Nobody\<rparr>)"
    using u'(2) g(1) by (simp add: with_lock_def bind_def acquire_def unclaimed_def finally_do_def release_def)
  moreover have "ready_to_try p (w'\<lparr>holder := Nobody\<rparr>)"
    using g(4,5) u'(2) by (auto simp: ready_to_try_def undisturbed_def unclaimed_def)
  ultimately show ?thesis using True g(2,3) by auto
qed

lemma immediate_keeps_ready:
  assumes "immediate f"
  obtains x w' where "f w = (Return x, w')" and "now w' = now w" and "ready_to_try p w' = ready_to_try p w"
    and "live w' = live w"
  using assms immediateE [OF assms, of w] unfolding ready_to_try_def by metis

lemma finish_attempt_returns:
  assumes ok: "well_behaved p fn b" and u: "ready_to_try p w"
  shows "\<exists>r w'. finish_attempt p n a w = (Return (snapshot (a\<lparr>retrying := r\<rparr>) w'), w') \<and> now w' = now w
    \<and> live w' = live w \<and> ready_to_try p w' \<and> (r \<longrightarrow> n < p_max p)"
proof -
  have "\<exists>r w1. decide_retry p n a w = (Return r, w1) \<and> now w1 = now w \<and> live w1 = live w
      \<and> ready_to_try p w1 \<and> (r \<longrightarrow> n < p_max p)"
  proof (cases "att_error a \<noteq> None \<and> skipped a = PyNone \<and> n < p_max p")
    case True
    have "immediate (p_retry_if p (snapshot a w))" using ok by (simp add: well_behaved_def)
    then obtain v w1 where "p_retry_if p (snapshot a w) w = (Return v, w1)" "now w1 = now w" "ready_to_try p w1" "live w1 = live w"
      using u by (metis immediate_keeps_ready)
    with True show ?thesis by (simp add: decide_retry_def bind_def ret_def)
  qed (use u in \<open>auto simp: decide_retry_def ret_def\<close>)
  then obtain r w1 where d: "decide_retry p n a w = (Return r, w1)" "now w1 = now w" "ready_to_try p w1" "live w1 = live w"
    "r \<longrightarrow> n < p_max p" by blast
  show ?thesis
  proof (cases "p_on_attempt p")
    case None
    with d show ?thesis by (intro exI [of _ r] exI [of _ w1]) (simp add: finish_attempt_def bind_def ret_def)
  next
    case (Some f)
    with ok have "immediate (f (snapshot (a\<lparr>retrying := r\<rparr>) w1))" by (simp add: well_behaved_def)
    then obtain v w2 where "f (snapshot (a\<lparr>retrying := r\<rparr>) w1) w1 = (Return v, w2)" "now w2 = now w1" "ready_to_try p w2" "live w2 = live w1"
      using d(3) by (metis immediate_keeps_ready)
    with d Some show ?thesis
      by (intro exI [of _ r] exI [of _ w2]) (simp add: finish_attempt_def bind_def Let_def)
  qed
qed

lemma park_undisturbed:
  "undisturbed w \<Longrightarrow> park until ready w = (r, w') \<Longrightarrow> r = Return () \<or> r = Hang"
proof (induction until ready w arbitrary: r w' rule: park.induct)
  case (1 until ready w)
  show ?case
  proof (cases "next_time until w")
    case (Some t)
    have "now w \<le> t" using Some by (auto simp: next_time_def)
    then have u: "undisturbed (advance t w)" by (rule undisturbed_frame [OF frame_advance "1.prems"(1)])
    have "cancel_count (takeWhile (\<lambda>(s, _). s \<le> t) (agenda w)) = 0"
      using "1.prems"(1) cancel_count_simps(2) [of "takeWhile (\<lambda>(s, _). s \<le> t) (agenda w)" "dropWhile (\<lambda>(s, _). s \<le> t) (agenda w)"]
      by (simp add: undisturbed_def)
    then have c: "cancels (advance t w) = cancels w"
      using "1.prems"(1) by (simp add: advance_cancels undisturbed_def)
    show ?thesis
    proof (cases "ready (advance t w) \<or> reached until t")
      case True
      with "1.prems"(2) Some c show ?thesis by (subst (asm) park.simps) (simp add: Let_def)
    next
      case False
      then have "park until ready (advance t w) = (r, w')"
        using "1.prems"(2) Some c by (subst (asm) park.simps) (simp add: Let_def)
      from "1.IH" [OF Some refl _ False u this] c show ?thesis by simp
    qed
  qed (use "1.prems" in \<open>simp add: park.simps\<close>)
qed

lemma sleep_undisturbed: "undisturbed w \<Longrightarrow> sleep d w = (r, w') \<Longrightarrow> r = Return () \<or> r = Hang"
  unfolding sleep_def by (rule park_undisturbed)

lemma pause_keeps_ready:
  assumes "ready_to_try p w"
  shows "\<exists>w'. sleep d w = (Return (), w') \<and> ready_to_try p w' \<and> now w' \<le> now w + max 0 d"
proof -
  obtain r w' where s: "sleep d w = (r, w')" by (cases "sleep d w")
  have s2: "now w' \<le> now w + max 0 d" "r \<noteq> Hang"
    using ends_withinD [OF ends_within_sleep s] by simp_all
  moreover have u: "undisturbed w" using assms by (simp add: ready_to_try_def)
  ultimately have "r = Return ()" "undisturbed w'"
    using sleep_undisturbed [OF _ s] undisturbed_frame [OF keepsD [OF frm.keeps_sleep s]] by auto
  moreover have "p_lock p \<longrightarrow> unclaimed w'"
    using assms keepsD [OF unc.keeps_sleep s] by (simp add: ready_to_try_def unclaimed_frame_def)
  ultimately show ?thesis using s s2(1) by (simp add: ready_to_try_def)
qed

lemma guarded_attempt_live:
  assumes "with_lock u (guarded_attempt p fn n) w = (Return a, w')"
  shows "att_trace a = live w' \<and> number a = n"
  using with_lock_Return [OF assms] guarded_attempt_fields by metis

lemma one_attempt_returns:
  assumes ok: "well_behaved p fn b" and t: "p_timeout p = Some t" and u: "ready_to_try p w"
  shows "\<exists>a w'. one_attempt p fn n w = (Return a, w') \<and> reports t a \<and> now w' \<le> now w + (max 0 t + b)
    \<and> ready_to_try p w' \<and> (retrying a \<longrightarrow> n < p_max p)"
proof -
  let ?w = "w\<lparr>live := new_trace (p_stage_map p)\<rparr>"
  have "ready_to_try p ?w" using u by (simp add: ready_to_try_def undisturbed_def unclaimed_def)
  from with_lock_returns [OF ok t this] obtain a w1 where
    l: "with_lock (p_lock p) (guarded_attempt p fn n) ?w = (Return a, w1)" "reports t a"
      "now w1 \<le> now ?w + (max 0 t + b)" "ready_to_try p w1" by blast
  from finish_attempt_returns [OF ok l(4)] obtain r w2 where
    f: "finish_attempt p n a w1 = (Return (snapshot (a\<lparr>retrying := r\<rparr>) w2), w2)" "now w2 = now w1"
      "live w2 = live w1" "ready_to_try p w2" "r \<longrightarrow> n < p_max p" by blast
  have "reports t (snapshot (a\<lparr>retrying := r\<rparr>) w2)"
    using l(2) guarded_attempt_live [OF l(1)] f(3) by (simp add: reports_def split: option.splits)
  with l f show ?thesis by (simp add: one_attempt_def bind_def update_def)
qed

lemma attempts_over_returns:
  assumes ok: "well_behaved p fn b" and t: "p_timeout p = Some t"
    and "ready_to_try p w" and "n \<le> p_max p"
  shows "\<exists>a w'. attempts_over p fn [n..p_max p] prev w = (Return a, w') \<and> reports t a \<and> \<not> retrying a
    \<and> now w' \<le> now w + of_int (p_max p - n + 1) * (max 0 t + b + max 0 (p_pause p))"
  using assms(3,4)
proof (induction "nat (p_max p - n)" arbitrary: n prev w)
  let ?step = "max 0 t + b + max 0 (p_pause p)"
  have pos: "0 \<le> b" using ok politeD(1) by (auto simp: well_behaved_def)
  {
    case (0 n)
    then have ns: "[n..p_max p] = [n]" and n: "n = p_max p" by (simp_all add: upto.simps)
    from one_attempt_returns [OF ok t "0.prems"(1)] obtain a w' where
      "one_attempt p fn n w = (Return a, w')" "reports t a" "now w' \<le> now w + (max 0 t + b)"
      "retrying a \<longrightarrow> n < p_max p" by blast
    with ns n show ?case by (simp add: bind_def ret_def)
  next
    case (Suc k n)
    then have ns: "[n..p_max p] = n # [n + 1..p_max p]" and n: "n + 1 \<le> p_max p" by (simp_all add: upto.simps)
    have more: "of_int (p_max p - n + 1) * ?step = ?step + of_int (p_max p - (n + 1) + 1) * ?step"
      by (simp add: algebra_simps)
    have later: "0 \<le> of_int (p_max p - (n + 1) + 1) * ?step" using n pos by simp
    from one_attempt_returns [OF ok t Suc.prems(1)] obtain a w1 where
      one: "one_attempt p fn n w = (Return a, w1)" "reports t a" "now w1 \<le> now w + (max 0 t + b)"
      "ready_to_try p w1" by blast
    show ?case
    proof (cases "retrying a")
      case False
      have "max 0 t + b \<le> ?step" by simp
      with one(3) more later have "now w1 \<le> now w + of_int (p_max p - n + 1) * ?step" by linarith
      with one ns False show ?thesis by (simp add: bind_def ret_def)
    next
      case True
      from pause_keeps_ready [OF one(4)] obtain w2 where s: "sleep (p_pause p) w1 = (Return (), w2)"
        "ready_to_try p w2" "now w2 \<le> now w1 + max 0 (p_pause p)" by blast
      have "k = nat (p_max p - (n + 1))" using Suc.hyps(2) by simp
      from Suc.hyps(1) [OF this s(2) n, of "Some a"] obtain c w' where
        rest: "attempts_over p fn [n + 1..p_max p] (Some a) w2 = (Return c, w')" "reports t c" "\<not> retrying c"
          "now w' \<le> now w2 + of_int (p_max p - (n + 1) + 1) * ?step" by blast
      have "now w' \<le> now w + of_int (p_max p - n + 1) * ?step"
        using rest(4) s(3) one(3) more by simp
      with rest one ns True s(1) show ?thesis by (simp add: bind_def)
    qed
  }
qed

lemma loop_returns:
  assumes "well_behaved p fn b" and "p_timeout p = Some t" and "1 \<le> p_max p"
    and "undisturbed w" and "p_lock p \<longrightarrow> unclaimed w"
  shows "\<exists>a w'. run_attempts p fn w = (Return a, w') \<and> reports t a \<and> \<not> retrying a
    \<and> now w' \<le> now w + of_int (p_max p) * (max 0 t + b + max 0 (p_pause p))"
proof -
  have "ready_to_try p (w\<lparr>scratch := []\<rparr>)"
    using assms(4,5) by (simp add: ready_to_try_def undisturbed_def unclaimed_def)
  from attempts_over_returns [OF assms(1,2) this assms(3), of None] assms(3) show ?thesis
    by (auto simp: run_attempts_run Let_def)
qed

text \<open>
  C2: The retry loop always comes back, and never raises for a failed attempt: with a bound on every
  attempt, whatever the attempt function does (fail, hang, be cut), it returns an Attempt within
  \<open>max_attempts\<close> times the bound, the attempt's own lateness and the pause.  An attempt cut at its
  bound carries an \<open>AttemptTimedOut\<close> with the stage the trace stopped in.
\<close>

theorem run_attempts_returns:
  assumes "well_behaved p fn b" and "p_timeout p = Some t" and "1 \<le> p_max p"
    and "undisturbed w" and "p_lock p \<longrightarrow> unclaimed w"
  shows "\<exists>a w'. run_attempts p fn w = (Return a, w') \<and> reports t a \<and> \<not> retrying a
    \<and> now w' \<le> now w + of_int (p_max p) * (max 0 t + b + max 0 (p_pause p))"
  using assms by (rule loop_returns)

text \<open>The proxy dies: the attempt function waits for something that never comes.\<close>

definition wedged :: "int \<Rightarrow> (unit, unit) co" where
  "wedged n = timed TRANSFER (park None (\<lambda>_. False))"

definition two_tries :: "(unit, unit) policy" where
  "two_tries = default_policy\<lparr>p_max := 2, p_timeout := Some 30, p_lock := True\<rparr>"

lemma wedged_run:
  assumes "scopes w = []" and "agenda w = []"
  shows "with_timeout (Some 30) (wedged n) w =
    ((Raise (with_cause timeout_error cancelled_error), True),
     w\<lparr>now := now w + 30, live := timed_exit TRANSFER True 30 (timed_enter TRANSFER (live w))\<rparr>)"
  using assms
  by (simp add: with_timeout_def push_scope_def pop_scope_def wedged_def timed_def park.simps next_time_def
      wake_times_def pending_def advance_def deliver_due_def fire_due_def due_def scope_outcome_def
      cancelled_error_def issubclass_eval Let_def)

theorem run_attempts_returns_witness:
  "\<exists>a w'. run_attempts two_tries wedged (idle ()) = (Return a, w')
     \<and> timed_out a \<and> att_failed_stage a = Some TRANSFER \<and> now w' \<le> 62"
proof -
  have "well_behaved two_tries wedged 0"
    by (simp add: well_behaved_def two_tries_def default_policy_def wedged_def polite_timed polite_park
        orderly_timed orderly_park immediate_def ret_def)
  moreover have "undisturbed (idle ())" "unclaimed (idle ())"
    by (simp_all add: undisturbed_def unclaimed_def idle_def)
  ultimately obtain a w' where run: "run_attempts two_tries wedged (idle ()) = (Return a, w')" and
    "now w' \<le> now (idle ()) + of_int (p_max two_tries) * (max 0 30 + 0 + max 0 (p_pause two_tries))"
    using run_attempts_returns [of two_tries wedged 0 30 "idle ()"] by (auto simp: two_tries_def)
  moreover have "case fst (run_attempts two_tries wedged (idle ())) of
      Return a \<Rightarrow> timed_out a \<and> att_failed_stage a = Some TRANSFER | _ \<Rightarrow> False"
    by (simp add: run_attempts_run two_tries_def default_policy_def upto.simps one_attempt_def bind_def update_def
        with_lock_def acquire_def finally_do_def release_def guarded_attempt_def run_attempt_def wedged_run
        idle_def finish_attempt_def decide_retry_def default_retry_if_def snapshot_def new_attempt_def ret_def
        att_failed_stage_def failure_stage failed_primary_def new_trace_def timeout_error_def issubclass_eval Let_def)
  ultimately show ?thesis by (simp add: two_tries_def default_policy_def idle_def)
qed

end
