(* ===== verification/Causes.thy ===== *)
theory Causes
  imports Errors
begin

text \<open>
  The generic reading of a failed session (\<open>src/src/blesession/causes.py\<close>): the stable key
  \<open>cause_key\<close> picks from the primary stage, the error's type and its text; the table of
  sentences \<open>CAUSES\<close>; \<open>generic_cause\<close>, which renders the sentence, with the
  placement advice a weak signal earns.
\<close>

definition WEAK_RSSI_DBM :: int where "WEAK_RSSI_DBM = - 85"

text \<open>\<open>facts.get(key, default)\<close>\<close>

definition get_or :: "(string, pyval) dict \<Rightarrow> string \<Rightarrow> pyval \<Rightarrow> pyval" where
  "get_or d key dflt = (case dict_get d key of Some v \<Rightarrow> v | None \<Rightarrow> dflt)"

definition placement :: "(string, pyval) dict \<Rightarrow> string \<Rightarrow> string" where
  "placement facts noun =
     (let rssi = get_or facts ''rssi'' PyNone in
      case as_int rssi of
        None \<Rightarrow> []
      | Some dbm \<Rightarrow>
          (if dbm > WEAK_RSSI_DBM then []
           else '' The signal is weak ('' @ py_str rssi @ '' dBm via ''
                @ py_str (get_or facts ''via'' (PyStr ''unknown'')) @ '')''
                @ (if equals_int (get_or facts ''paths'' PyNone) 1
                   then '' and no other radio reaches the '' @ noun else [])
                @ '' '' @ em_dash @ '' move the '' @ noun @ '' or add a proxy.''))"

definition cause_key :: "string option \<Rightarrow> string \<Rightarrow> exc option \<Rightarrow> string option" where
  "cause_key stage error exc =
     (let err = lower error;
          unanswered = isinstance_opt exc NotificationTimeoutC \<or> contains ''no response'' err;
          lost = isinstance_opt exc SessionDroppedC \<or> contains ''link dropped'' err
      in if isinstance_opt exc AttemptTimedOutC then
           (if stage = Some DISCONNECT then Some ''disconnect.timed_out'' else Some ''attempt_timed_out'')
         else if isinstance_opt exc GattMismatchC then Some ''session.gatt_mismatch''
         else if isinstance_opt exc WriteTimeoutC then Some ''write_timeout''
         else if stage = Some UNREACHABLE then Some ''unreachable''
         else if stage = Some CONNECT then
           (if contains ''slot'' err then Some ''connect.no_slot''
            else if (case exc of None \<Rightarrow> False | Some e \<Rightarrow> attr_detail e = Some ''settle'') \<or> contains ''settle'' err
              then Some ''connect.settle''
            else Some ''connect.failed'')
         else if lost \<and> stage \<noteq> Some DISCONNECT then Some ''link_lost''
         else if stage = Some SESSION then Some ''session.refused''
         else if stage = Some AUTH then (if unanswered then Some ''auth.no_answer'' else None)
         else if stage = Some TRANSFER then (if unanswered then Some ''transfer.no_answer'' else None)
         else if stage = Some FINISH then (if unanswered then Some ''finish.no_answer'' else None)
         else if stage = Some DISCONNECT then Some ''disconnect.close_failed''
         else None)"

definition CAUSES :: "(string, string) dict" where
  "CAUSES =
    [(''attempt_timed_out'',
       ''The BLE stack stopped answering mid-session and the attempt was cut at its ''
       @ ''bound: usually a wedged adapter or a proxy that died. Restart the adapter / ''
       @ ''proxy if it repeats.''),
     (''unreachable'',
       ''No radio currently sees the {noun}: out of range, asleep, its battery flat, ''
       @ ''or the adapter / proxy is down.''),
     (''connect.no_slot'',
       ''The proxy has no free connection slot; add a proxy or reduce the BLE devices ''
       @ ''it serves.''),
     (''connect.settle'',
       ''The {noun} accepted the link and dropped it before encryption settled: on a ''
       @ ''multi-proxy setup usually a proxy that does not hold the bond, otherwise a ''
       @ ''stale bond ''
       @ em_dash
       @ '' pair again if it repeats.''),
     (''connect.failed'',
       ''The BLE link could not be established.{where}''),
     (''link_lost'',
       ''The link to the {noun} went away mid-session: out of range, powered down, or ''
       @ ''the adapter / proxy reset.{where}''),
     (''session.refused'',
       ''Connected, but the {noun} dropped or refused the session before the protocol ''
       @ ''started (service discovery / notifications); usually transient ''
       @ em_dash
       @ '' if it repeats, the protocol or model may not match.''),
     (''write_timeout'',
       ''A write to the {noun} did not complete in time: the adapter or proxy stopped ''
       @ ''taking data (wedged, busy, or gone).{where}''),
     (''session.gatt_mismatch'',
       ''Connected, but the {noun} does not expose the GATT service or characteristic ''
       @ ''the protocol needs (or its write size is too small): another model or ''
       @ ''firmware, or a link that has not negotiated its MTU.''),
     (''auth.no_answer'',
       ''The {noun} did not answer the handshake: not ready, or the link ''
       @ ''dropped.{where}''),
     (''transfer.no_answer'',
       ''The {noun} stopped answering mid-transfer: link dropped or reset.{where}''),
     (''finish.no_answer'',
       ''The {noun} took the data but did not report completion in time.{where}''),
     (''disconnect.timed_out'',
       ''The work was done, but the attempt bound fired while the link was being ''
       @ ''closed, so the result was discarded. The close is slow: a proxy or adapter ''
       @ ''that is hanging.''),
     (''disconnect.close_failed'',
       ''The work was done; only the session close failed. Harmless unless the next ''
       @ ''connection is refused.'')]"

text \<open>
  The sentence for a failure: \<^term>\<open>Inr None\<close> when there is nothing to say, \<^const>\<open>Inl\<close>
  where Python would raise a KeyError (a key without a sentence, or an unknown field in one).
\<close>

definition generic_cause ::
  "string option \<Rightarrow> string \<Rightarrow> (string, pyval) dict \<Rightarrow> exc option \<Rightarrow> string \<Rightarrow> exc + string option" where
  "generic_cause stage error facts exc noun =
     (case cause_key stage error exc of
        None \<Rightarrow> Inr None
      | Some key \<Rightarrow>
          (case dict_get CAUSES key of
             None \<Rightarrow> Inl (plain_exc KeyErrorC key)
           | Some sentence \<Rightarrow>
               (case str_format [(''noun'', noun), (''where'', placement facts noun)] sentence of
                  None \<Rightarrow> Inl (plain_exc KeyErrorC sentence)
                | Some text \<Rightarrow> Inr (Some text))))"

section \<open>The keys\<close>

definition cause_keys :: "string list" where
  "cause_keys = dict_keys CAUSES"

lemma cause_keys_eq:
  "cause_keys = [''attempt_timed_out'', ''unreachable'', ''connect.no_slot'', ''connect.settle'',
     ''connect.failed'', ''link_lost'', ''session.refused'', ''write_timeout'',
     ''session.gatt_mismatch'', ''auth.no_answer'', ''transfer.no_answer'', ''finish.no_answer'',
     ''disconnect.timed_out'', ''disconnect.close_failed'']"
  by (simp add: cause_keys_def CAUSES_def)

lemma cause_key_in_CAUSES: "cause_key stage error exc = Some key \<Longrightarrow> key \<in> set cause_keys"
  unfolding cause_key_def Let_def cause_keys_eq by (simp split: if_splits)

lemma cause_key_None_iff_lookup: "cause_key stage error exc = Some key \<Longrightarrow> dict_get CAUSES key \<noteq> None"
  using cause_key_in_CAUSES [of stage error exc key]
  by (simp add: cause_keys_def map_of_eq_None_iff)

text \<open>Every sentence formats, whatever the noun and the advice.\<close>

lemma sentences_ok: "list_all (\<lambda>(key, sentence). template_ok [''noun'', ''where''] None sentence) CAUSES"
  by code_simp

lemma sentences_format:
  assumes "(key, sentence) \<in> set CAUSES"
  shows "\<exists>text. str_format [(''noun'', noun), (''where'', advice)] sentence = Some text"
proof -
  from assms sentences_ok have "template_ok [''noun'', ''where''] None sentence"
    by (auto simp: list_all_iff)
  then show ?thesis unfolding str_format_def by (rule format_from_ok) auto
qed

lemma placement_weak:
  "placement facts noun \<noteq> [] \<longleftrightarrow>
     (\<exists>dbm. as_int (get_or facts ''rssi'' PyNone) = Some dbm \<and> dbm \<le> WEAK_RSSI_DBM)"
  by (auto simp: placement_def Let_def split: option.split)

section \<open>Properties\<close>

lemma cause_keys_reached:
  assumes "k \<in> set cause_keys"
  shows "\<exists>stage error exc. cause_key stage error exc = Some k"
proof -
  have low: "lower [] = []" "lower ''slot'' = ''slot''" "lower ''settle'' = ''settle''"
    "lower ''link dropped'' = ''link dropped''" "lower ''no response'' = ''no response''"
    by code_simp+
  have "cause_key None [] (Some (AttemptTimedOut 1 None None)) = Some ''attempt_timed_out''"
    "cause_key (Some UNREACHABLE) [] None = Some ''unreachable''"
    "cause_key (Some CONNECT) ''slot'' None = Some ''connect.no_slot''"
    "cause_key (Some CONNECT) ''settle'' None = Some ''connect.settle''"
    "cause_key (Some CONNECT) [] None = Some ''connect.failed''"
    "cause_key None ''link dropped'' None = Some ''link_lost''"
    "cause_key (Some SESSION) [] None = Some ''session.refused''"
    "cause_key None [] (Some (WriteTimeout 1 [])) = Some ''write_timeout''"
    "cause_key None [] (Some (GattMismatch [] None)) = Some ''session.gatt_mismatch''"
    "cause_key (Some AUTH) ''no response'' None = Some ''auth.no_answer''"
    "cause_key (Some TRANSFER) ''no response'' None = Some ''transfer.no_answer''"
    "cause_key (Some FINISH) ''no response'' None = Some ''finish.no_answer''"
    "cause_key (Some DISCONNECT) [] (Some (AttemptTimedOut 1 None None)) = Some ''disconnect.timed_out''"
    "cause_key (Some DISCONNECT) [] None = Some ''disconnect.close_failed''"
    by (simp_all add: cause_key_def Let_def issubclass_eval low)
  with assms show ?thesis unfolding cause_keys_eq by auto
qed

text \<open>
  C36: The stable cause keys are exactly the keys of the table of sentences: every key the
  classifier can give has a sentence, and every sentence is given for some failure.
\<close>

theorem cause_keys_exact:
  "{k. \<exists>stage error exc. cause_key stage error exc = Some k} = set (dict_keys CAUSES)"
  using cause_key_in_CAUSES cause_keys_reached unfolding cause_keys_def by blast

lemma generic_cause_returns: "\<exists>s. generic_cause stage error facts exc noun = Inr s"
proof (cases "cause_key stage error exc")
  case (Some key)
  then obtain sentence where s: "dict_get CAUSES key = Some sentence"
    using cause_key_None_iff_lookup by blast
  then have "(key, sentence) \<in> set CAUSES" by (rule map_of_SomeD)
  with Some s show ?thesis
    using sentences_format [of key sentence noun "placement facts noun"]
    by (auto simp: generic_cause_def)
qed (simp add: generic_cause_def)

lemma generic_cause_key:
  "generic_cause stage error facts exc noun = Inr s \<Longrightarrow> s = None \<longleftrightarrow> cause_key stage error exc = None"
  unfolding generic_cause_def
  by (cases "cause_key stage error exc") (auto split: option.splits, metis)

end
