(* ===== verification/Report.thy ===== *)
theory Report
  imports Attempt Causes
begin

text \<open>
  The report of one session (\<open>src/src/blesession/report.py\<close>): how a cause callback is called
  (its old positional shapes, the once-only warnings), the assembly of the attributes in their fixed
  order, the minimal fallback, and how a report counts.

  The module's two sets of callbacks already warned about, what it logs and the
  \<open>DeprecationWarning\<close>s it emits are the record \<open>report_log\<close>; \<open>warn_errors\<close> says
  whether the caller's warning filter turns a \<open>DeprecationWarning\<close> into an error.
\<close>

section \<open>The cause callback\<close>

record failure_info =
  f_stage :: "string option"
  f_detail :: "string option"
  f_error :: string
  f_exc :: exc
  f_facts :: "(string, pyval) dict"

datatype param_kind = PositionalOnly | PositionalOrKeyword | VarPositional | KeywordOnly | VarKeyword

record param =
  kind :: param_kind
  has_default :: bool

text \<open>
  A callable as \<open>_identity\<close> looks into it: a plain function (its module, its qualified name, its
  first line when it has code), a bound method of one, a \<open>functools.partial\<close> of one, an instance
  of a class with \<open>__call__\<close> (the class's module and qualified name).
\<close>

datatype pycallable =
    Function "string option" string "int option"
  | BoundMethod pycallable
  | Partial pycallable
  | Instance "string option" string

datatype cause_args =
    WithFailure failure_info
  | Positional4 "string option" "string option" string "(string, pyval) dict"
  | Positional5 "string option" "string option" string "(string, pyval) dict" exc

type_synonym identity = "string \<times> string \<times> int"

record callback =
  signature :: "param list option"
  callable :: pycallable
  invoke :: "cause_args \<Rightarrow> exc + string option"

datatype log_entry =
    LogDeprecated identity string
  | LogRaised bool identity  \<comment> \<open>a warning, or debug\<close>

record report_log =
  warned :: "identity set"
  raised :: "identity set"
  entries :: "log_entry list"
  deprecations :: "string list"
  warn_errors :: bool

definition empty_log :: report_log where
  "empty_log = \<lparr>warned = {}, raised = {}, entries = [], deprecations = [], warn_errors = False\<rparr>"

definition legacy_shape :: "callback \<Rightarrow> nat option" where
  "legacy_shape cb =
     (case signature cb of
        None \<Rightarrow> None
      | Some params \<Rightarrow>
          (if \<exists>p \<in> set params. kind p = VarPositional then None
           else
             (let positional = filter (\<lambda>p. kind p \<in> {PositionalOnly, PositionalOrKeyword}) params;
                  required = filter (\<lambda>p. \<not> has_default p) positional;
                  count = (if required \<noteq> [] then length required else length positional)
              in if count \<notin> {4, 5} then None
                 else Some (if 5 \<le> length positional then 5 else 4))))"

fun unwrap_method :: "pycallable \<Rightarrow> pycallable" where
  "unwrap_method (BoundMethod f) = f"
| "unwrap_method f = f"

fun unwrap_partials :: "pycallable \<Rightarrow> pycallable" where
  "unwrap_partials (Partial f) = unwrap_partials f"
| "unwrap_partials f = f"

text \<open>What is left is a function, or a method bound to a method, whose name and code Python reads
  through to the function.\<close>

fun function_identity :: "pycallable \<Rightarrow> identity" where
  "function_identity (Function m qualname line) =
     ((case m of Some s \<Rightarrow> s | None \<Rightarrow> []), qualname, (case line of Some n \<Rightarrow> n | None \<Rightarrow> 0))"
| "function_identity (BoundMethod f) = function_identity f"
| "function_identity (Instance m cls) = ((case m of Some s \<Rightarrow> s | None \<Rightarrow> []), cls, 0)"
| "function_identity (Partial f) = (''functools'', ''partial'', 0)"

definition identity_of :: "callback \<Rightarrow> identity" where
  "identity_of cb = function_identity (unwrap_method (unwrap_partials (unwrap_method (callable cb))))"

definition log_cause_error :: "callback \<Rightarrow> report_log \<Rightarrow> report_log" where
  "log_cause_error cb st =
     (let key = identity_of cb; first = (key \<notin> raised st)
      in st\<lparr>raised := insert key (raised st), entries := entries st @ [LogRaised first key]\<rparr>)"

definition deprecation_text :: "nat \<Rightarrow> string" where
  "deprecation_text shape =
     ''A `cause` callback taking ''
     @ (if shape = 4 then ''(stage, detail, error, facts)'' else ''(stage, detail, error, facts, exc)'')
     @ '' is deprecated and removed in blesession 1.0; take one blesession.Failure instead''"

definition call_cause :: "callback \<Rightarrow> failure_info \<Rightarrow> report_log \<Rightarrow> (exc + string option) \<times> report_log" where
  "call_cause cb f st =
     (case legacy_shape cb of
        None \<Rightarrow> (invoke cb (WithFailure f), st)
      | Some shape \<Rightarrow>
          (if warn_errors st then (Inl (plain_exc DeprecationWarningC (deprecation_text shape)), st)
           else
             (let st1 = st\<lparr>deprecations := deprecations st @ [deprecation_text shape]\<rparr>;
                  key = identity_of cb;
                  st2 = (if key \<in> warned st1 then st1
                         else st1\<lparr>warned := insert key (warned st1),
                                  entries := entries st1 @ [LogDeprecated key (deprecation_text shape)]\<rparr>)
              in (invoke cb
                    (if shape = 4 then Positional4 (f_stage f) (f_detail f) (f_error f) (f_facts f)
                     else Positional5 (f_stage f) (f_detail f) (f_error f) (f_facts f) (f_exc f)), st2))))"

section \<open>Assembling a report\<close>

type_synonym report = "(string, pyval) dict"

definition REPORT_KEYS :: "string list" where
  "REPORT_KEYS =
     [''operation'', ''success'', ''skipped'', ''error'', ''failed_stage'', ''failed_detail'',
      ''likely_cause'', ''likely_cause_key'', ''timed_out'', ''attempt'', ''attempts'', ''retrying'']"

definition FACT_KEYS :: "string list" where
  "FACT_KEYS = [''via'', ''via_type'', ''rssi'', ''paths'', ''advertised_via'', ''via_unconfirmed'']"

text \<open>The keyword arguments of \<open>build_report\<close>.\<close>

record report_args =
  r_operation :: string
  r_trace :: session_trace
  r_exc :: "exc option"
  r_skipped :: pyval
  r_facts :: "(string, pyval) dict"
  r_cause :: "callback option"
  r_noun :: string
  r_attempt :: "int option"
  r_attempts :: "int option"
  r_retrying :: bool
  r_failed_stage :: "string option"
  r_failed_detail :: "string option"

definition default_args :: "string \<Rightarrow> session_trace \<Rightarrow> report_args" where
  "default_args operation trace =
     \<lparr>r_operation = operation, r_trace = trace, r_exc = None, r_skipped = PyNone, r_facts = [],
      r_cause = None, r_noun = ''device'', r_attempt = None, r_attempts = None, r_retrying = False,
      r_failed_stage = None, r_failed_detail = None\<rparr>"

text \<open>The stage and detail of the failure, with the caller's overrides.\<close>

definition report_stage :: "report_args \<Rightarrow> exc \<Rightarrow> string option" where
  "report_stage a e =
     (case r_failed_stage a of Some s \<Rightarrow> Some s | None \<Rightarrow> fst (failure (r_trace a) (Some e)))"

definition report_detail :: "report_args \<Rightarrow> exc \<Rightarrow> string option" where
  "report_detail a e =
     (case r_failed_detail a of Some s \<Rightarrow> Some s | None \<Rightarrow> snd (failure (r_trace a) (Some e)))"

text \<open>The sentence of the integration's callback; an exception of its own is logged and gives none,
  a \<open>Warning\<close> (and what is no \<open>Exception\<close>) is not swallowed.\<close>

definition device_cause ::
  "report_args \<Rightarrow> exc \<Rightarrow> string \<Rightarrow> report_log \<Rightarrow> (exc + string option) \<times> report_log" where
  "device_cause a e error st =
     (case r_cause a of
        None \<Rightarrow> (Inr None, st)
      | Some cb \<Rightarrow>
          (case call_cause cb
              \<lparr>f_stage = report_stage a e, f_detail = report_detail a e, f_error = error, f_exc = e,
               f_facts = r_facts a\<rparr> st of
             (Inr s, st') \<Rightarrow> (Inr s, st')
           | (Inl x, st') \<Rightarrow>
               (if isinstance x WarningC then (Inl x, st')
                else if isinstance x ExceptionC then (Inr None, log_cause_error cb st')
                else (Inl x, st'))))"

text \<open>The sentence and its key: the library's own for a fired attempt bound, else the device's,
  else the generic one.\<close>

definition likely_cause ::
  "report_args \<Rightarrow> exc \<Rightarrow> string \<Rightarrow> report_log \<Rightarrow> (exc + string option \<times> string option) \<times> report_log" where
  "likely_cause a e error st =
     (let stage = report_stage a e;
          generic_key = cause_key stage error (Some e);
          generic = generic_cause stage error (r_facts a) (Some e) (r_noun a);
          own = (if isinstance e AttemptTimedOutC
                 then res_bind generic (\<lambda>s. Inr (s, generic_key)) else Inr (None, None))
      in case own of
           Inl x \<Rightarrow> (Inl x, st)
         | Inr (Some s, k) \<Rightarrow> (Inr (Some s, k), st)
         | Inr (None, k) \<Rightarrow>
             (case device_cause a e error st of
                (Inl x, st') \<Rightarrow> (Inl x, st')
              | (Inr (Some s), st') \<Rightarrow> (Inr (Some s, k), st')
              | (Inr None, st') \<Rightarrow> (res_bind generic (\<lambda>s. Inr (s, generic_key)), st')))"

text \<open>The block under \<open>if exc is not None\<close>.\<close>

definition add_failure ::
  "report_args \<Rightarrow> exc \<Rightarrow> report \<Rightarrow> report_log \<Rightarrow> (exc + report) \<times> report_log" where
  "add_failure a e rep st =
     (case error_text e of
        Inl x \<Rightarrow> (Inl x, st)
      | Inr error \<Rightarrow>
          (case likely_cause a e error st of
             (Inl x, st') \<Rightarrow> (Inl x, st')
           | (Inr (likely, key), st') \<Rightarrow>
               (let r1 = dict_set ''error'' (PyStr error) rep;
                    r2 = dict_opt ''failed_stage'' (map_option PyStr (report_stage a e)) r1;
                    r3 = dict_opt ''failed_detail'' (map_option PyStr (report_detail a e)) r2;
                    r4 = dict_opt ''likely_cause'' (map_option PyStr likely) r3;
                    r5 = dict_opt ''likely_cause_key'' (map_option PyStr key) r4;
                    r6 = (if isinstance e AttemptTimedOutC then dict_set ''timed_out'' (PyBool True) r5 else r5)
                in (Inr r6, st'))))"

text \<open>The radio facts in their order, then any other fact the caller gave.\<close>

definition facts_in_order :: "(string, pyval) dict \<Rightarrow> (string, pyval) dict" where
  "facts_in_order facts =
     concat (map (\<lambda>k. case dict_get facts k of None \<Rightarrow> [] | Some v \<Rightarrow> [(k, v)]) FACT_KEYS)
     @ filter (\<lambda>(k, v). k \<notin> set FACT_KEYS) facts"

definition outcome_entries :: "string \<Rightarrow> exc option \<Rightarrow> pyval \<Rightarrow> report" where
  "outcome_entries operation exc skip =
     (let r = [(''operation'', PyStr operation), (''success'', PyBool (exc = None \<and> skip = PyNone))]
      in if skip \<noteq> PyNone then dict_set ''skipped'' skip r else r)"

definition add_counts :: "report_args \<Rightarrow> report \<Rightarrow> report" where
  "add_counts a rep =
     (let r1 = dict_opt ''attempt'' (map_option PyInt (r_attempt a)) rep;
          r2 = dict_opt ''attempts'' (map_option PyInt (r_attempts a)) r1
      in if r_retrying a then dict_set ''retrying'' (PyBool True) r2 else r2)"

definition add_measured :: "report_args \<Rightarrow> report \<Rightarrow> report" where
  "add_measured a rep =
     dict_update
       (dict_update (dict_update rep (facts_in_order (r_facts a))) (stage_seconds (r_trace a)))
       (trace_facts (r_trace a))"

definition build_report :: "report_args \<Rightarrow> report_log \<Rightarrow> (exc + report) \<times> report_log" where
  "build_report a st =
     (let rep = outcome_entries (r_operation a) (r_exc a) (r_skipped a);
          (failed, st') = (case r_exc a of None \<Rightarrow> (Inr rep, st) | Some e \<Rightarrow> add_failure a e rep st)
      in (res_bind failed (\<lambda>r. Inr (add_measured a (add_counts a r))), st'))"

definition attempt_args ::
  "'r attempt \<Rightarrow> string \<Rightarrow> (string, pyval) dict \<Rightarrow> callback option \<Rightarrow> string \<Rightarrow> int option \<Rightarrow> report_args" where
  "attempt_args att operation facts cause noun attempts =
     \<lparr>r_operation = operation, r_trace = att_trace att, r_exc = att_error att, r_skipped = skipped att,
      r_facts = facts, r_cause = cause, r_noun = noun, r_attempt = Some (number att),
      r_attempts = attempts, r_retrying = retrying att, r_failed_stage = None, r_failed_detail = None\<rparr>"

definition report_attempt ::
  "'r attempt \<Rightarrow> string \<Rightarrow> (string, pyval) dict \<Rightarrow> callback option \<Rightarrow> string \<Rightarrow> int option
    \<Rightarrow> report_log \<Rightarrow> (exc + report) \<times> report_log" where
  "report_attempt att operation facts cause noun attempts st =
     build_report (attempt_args att operation facts cause noun attempts) st"

section \<open>Reading a report back, and the report of last resort\<close>

datatype report_kind = Ok | Failed | Retried | Declined

definition classify :: "report \<Rightarrow> report_kind" where
  "classify rep =
     (if dict_has rep ''skipped'' then Declined
      else if get_or rep ''error'' PyNone = PyNone then Ok
      else if truthy (get_or rep ''retrying'' PyNone) then Retried
      else Failed)"

definition fallback_error :: "exc \<Rightarrow> exc + string" where
  "fallback_error e =
     (case error_text e of
        Inr s \<Rightarrow> Inr s
      | Inl x \<Rightarrow> if isinstance x ExceptionC then Inr (class_name (exc_class e)) else Inl x)"

definition fallback_report ::
  "string \<Rightarrow> session_trace option \<Rightarrow> exc option \<Rightarrow> 'r attempt option \<Rightarrow> exc + report" where
  "fallback_report operation trace exc att =
     (let (trace, exc, skip) = (case att of
            None \<Rightarrow> (trace, exc, PyNone)
          | Some t \<Rightarrow> (Some (att_trace t), att_error t, skipped t));
          rep = outcome_entries operation exc skip
      in res_bind
           (case exc of
              None \<Rightarrow> Inr rep
            | Some e \<Rightarrow>
                res_bind (fallback_error e) (\<lambda>error.
                  let (st, det) = (case trace of None \<Rightarrow> (None, None) | Some t \<Rightarrow> failure t (Some e))
                  in Inr (dict_opt ''failed_detail'' (map_option PyStr det)
                       (dict_opt ''failed_stage'' (map_option PyStr st)
                         (dict_set ''error'' (PyStr error) rep)))))
           (\<lambda>rep. Inr (case att of
              None \<Rightarrow> rep
            | Some t \<Rightarrow>
                (let rep = dict_set ''attempt'' (PyInt (number t)) rep
                 in if retrying t then dict_set ''retrying'' (PyBool True) rep else rep))))"

end
