(* ===== verification/SessionReports.thy ===== *)
theory SessionReports
  imports Report
begin

text \<open>
  The report slots an integration publishes and the rule between them (\<open>class SessionReports\<close> of
  \<open>src/src/blesession/report.py\<close>).  A listener is a number; what calling it does is the
  parameter \<open>behave\<close>, any function of the slots (it may record again or remove itself) that may
  raise.  The abstract specification is the history of filed reports: every slot is a function of it.
\<close>

record session_reports =
  last_report :: "report option"
  last_failure :: "report option"
  last_retry :: "report option"
  failures :: nat
  last_failure_at :: "seconds option"
  by_operation_last :: "(pyval, report) dict"
  last_kind :: "report_kind option"
  listeners :: "nat list"

type_synonym listener_behaviour = "nat \<Rightarrow> session_reports \<Rightarrow> exc option \<times> session_reports"

definition new_reports :: session_reports where
  "new_reports =
     \<lparr>last_report = None, last_failure = None, last_retry = None, failures = 0,
      last_failure_at = None, by_operation_last = [], last_kind = None, listeners = []\<rparr>"

definition report_of :: "session_reports \<Rightarrow> string \<Rightarrow> report option" where
  "report_of s operation = dict_get (by_operation_last s) (PyStr operation)"

text \<open>\<open>record\<close> up to the listeners: \<open>stamp\<close> is \<open>now or datetime.now(UTC)\<close>.\<close>

definition file_report :: "report \<Rightarrow> seconds \<Rightarrow> session_reports \<Rightarrow> session_reports" where
  "file_report rep stamp s =
     (let k = classify rep;
          s1 = s\<lparr>last_kind := Some k, last_report := Some rep\<rparr>;
          operation = get_or rep ''operation'' PyNone;
          s2 = (if operation \<noteq> PyNone
                then s1\<lparr>by_operation_last := dict_set operation rep (by_operation_last s1)\<rparr> else s1)
      in if k = Failed then
           s2\<lparr>last_failure := Some rep, failures := failures s2 + 1, last_failure_at := Some stamp\<rparr>
         else if k = Retried then s2\<lparr>last_retry := Some rep\<rparr>
         else s2)"

text \<open>\<open>_notify\<close>: every listener of the list as it was, an \<open>Exception\<close> of one logged only.\<close>

fun notify_each :: "listener_behaviour \<Rightarrow> nat list \<Rightarrow> session_reports \<Rightarrow> exc option \<times> session_reports" where
  "notify_each behave [] s = (None, s)"
| "notify_each behave (l # ls) s =
    (case behave l s of
       (None, s') \<Rightarrow> notify_each behave ls s'
     | (Some e, s') \<Rightarrow> if isinstance e ExceptionC then notify_each behave ls s' else (Some e, s'))"

definition notify :: "listener_behaviour \<Rightarrow> session_reports \<Rightarrow> exc option \<times> session_reports" where
  "notify behave s = notify_each behave (listeners s) s"

definition record_report ::
  "listener_behaviour \<Rightarrow> report \<Rightarrow> seconds option \<Rightarrow> seconds \<Rightarrow> session_reports \<Rightarrow> (exc + report) \<times> session_reports" where
  "record_report behave rep now clock s =
     (case notify behave (file_report rep (case now of Some t \<Rightarrow> t | None \<Rightarrow> clock) s) of
        (None, s') \<Rightarrow> (Inr rep, s')
      | (Some e, s') \<Rightarrow> (Inl e, s'))"

definition add_listener :: "nat \<Rightarrow> session_reports \<Rightarrow> session_reports" where
  "add_listener l s = s\<lparr>listeners := listeners s @ [l]\<rparr>"

text \<open>What \<open>add_listener\<close> returns: \<open>list.remove\<close>, its \<open>ValueError\<close> ignored.\<close>

definition remove_listener :: "nat \<Rightarrow> session_reports \<Rightarrow> session_reports" where
  "remove_listener l s = s\<lparr>listeners := remove1 l (listeners s)\<rparr>"

definition clear_reports :: "session_reports \<Rightarrow> session_reports" where
  "clear_reports s =
     s\<lparr>last_report := None, last_failure := None, last_retry := None, failures := 0,
       last_failure_at := None, by_operation_last := [], last_kind := None\<rparr>"

section \<open>The history the slots summarise\<close>

type_synonym history = "(report \<times> seconds) list"

definition last_of :: "'a list \<Rightarrow> 'a option" where
  "last_of xs = (if xs = [] then None else Some (last xs))"

definition of_kind :: "report_kind \<Rightarrow> history \<Rightarrow> history" where
  "of_kind k h = filter (\<lambda>(r, t). classify r = k) h"

definition of_operation :: "pyval \<Rightarrow> history \<Rightarrow> history" where
  "of_operation v h = filter (\<lambda>(r, t). get_or r ''operation'' PyNone = v) h"

definition summarises :: "session_reports \<Rightarrow> history \<Rightarrow> bool" where
  "summarises s h \<longleftrightarrow>
     last_report s = map_option fst (last_of h) \<and>
     last_kind s = map_option (classify \<circ> fst) (last_of h) \<and>
     last_failure s = map_option fst (last_of (of_kind Failed h)) \<and>
     last_failure_at s = map_option snd (last_of (of_kind Failed h)) \<and>
     failures s = length (of_kind Failed h) \<and>
     last_retry s = map_option fst (last_of (of_kind Retried h)) \<and>
     (\<forall>v. v \<noteq> PyNone \<longrightarrow> dict_get (by_operation_last s) v = map_option fst (last_of (of_operation v h)))"

lemma last_of_simps [simp]: "last_of [] = None" "last_of (xs @ [x]) = Some x"
  by (simp_all add: last_of_def)

lemma of_kind_append [simp]:
  "of_kind k [] = []" "of_kind k (h @ [(r, t)]) = (if classify r = k then of_kind k h @ [(r, t)] else of_kind k h)"
  by (simp_all add: of_kind_def)

lemma of_operation_append [simp]:
  "of_operation v [] = []"
  "of_operation v (h @ [(r, t)]) =
     (if get_or r ''operation'' PyNone = v then of_operation v h @ [(r, t)] else of_operation v h)"
  by (simp_all add: of_operation_def)

lemma summarises_new: "summarises new_reports []"
  by (simp add: summarises_def new_reports_def)

lemma summarises_clear: "summarises (clear_reports s) []"
  by (simp add: summarises_def clear_reports_def)

lemma summarises_file:
  assumes "summarises s h"
  shows "summarises (file_report rep stamp s) (h @ [(rep, stamp)])"
  using assms by (simp add: summarises_def file_report_def Let_def dict_simps)

lemma file_report_listeners [simp]: "listeners (file_report rep stamp s) = listeners s"
  by (simp add: file_report_def Let_def)

section \<open>The contract of the slots\<close>

text \<open>
  What a publisher of reports relies on: filing a report extends the history the state summarises,
  clearing empties it.  Its lemmas hold for any state that keeps the contract.
\<close>

locale report_slots =
  fixes filing :: "'r \<Rightarrow> 't \<Rightarrow> 's \<Rightarrow> 's"
    and wipe :: "'s \<Rightarrow> 's"
    and abstracts :: "'s \<Rightarrow> ('r \<times> 't) list \<Rightarrow> bool"
  assumes file_abstracts: "abstracts s h \<Longrightarrow> abstracts (filing r t s) (h @ [(r, t)])"
    and wipe_abstracts: "abstracts (wipe s) []"
begin

lemma file_all_abstracts:
  "abstracts s h \<Longrightarrow> abstracts (fold (\<lambda>(r, t). filing r t) rs s) (h @ rs)"
proof (induction rs arbitrary: s h)
  case (Cons p rs)
  then show ?case using file_abstracts [of s h "fst p" "snd p"] by (cases p) fastforce
qed simp

lemma wipe_then_file_all: "abstracts (fold (\<lambda>(r, t). filing r t) rs (wipe s)) rs"
  using file_all_abstracts [OF wipe_abstracts] by fastforce

end

interpretation slots: report_slots file_report clear_reports summarises
  by unfold_locales (auto intro: summarises_file summarises_clear)

section \<open>Properties\<close>

text \<open>
  C24: After any sequence of recorded reports the slots say exactly what the history says: the last
  report, the last failure and when, the number of failures, the last retried attempt and the latest
  report of each operation; a success, a retry or a declined attempt erases no failure.
\<close>

theorem slots_summarise_history:
  "summarises (fold (\<lambda>(r, t). file_report r t) rs (clear_reports s)) rs"
  by (rule slots.wipe_then_file_all)

text \<open>A listener whose exceptions, if any, are ordinary ones.\<close>

definition ordinary :: "listener_behaviour \<Rightarrow> bool" where
  "ordinary behave \<longleftrightarrow> (\<forall>l s. case fst (behave l s) of None \<Rightarrow> True | Some e \<Rightarrow> isinstance e ExceptionC)"

lemma notify_each_ordinary:
  "ordinary behave \<Longrightarrow> notify_each behave ls s = (None, fold (\<lambda>l s. snd (behave l s)) ls s)"
proof (induction behave ls s rule: notify_each.induct)
  case (2 behave l ls s)
  then have "case fst (behave l s) of None \<Rightarrow> True | Some e \<Rightarrow> isinstance e ExceptionC"
    unfolding ordinary_def by blast
  with 2 show ?case by (cases "behave l s"; cases "fst (behave l s)") auto
qed simp

text \<open>A listener that raises stops neither the other listeners nor the record that called it: every
  listener registered when the report was filed runs, in order, and the report is handed back.\<close>

lemma every_listener_runs:
  assumes "ordinary behave"
  shows "record_report behave rep now clock s =
    (Inr rep, fold (\<lambda>l s. snd (behave l s)) (listeners s)
       (file_report rep (case now of Some t \<Rightarrow> t | None \<Rightarrow> clock) s))"
  using assms by (simp add: record_report_def notify_def notify_each_ordinary)

lemma remove_added: "l \<notin> set (listeners s) \<Longrightarrow> remove_listener l (add_listener l s) = s"
  by (simp add: remove_listener_def add_listener_def remove1_append)

end
