(* ===== verification/ReportLaws.thy ===== *)
theory ReportLaws
  imports Report "HOL-Library.Sublist"
begin

text \<open>
  What a report promises: the order of its keys, how it is classified, that diagnostics cannot fail
  it, which sentence wins, that a callback's fault is warned about once, and that the fallback says
  the same.  The helper lemmas first bring a report to its explicit form: the library's own entries,
  each present or absent, then what was measured.
\<close>

section \<open>The explicit form of the own entries\<close>

definition opt_entry :: "'k \<Rightarrow> 'v option \<Rightarrow> ('k \<times> 'v) list" where
  "opt_entry k v = (case v of None \<Rightarrow> [] | Some x \<Rightarrow> [(k, x)])"

lemma opt_entry_simps [simp]: "opt_entry k None = []" "opt_entry k (Some v) = [(k, v)]"
  by (simp_all add: opt_entry_def)

lemma opt_entry_keys [simp]: "fst ` set (opt_entry k v) = (if v = None then {} else {k})"
  by (cases v) auto

lemma opt_entry_get [simp]: "map_of (opt_entry k v) k' = (if k' = k then v else None)"
  by (cases v) auto

lemma dict_opt_fresh: "k \<notin> set (dict_keys d) \<Longrightarrow> dict_opt k v d = d @ opt_entry k v"
  by (cases v) (simp_all add: dict_opt_def dict_set_fresh)

lemma subseq_opt: "subseq xs ys \<Longrightarrow> subseq (dict_keys (opt_entry k v) @ xs) (k # ys)"
  by (cases v) (auto intro: list_emb_Cons)

definition only_if :: "bool \<Rightarrow> 'a \<Rightarrow> 'a option" where
  "only_if b x = (if b then Some x else None)"

lemma only_if_simps [simp]: "only_if True x = Some x" "only_if False x = None" "only_if b x = None \<longleftrightarrow> \<not> b"
  by (simp_all add: only_if_def)

lemma outcome_entries_eq:
  "outcome_entries operation exc skip =
     [(''operation'', PyStr operation), (''success'', PyBool (exc = None \<and> skip = PyNone))]
     @ opt_entry ''skipped'' (only_if (skip \<noteq> PyNone) skip)"
  by (simp add: outcome_entries_def only_if_def Let_def)

definition failure_entries ::
  "report_args \<Rightarrow> exc \<Rightarrow> string \<Rightarrow> string option \<Rightarrow> string option \<Rightarrow> report" where
  "failure_entries a e error likely key =
     opt_entry ''error'' (Some (PyStr error))
     @ opt_entry ''failed_stage'' (map_option PyStr (report_stage a e))
     @ opt_entry ''failed_detail'' (map_option PyStr (report_detail a e))
     @ opt_entry ''likely_cause'' (map_option PyStr likely)
     @ opt_entry ''likely_cause_key'' (map_option PyStr key)
     @ opt_entry ''timed_out'' (only_if (isinstance e AttemptTimedOutC) (PyBool True))"

definition count_entries :: "report_args \<Rightarrow> report" where
  "count_entries a =
     opt_entry ''attempt'' (map_option PyInt (r_attempt a))
     @ opt_entry ''attempts'' (map_option PyInt (r_attempts a))
     @ opt_entry ''retrying'' (only_if (r_retrying a) (PyBool True))"

lemma set_opt_entry_fst: "x \<in> set (opt_entry k v) \<Longrightarrow> fst x = k"
  by (cases v) auto

lemma add_failure_form:
  assumes "add_failure a e (outcome_entries operation exc skip) st = (Inr r, st')"
  obtains error likely key where "error_text e = Inr error"
    and "likely_cause a e error st = (Inr (likely, key), st')"
    and "r = outcome_entries operation exc skip @ failure_entries a e error likely key"
proof -
  from assms obtain error where err: "error_text e = Inr error"
    by (auto simp: add_failure_def split: sum.splits)
  with assms obtain likely key where
    likely: "likely_cause a e error st = (Inr (likely, key), st')"
    by (auto simp: add_failure_def Let_def split: sum.splits prod.splits)
  have "add_failure a e (outcome_entries operation exc skip) st
      = (Inr (outcome_entries operation exc skip @ failure_entries a e error likely key), st')"
    using err likely
    by (simp add: add_failure_def Let_def outcome_entries_eq failure_entries_def dict_opt_fresh
        dict_set_fresh only_if_def image_Un)
  with assms have "r = outcome_entries operation exc skip @ failure_entries a e error likely key"
    by simp
  with err likely that show ?thesis by blast
qed

lemma add_counts_form:
  assumes "set (dict_keys r) \<inter> {''attempt'', ''attempts'', ''retrying''} = {}"
  shows "add_counts a r = r @ count_entries a"
  using assms
  by (simp add: add_counts_def Let_def count_entries_def dict_opt_fresh dict_set_fresh only_if_def image_Un)

lemma failure_entries_keys:
  "set (dict_keys (failure_entries a e error likely key)) \<subseteq>
     {''error'', ''failed_stage'', ''failed_detail'', ''likely_cause'', ''likely_cause_key'', ''timed_out''}"
  by (auto simp: failure_entries_def dest!: set_opt_entry_fst)

lemma outcome_entries_keys:
  "set (dict_keys (outcome_entries operation exc skip)) \<subseteq> {''operation'', ''success'', ''skipped''}"
  by (auto simp: outcome_entries_eq dest!: set_opt_entry_fst)

text \<open>A report that was built is its own entries, in order, updated with what was measured.\<close>

definition failure_part :: "report_args \<Rightarrow> report_log \<Rightarrow> report \<Rightarrow> report_log \<Rightarrow> bool" where
  "failure_part a st mid st' \<longleftrightarrow>
     (case r_exc a of
        None \<Rightarrow> mid = [] \<and> st' = st
      | Some e \<Rightarrow> \<exists>error likely key. error_text e = Inr error
          \<and> likely_cause a e error st = (Inr (likely, key), st')
          \<and> mid = failure_entries a e error likely key)"

lemma build_report_form:
  assumes "build_report a st = (Inr rep, st')"
  obtains mid where "failure_part a st mid st'"
    and "rep = add_measured a
      (outcome_entries (r_operation a) (r_exc a) (r_skipped a) @ mid @ count_entries a)"
proof -
  let ?out = "outcome_entries (r_operation a) (r_exc a) (r_skipped a)"
  have out: "set (dict_keys ?out) \<inter> {''attempt'', ''attempts'', ''retrying''} = {}"
    using outcome_entries_keys [of "r_operation a" "r_exc a" "r_skipped a"] by auto
  show ?thesis
  proof (cases "r_exc a")
    case None
    with assms out have "rep = add_measured a (?out @ [] @ count_entries a)"
      by (simp add: build_report_def add_counts_form)
    moreover from assms None have "failure_part a st [] st'"
      by (simp add: build_report_def failure_part_def)
    ultimately show ?thesis using that by blast
  next
    case (Some e)
    with assms obtain r where r: "add_failure a e ?out st = (Inr r, st')"
      and rep: "rep = add_measured a (add_counts a r)"
      by (auto simp: build_report_def Let_def result_simps split: prod.splits)
    from r obtain error likely key where parts: "error_text e = Inr error"
      "likely_cause a e error st = (Inr (likely, key), st')"
      and eq: "r = ?out @ failure_entries a e error likely key"
      by (rule add_failure_form)
    have "set (dict_keys r) \<inter> {''attempt'', ''attempts'', ''retrying''} = {}"
      using out failure_entries_keys [of a e error likely key] unfolding eq by auto
    then have "rep = add_measured a (?out @ failure_entries a e error likely key @ count_entries a)"
      unfolding rep eq by (subst add_counts_form) simp_all
    with parts Some that show ?thesis by (auto simp: failure_part_def)
  qed
qed

lemma own_subseq:
  assumes "failure_part a st mid st'"
  shows "subseq (dict_keys (outcome_entries operation exc skip @ mid @ count_entries a)) REPORT_KEYS"
proof -
  have counts: "subseq (dict_keys (count_entries a)) [''attempt'', ''attempts'', ''retrying'']"
    unfolding count_entries_def map_append by (intro subseq_opt subseq_opt [where xs = "[]", simplified])
  have "subseq (dict_keys mid @ dict_keys (count_entries a))
      [''error'', ''failed_stage'', ''failed_detail'', ''likely_cause'', ''likely_cause_key'',
       ''timed_out'', ''attempt'', ''attempts'', ''retrying'']"
  proof (cases "mid = []")
    case True
    have "subseq [''attempt'', ''attempts'', ''retrying'']
      [''error'', ''failed_stage'', ''failed_detail'', ''likely_cause'', ''likely_cause_key'',
       ''timed_out'', ''attempt'', ''attempts'', ''retrying'']" by code_simp
    with counts True show ?thesis by (auto intro: subseq_order.trans)
  next
    case False
    with assms obtain e error likely key where "mid = failure_entries a e error likely key"
      by (auto simp: failure_part_def split: option.splits)
    then show ?thesis unfolding failure_entries_def map_append append_assoc
      by (auto intro!: subseq_opt counts)
  qed
  then show ?thesis
    unfolding outcome_entries_eq REPORT_KEYS_def map_append append_assoc
    by (auto intro!: subseq_opt)
qed

section \<open>What the measured part may not overwrite\<close>

lemma dict_update_keys_subseq:
  "\<exists>ks. dict_keys (dict_update d e) = dict_keys d @ ks \<and> subseq ks (dict_keys e)"
proof (induction d e rule: dict_update.induct)
  case (2 d k v e)
  then obtain ks where ks: "dict_keys (dict_update (dict_set k v d) e) = dict_keys (dict_set k v d) @ ks"
    "subseq ks (dict_keys e)" by blast
  then show ?case by (cases "k \<in> set (dict_keys d)") (auto simp: dict_simps)
qed simp

lemma dict_update_get_other: "k \<notin> set (dict_keys e) \<Longrightarrow> dict_get (dict_update d e) k = dict_get d k"
  by (induction d e rule: dict_update.induct) (auto simp: dict_simps)

lemma dict_update_get_some:
  "dict_get e k = Some v \<Longrightarrow> distinct (dict_keys e) \<Longrightarrow> dict_get (dict_update d e) k = Some v"
  by (simp add: dict_simps)

lemma stage_key_not_own: "name @ ''_s'' \<notin> set REPORT_KEYS"
proof -
  have "rev (name @ ''_s'') \<notin> rev ` set REPORT_KEYS" by (simp add: REPORT_KEYS_def)
  then show ?thesis by blast
qed

lemma stage_seconds_keys: "dict_keys (stage_seconds t) = map (\<lambda>n. n @ ''_s'') (dict_keys (raw_timings t))"
  by (simp add: stage_seconds_def timings_def split_def comp_def)

lemma stage_seconds_not_own: "set (dict_keys (stage_seconds t)) \<inter> set REPORT_KEYS = {}"
  unfolding stage_seconds_keys using stage_key_not_own by auto

lemma facts_in_order_eq:
  "facts_in_order facts = concat (map (\<lambda>k. opt_entry k (dict_get facts k)) FACT_KEYS)
     @ filter (\<lambda>(k, v). k \<notin> set FACT_KEYS) facts"
  by (simp add: facts_in_order_def opt_entry_def)

lemma facts_in_order_keys: "set (dict_keys (facts_in_order facts)) = set (dict_keys facts)"
proof -
  have "set (dict_keys (concat (map (\<lambda>k. opt_entry k (dict_get facts k)) FACT_KEYS)))
      = {k \<in> set FACT_KEYS. dict_get facts k \<noteq> None}"
    by (auto simp: image_UN split: if_splits)
  also have "\<dots> = {k \<in> set FACT_KEYS. k \<in> set (dict_keys facts)}"
    by (auto simp: map_of_eq_None_iff)
  finally show ?thesis by (auto simp: facts_in_order_eq image_iff)
qed

lemma subseq_distinct: "subseq xs ys \<Longrightarrow> distinct ys \<Longrightarrow> distinct xs"
  by (metis subseq_conv_nths distinct_nthsI)

text \<open>The caller's facts and the noted facts use no name of the report's own.\<close>

definition unreserved :: "report_args \<Rightarrow> bool" where
  "unreserved a \<longleftrightarrow>
     set (dict_keys (r_facts a)) \<inter> set REPORT_KEYS = {} \<and>
     set (dict_keys (trace_facts (r_trace a))) \<inter> set REPORT_KEYS = {}"

lemma add_measured_own:
  assumes "unreserved a" and "k \<in> set REPORT_KEYS"
  shows "dict_get (add_measured a r) k = dict_get r k"
proof -
  have "k \<notin> set (dict_keys (facts_in_order (r_facts a)))" "k \<notin> set (dict_keys (trace_facts (r_trace a)))"
    using assms unfolding unreserved_def facts_in_order_keys by auto
  moreover have "k \<notin> set (dict_keys (stage_seconds (r_trace a)))"
    using assms(2) stage_seconds_not_own [of "r_trace a"] by auto
  ultimately show ?thesis by (simp add: add_measured_def dict_update_get_other)
qed

lemma own_get:
  assumes "build_report a st = (Inr rep, st')" and "unreserved a" and "k \<in> set REPORT_KEYS"
  obtains mid where "failure_part a st mid st'"
    and "dict_get rep k =
      dict_get (outcome_entries (r_operation a) (r_exc a) (r_skipped a) @ mid @ count_entries a) k"
  using assms by (metis build_report_form add_measured_own)

text \<open>The own entries of a report, all at once: what a reader of the dictionary gets.\<close>

lemma own_entries:
  assumes "build_report a st = (Inr rep, st')" and "unreserved a" and "r_exc a = Some e" and "error_text e = Inr said"
    and "likely_cause a e said st = (Inr (likely, key), st2)" and "k \<in> set REPORT_KEYS"
  shows "dict_get rep k = dict_get (outcome_entries (r_operation a) (Some e) (r_skipped a)
    @ failure_entries a e said likely key @ count_entries a) k"
  using own_get [OF assms(1,2,6)] assms(3-5) by (auto simp: failure_part_def)

lemma failure_entries_get:
  "dict_get (failure_entries a e error likely key) k =
     (if k = ''error'' then Some (PyStr error)
      else if k = ''failed_stage'' then map_option PyStr (report_stage a e)
      else if k = ''failed_detail'' then map_option PyStr (report_detail a e)
      else if k = ''likely_cause'' then map_option PyStr likely
      else if k = ''likely_cause_key'' then map_option PyStr key
      else if k = ''timed_out'' then only_if (isinstance e AttemptTimedOutC) (PyBool True)
      else None)"
  by (simp add: failure_entries_def map_add_def split: option.splits)

lemma count_entries_get:
  "dict_get (count_entries a) k =
     (if k = ''attempt'' then map_option PyInt (r_attempt a)
      else if k = ''attempts'' then map_option PyInt (r_attempts a)
      else if k = ''retrying'' then only_if (r_retrying a) (PyBool True)
      else None)"
  by (simp add: count_entries_def map_add_def split: option.splits)

lemma outcome_entries_get:
  "dict_get (outcome_entries operation exc skip) k =
     (if k = ''operation'' then Some (PyStr operation)
      else if k = ''success'' then Some (PyBool (exc = None \<and> skip = PyNone))
      else if k = ''skipped'' then only_if (skip \<noteq> PyNone) skip
      else None)"
  by (simp add: outcome_entries_eq map_add_def split: option.splits)

lemmas entries_get = failure_entries_get count_entries_get outcome_entries_get map_add_def

lemma report_keys_distinct: "distinct REPORT_KEYS"
  by (simp add: REPORT_KEYS_def)

section \<open>The order of the keys\<close>

text \<open>
  C31: A report opens with the library's own keys in the documented order (each only when it applies:
  the operation and the outcome always, an error exactly for a failed session), followed by the radio
  facts and other facts, the stage seconds and the noted facts in that order; no key occurs twice.
\<close>

theorem report_key_order:
  assumes "build_report a st = (Inr rep, st')"
  shows "\<exists>own rest. dict_keys rep = own @ rest \<and> subseq own REPORT_KEYS
    \<and> {''operation'', ''success''} \<subseteq> set own \<and> (''error'' \<in> set own \<longleftrightarrow> r_exc a \<noteq> None)
    \<and> subseq rest (dict_keys (facts_in_order (r_facts a)) @ dict_keys (stage_seconds (r_trace a))
        @ dict_keys (trace_facts (r_trace a)))
    \<and> distinct (dict_keys rep)"
proof -
  from assms obtain mid where part: "failure_part a st mid st'"
    and rep: "rep = add_measured a
      (outcome_entries (r_operation a) (r_exc a) (r_skipped a) @ mid @ count_entries a)"
    (is "rep = add_measured a ?own") by (rule build_report_form)
  obtain k1 k2 k3 where keys: "dict_keys rep = dict_keys ?own @ k1 @ k2 @ k3"
    and subs: "subseq k1 (dict_keys (facts_in_order (r_facts a)))"
      "subseq k2 (dict_keys (stage_seconds (r_trace a)))"
      "subseq k3 (dict_keys (trace_facts (r_trace a)))"
    unfolding rep add_measured_def using dict_update_keys_subseq by (metis append_assoc)
  have own: "subseq (dict_keys ?own) REPORT_KEYS"
    using part by (rule own_subseq)
  have "distinct (dict_keys ?own)"
    using own report_keys_distinct by (metis subseq_distinct)
  then have dist: "distinct (dict_keys rep)"
    unfolding rep add_measured_def by (intro dict_update_distinct)
  have err: "''error'' \<in> set (dict_keys ?own) \<longleftrightarrow> r_exc a \<noteq> None"
  proof -
    have "dict_get ?own ''error'' \<noteq> None \<longleftrightarrow> r_exc a \<noteq> None"
      using part by (auto simp: failure_part_def entries_get split: option.splits)
    then show ?thesis by (metis map_of_eq_None_iff set_map)
  qed
  have "{''operation'', ''success''} \<subseteq> set (dict_keys ?own)"
    by (simp add: outcome_entries_eq)
  moreover have "subseq (k1 @ k2 @ k3) (dict_keys (facts_in_order (r_facts a))
      @ dict_keys (stage_seconds (r_trace a)) @ dict_keys (trace_facts (r_trace a)))"
    by (intro list_emb_append_mono subs)
  ultimately show ?thesis using keys own err dist by blast
qed

text \<open>The evaluation of a report on concrete arguments.\<close>

lemmas report_eval =
  build_report_def default_args_def outcome_entries_def add_counts_def add_measured_def add_failure_def
  dict_opt_def facts_in_order_def FACT_KEYS_def stage_seconds_def timings_def new_trace_def Let_def
  error_text_def likely_cause_def device_cause_def call_cause_def legacy_shape_def report_stage_def
  report_detail_def generic_cause_def failure_def failed_primary_def failed_detail_def

theorem report_key_order_witness:
  "\<exists>own rest. [''operation'', ''success''] = own @ rest \<and> subseq own REPORT_KEYS
    \<and> {''operation'', ''success''} \<subseteq> set own"
proof -
  have "build_report (default_args ''poll'' (new_trace None)) empty_log
      = (Inr [(''operation'', PyStr ''poll''), (''success'', PyBool True)], empty_log)"
    by (simp add: report_eval)
  from report_key_order [OF this] show ?thesis by auto
qed

section \<open>How a report counts\<close>

lemma reads_back:
  assumes "build_report a st = (Inr rep, st')" and "unreserved a"
  shows "classify rep =
    (if r_skipped a \<noteq> PyNone then Declined
     else if r_exc a = None then Ok
     else if r_retrying a then Retried else Failed)"
proof -
  note get = own_get [OF assms]
  have skip: "dict_has rep ''skipped'' \<longleftrightarrow> r_skipped a \<noteq> PyNone"
    by (rule get [of "''skipped''"])
      (auto simp: REPORT_KEYS_def dict_has_get entries_get failure_part_def split: option.splits)
  have err: "get_or rep ''error'' PyNone = PyNone \<longleftrightarrow> r_exc a = None"
    by (rule get [of "''error''"])
      (auto simp: REPORT_KEYS_def get_or_def entries_get failure_part_def split: option.splits)
  have retry: "truthy (get_or rep ''retrying'' PyNone) \<longleftrightarrow> r_retrying a"
    by (rule get [of "''retrying''"])
      (auto simp: REPORT_KEYS_def get_or_def entries_get failure_part_def only_if_def split: option.splits)
  show ?thesis by (simp add: classify_def skip err retry)
qed

text \<open>
  C30: A report reads back as what happened: declined when a guard skipped the attempt, ok when there
  was no error, retried when it failed and another attempt follows, a failure otherwise, provided no
  fact the integration supplied uses one of the report's own names.
\<close>

theorem report_classified:
  assumes "build_report a st = (Inr rep, st')" and "unreserved a"
  shows "classify rep =
    (if r_skipped a \<noteq> PyNone then Declined
     else if r_exc a = None then Ok
     else if r_retrying a then Retried else Failed)"
  using assms by (rule reads_back)

theorem report_classified_witness:
  "classify [(''operation'', PyStr ''poll''), (''success'', PyBool True)] = Ok"
proof -
  let ?a = "default_args ''poll'' (new_trace None)"
  have "build_report ?a empty_log
      = (Inr [(''operation'', PyStr ''poll''), (''success'', PyBool True)], empty_log)"
    by (simp add: report_eval)
  moreover have "unreserved ?a" by (simp add: unreserved_def default_args_def new_trace_def)
  ultimately have "classify [(''operation'', PyStr ''poll''), (''success'', PyBool True)] =
    (if r_skipped ?a \<noteq> PyNone then Declined else if r_exc ?a = None then Ok
     else if r_retrying ?a then Retried else Failed)"
    by (rule report_classified)
  then show ?thesis by (simp add: default_args_def)
qed

text \<open>
  C40: The proviso is needed: a fact the integration notes under the name error replaces the report's
  own entry, so that a session that succeeded is filed as a failure while it still says success.
\<close>

theorem noted_error_reclassifies:
  assumes "r_exc a = None" and "r_skipped a = PyNone" and "\<not> r_retrying a"
    and "set (dict_keys (r_facts a)) \<inter> set REPORT_KEYS = {}"
    and "distinct (dict_keys (trace_facts (r_trace a)))"
    and "set (dict_keys (trace_facts (r_trace a))) \<inter> set REPORT_KEYS = {''error''}"
    and "dict_get (trace_facts (r_trace a)) ''error'' = Some v" and "v \<noteq> PyNone"
  shows "\<exists>rep. build_report a st = (Inr rep, st) \<and> classify rep = Failed
    \<and> dict_get rep ''success'' = Some (PyBool True)"
proof -
  let ?own = "outcome_entries (r_operation a) (r_exc a) (r_skipped a) @ [] @ count_entries a"
  let ?rep = "add_measured a ?own"
  have "set (dict_keys (outcome_entries (r_operation a) (r_exc a) (r_skipped a)))
      \<inter> {''attempt'', ''attempts'', ''retrying''} = {}"
    using outcome_entries_keys [of "r_operation a" "r_exc a" "r_skipped a"] by auto
  then have built: "build_report a st = (Inr ?rep, st)"
    using assms(1) by (simp add: build_report_def add_counts_form)
  have other: "dict_get ?rep k = dict_get ?own k" if "k \<in> set REPORT_KEYS" "k \<noteq> ''error''" for k
  proof -
    have "k \<notin> set (dict_keys (facts_in_order (r_facts a)))" "k \<notin> set (dict_keys (trace_facts (r_trace a)))"
      using assms(4,6) that unfolding facts_in_order_keys by auto
    moreover have "k \<notin> set (dict_keys (stage_seconds (r_trace a)))"
      using that stage_seconds_not_own [of "r_trace a"] by auto
    ultimately show ?thesis by (simp add: add_measured_def dict_update_get_other)
  qed
  have "dict_get ?rep ''error'' = Some v"
    using assms(5,7) by (simp add: add_measured_def dict_simps)
  moreover have "dict_get ?rep ''skipped'' = None" "dict_get ?rep ''retrying'' = None"
    "dict_get ?rep ''success'' = Some (PyBool True)"
    using other [of "''skipped''"] other [of "''retrying''"] other [of "''success''"] assms(1-3)
    by (simp_all add: REPORT_KEYS_def entries_get)
  ultimately show ?thesis
    using built assms(8) by (intro exI [of _ ?rep]) (simp add: classify_def dict_has_get get_or_def)
qed

theorem noted_error_reclassifies_witness:
  "\<exists>rep. build_report (default_args ''write'' (note_facts [(''error'', PyInt 7)] (new_trace None))) empty_log
      = (Inr rep, empty_log) \<and> classify rep = Failed \<and> dict_get rep ''success'' = Some (PyBool True)"
  by (rule noted_error_reclassifies [where v = "PyInt 7"])
    (simp_all add: default_args_def new_trace_def REPORT_KEYS_def)

section \<open>Which sentence wins, and what cannot fail a report\<close>

lemma cause_key_timed_out:
  "isinstance e AttemptTimedOutC \<Longrightarrow> cause_key stage error (Some e) \<noteq> None"
  by (simp add: cause_key_def Let_def)

lemma likely_cause_timed_out:
  assumes "isinstance e AttemptTimedOutC"
  obtains s key where "generic_cause (report_stage a e) error (r_facts a) (Some e) (r_noun a) = Inr (Some s)"
    and "cause_key (report_stage a e) error (Some e) = Some key"
    and "likely_cause a e error st = (Inr (Some s, Some key), st)"
proof -
  let ?g = "generic_cause (report_stage a e) error (r_facts a) (Some e) (r_noun a)"
  from assms obtain key where key: "cause_key (report_stage a e) error (Some e) = Some key"
    using cause_key_timed_out by blast
  obtain s where s: "?g = Inr s"
    using generic_cause_returns by blast
  with key obtain s' where "s = Some s'"
    using generic_cause_key [OF s] by auto
  with s have g: "?g = Inr (Some s')" by simp
  then have "likely_cause a e error st = (Inr (Some s', Some key), st)"
    using key assms by (simp add: likely_cause_def Let_def)
  with g key show ?thesis by (rule that)
qed

lemma report_stage_cause [simp]: "report_stage (a\<lparr>r_cause := c\<rparr>) e = report_stage a e"
  by (simp add: report_stage_def split: option.split)

lemma report_detail_cause [simp]: "report_detail (a\<lparr>r_cause := c\<rparr>) e = report_detail a e"
  by (simp add: report_detail_def split: option.split)

lemma add_measured_cause [simp]:
  "add_measured (a\<lparr>r_cause := c\<rparr>) r = add_measured a r"
  "add_counts (a\<lparr>r_cause := c\<rparr>) r = add_counts a r"
  by (simp_all add: add_measured_def add_counts_def)

lemma build_report_cong_likely:
  assumes "\<And>e error. r_exc a = Some e \<Longrightarrow> error_text e = Inr error
    \<Longrightarrow> fst (likely_cause a e error st) = fst (likely_cause (a\<lparr>r_cause := c\<rparr>) e error st2)"
  shows "fst (build_report a st) = fst (build_report (a\<lparr>r_cause := c\<rparr>) st2)"
proof (cases "r_exc a")
  case (Some e)
  have "fst (add_failure a e rep st) = fst (add_failure (a\<lparr>r_cause := c\<rparr>) e rep st2)" for rep
    using assms [OF Some]
    by (cases "error_text e"; cases "likely_cause a e (projr (error_text e)) st";
        cases "likely_cause (a\<lparr>r_cause := c\<rparr>) e (projr (error_text e)) st2")
      (auto simp: add_failure_def Let_def split: sum.splits)
  with Some show ?thesis by (simp add: build_report_def split_def Let_def)
qed (simp add: build_report_def split_def Let_def)

text \<open>When the attempt bound fired, the library's own sentence wins: the report is the same with and
  without the integration's cause callback, and the callback's log is untouched.\<close>

lemma timed_out_sentence_wins:
  assumes "r_exc a = Some e" and "isinstance e AttemptTimedOutC"
  shows "build_report a st = build_report (a\<lparr>r_cause := None\<rparr>) st \<and> snd (build_report a st) = st"
proof -
  have likely: "likely_cause a e error st = likely_cause (a\<lparr>r_cause := None\<rparr>) e error st
      \<and> snd (likely_cause a e error st) = st" for error
    using likely_cause_timed_out [OF assms(2), of a error st]
      likely_cause_timed_out [OF assms(2), of "a\<lparr>r_cause := None\<rparr>" error st]
    by (metis (no_types, lifting) report_args.select_convs(5,7) report_args.update_convs(6)
        report_args.surjective report_stage_cause option.inject prod.inject snd_conv sum.inject(2))
  have "add_failure a e rep st = add_failure (a\<lparr>r_cause := None\<rparr>) e rep st
      \<and> snd (add_failure a e rep st) = st" for rep
    using likely [of "projr (error_text e)"]
    by (cases "error_text e"; cases "likely_cause a e (projr (error_text e)) st")
      (auto simp: add_failure_def Let_def split: sum.splits)
  with assms(1) show ?thesis by (simp add: build_report_def split_def Let_def) metis
qed

text \<open>A callback whose every call ends in an exception that is not a \<open>Warning\<close>.\<close>

definition faulty :: "callback \<Rightarrow> report_log \<Rightarrow> bool" where
  "faulty cb st \<longleftrightarrow>
     (\<forall>args. \<exists>x. invoke cb args = Inl x \<and> isinstance x ExceptionC \<and> \<not> isinstance x WarningC)
     \<and> (legacy_shape cb = None \<or> \<not> warn_errors st)"

lemma call_cause_faulty:
  assumes "faulty cb st"
  obtains x st' where "call_cause cb f st = (Inl x, st')"
    and "isinstance x ExceptionC" and "\<not> isinstance x WarningC"
proof -
  have "\<exists>args st'. call_cause cb f st = (invoke cb args, st')"
    using assms by (cases "legacy_shape cb") (auto simp: faulty_def call_cause_def Let_def)
  with assms that show ?thesis unfolding faulty_def by metis
qed

lemma device_cause_faulty:
  assumes "r_cause a = Some cb" and "faulty cb st"
  shows "fst (device_cause a e error st) = Inr None"
proof -
  obtain x st' where "call_cause cb \<lparr>f_stage = report_stage a e, f_detail = report_detail a e,
      f_error = error, f_exc = e, f_facts = r_facts a\<rparr> st = (Inl x, st')"
    and "isinstance x ExceptionC" and "\<not> isinstance x WarningC"
    by (rule call_cause_faulty [OF assms(2)])
  with assms(1) show ?thesis by (simp add: device_cause_def)
qed

lemma likely_cause_no_device:
  assumes "fst (device_cause a e error st) = Inr None"
  shows "fst (likely_cause a e error st) = fst (likely_cause (a\<lparr>r_cause := None\<rparr>) e error st2)"
proof (cases "isinstance e AttemptTimedOutC")
  case True
  show ?thesis
    using likely_cause_timed_out [OF True, of a error st]
      likely_cause_timed_out [OF True, of "a\<lparr>r_cause := None\<rparr>" error st2]
    by (metis (no_types, lifting) report_args.select_convs(5,7) report_args.update_convs(6)
        report_args.surjective report_stage_cause option.inject fst_conv sum.inject(2))
next
  case False
  with assms show ?thesis
    by (cases "device_cause a e error st")
      (simp add: likely_cause_def Let_def device_cause_def [of "a\<lparr>r_cause := None\<rparr>"])
qed

text \<open>
  C35: A cause callback that is broken, so that every call of it raises an ordinary exception (one that is
  no \<open>Warning\<close>, which would not be swallowed), cannot fail the report or change what it says: the report
  is the one a caller without a callback gets.  A callback of a deprecated shape is broken in this sense
  only while the caller's filter does not turn warnings into errors.
\<close>

theorem faulty_callback_harmless:
  assumes "r_cause a = Some cb" and "faulty cb st"
  shows "fst (build_report a st) = fst (build_report (a\<lparr>r_cause := None\<rparr>) st2)"
  by (rule build_report_cong_likely) (rule likely_cause_no_device, rule device_cause_faulty [OF assms])

text \<open>A callback that takes one failure and raises a \<open>ValueError\<close>.\<close>

definition raising_callback :: callback where
  "raising_callback =
     \<lparr>signature = Some [\<lparr>kind = PositionalOrKeyword, has_default = False\<rparr>],
      callable = Function (Some ''acme'') ''cause'' (Some 7),
      invoke = (\<lambda>_. Inl (plain_exc ValueErrorC ''boom''))\<rparr>"

definition dropped_args :: report_args where
  "dropped_args = (default_args ''write'' (new_trace None))
     \<lparr>r_exc := Some (SessionDropped ''The link dropped'' None), r_cause := Some raising_callback\<rparr>"

lemma raising_callback_faulty: "faulty raising_callback empty_log"
  by (simp add: faulty_def raising_callback_def legacy_shape_def issubclass_eval empty_log_def)

theorem faulty_callback_harmless_witness:
  "fst (build_report dropped_args empty_log) = fst (build_report (dropped_args\<lparr>r_cause := None\<rparr>) empty_log)"
  by (rule faulty_callback_harmless [where cb = raising_callback])
    (simp_all add: dropped_args_def raising_callback_faulty)

text \<open>A key in the report always names the library's own sentence beside it: where
  likely_cause_key is present, likely_cause is the generic sentence for that key.\<close>

lemma key_names_the_sentence:
  assumes "build_report a st = (Inr rep, st')" and "unreserved a"
    and "dict_get rep ''likely_cause_key'' = Some v"
  shows "\<exists>e error key s. r_exc a = Some e \<and> error_text e = Inr error \<and> v = PyStr key
    \<and> cause_key (report_stage a e) error (Some e) = Some key
    \<and> generic_cause (report_stage a e) error (r_facts a) (Some e) (r_noun a) = Inr (Some s)
    \<and> dict_get rep ''likely_cause'' = Some (PyStr s)"
proof -
  obtain mid where part: "failure_part a st mid st'"
    and rep: "rep = add_measured a
      (outcome_entries (r_operation a) (r_exc a) (r_skipped a) @ mid @ count_entries a)"
    by (rule build_report_form [OF assms(1)])
  have get: "dict_get rep k = dict_get
      (outcome_entries (r_operation a) (r_exc a) (r_skipped a) @ mid @ count_entries a) k"
    if "k \<in> set REPORT_KEYS" for k
    using that assms(2) unfolding rep by (rule add_measured_own [rotated])
  have v: "dict_get mid ''likely_cause_key'' = Some v"
    using assms(3) get [of "''likely_cause_key''"] by (auto simp: REPORT_KEYS_def entries_get split: option.splits)
  then obtain e error likely key where e: "r_exc a = Some e" "error_text e = Inr error"
    and likely: "likely_cause a e error st = (Inr (likely, key), st')"
    and mid: "mid = failure_entries a e error likely key"
    using part by (auto simp: failure_part_def split: option.splits)
  from v mid obtain k where k: "key = Some k" "v = PyStr k" by (auto simp: failure_entries_get)
  obtain s where g: "generic_cause (report_stage a e) error (r_facts a) (Some e) (r_noun a) = Inr s"
    using generic_cause_returns by blast
  have "cause_key (report_stage a e) error (Some e) = Some k \<and> likely = s"
    using likely k(1) g generic_cause_key [OF g] cause_key_timed_out [of e "report_stage a e" error]
    by (auto simp: likely_cause_def Let_def split: if_splits option.splits sum.splits prod.splits)
  moreover from this obtain s' where "s = Some s'" using generic_cause_key [OF g] by auto
  moreover have "dict_get rep ''likely_cause'' = map_option PyStr likely"
    using get [of "''likely_cause''"] mid by (simp add: REPORT_KEYS_def entries_get split: option.split)
  ultimately show ?thesis using e k g by auto
qed

lemma build_report_ok:
  assumes "r_exc a = Some e" and "error_text e = Inr s" and "likely_cause a e s st = (Inr p, st')"
  shows "\<exists>rep. build_report a st = (Inr rep, st')"
proof (cases p)
  case (Pair likely key)
  with assms show ?thesis by (simp add: build_report_def add_failure_def Let_def)
qed

text \<open>What a cause callback is called with.\<close>

definition question :: "callback \<Rightarrow> failure_info \<Rightarrow> cause_args" where
  "question cb f =
     (case legacy_shape cb of
        None \<Rightarrow> WithFailure f
      | Some shape \<Rightarrow>
          if shape = 4 then Positional4 (f_stage f) (f_detail f) (f_error f) (f_facts f)
          else Positional5 (f_stage f) (f_detail f) (f_error f) (f_facts f) (f_exc f))"

text \<open>What asking the callback may fail the report with: the deprecation of its shape where the caller's
  filter makes warnings errors, otherwise an exception of its own that is a \<open>Warning\<close> or no
  \<open>Exception\<close> at all.\<close>

definition unswallowed :: "callback \<Rightarrow> failure_info \<Rightarrow> report_log \<Rightarrow> exc \<Rightarrow> bool" where
  "unswallowed cb f st x \<longleftrightarrow>
     (if legacy_shape cb \<noteq> None \<and> warn_errors st
      then x = plain_exc DeprecationWarningC (deprecation_text (the (legacy_shape cb)))
      else invoke cb (question cb f) = Inl x \<and> (isinstance x WarningC \<or> \<not> isinstance x ExceptionC))"

definition failure_told :: "report_args \<Rightarrow> exc \<Rightarrow> string \<Rightarrow> failure_info" where
  "failure_told a e error =
     \<lparr>f_stage = report_stage a e, f_detail = report_detail a e, f_error = error, f_exc = e, f_facts = r_facts a\<rparr>"

lemma call_cause_question:
  assumes "legacy_shape cb = None \<or> \<not> warn_errors st"
  shows "fst (call_cause cb f st) = invoke cb (question cb f)"
  using assms by (auto simp: call_cause_def question_def Let_def split: option.splits)

lemma device_cause_fails:
  "fst (device_cause a e error st) = Inl x \<longleftrightarrow>
     (\<exists>cb. r_cause a = Some cb \<and> unswallowed cb (failure_told a e error) st x)"
proof (cases "r_cause a")
  case (Some cb)
  let ?f = "failure_told a e error"
  have run: "fst (device_cause a e error st) = (case fst (call_cause cb ?f st) of
      Inr s \<Rightarrow> Inr s
    | Inl x \<Rightarrow> if isinstance x WarningC \<or> \<not> isinstance x ExceptionC then Inl x else Inr None)"
    using Some by (cases "call_cause cb ?f st") (auto simp: device_cause_def failure_told_def split: sum.splits)
  show ?thesis
  proof (cases "legacy_shape cb \<noteq> None \<and> warn_errors st")
    case True
    then obtain shape where "legacy_shape cb = Some shape" by blast
    with True have "fst (call_cause cb ?f st) = Inl (plain_exc DeprecationWarningC (deprecation_text shape))"
      by (simp add: call_cause_def)
    with run True \<open>legacy_shape cb = Some shape\<close> Some show ?thesis
      by (auto simp: unswallowed_def issubclass_eval)
  next
    case False
    then have "fst (call_cause cb ?f st) = invoke cb (question cb ?f)" by (intro call_cause_question) auto
    with run False Some show ?thesis by (auto simp: unswallowed_def split: sum.splits)
  qed
qed (simp add: device_cause_def)

lemma likely_cause_fails:
  "fst (likely_cause a e error st) = Inl x \<longleftrightarrow>
     \<not> isinstance e AttemptTimedOutC \<and> fst (device_cause a e error st) = Inl x"
proof (cases "isinstance e AttemptTimedOutC")
  case True
  then show ?thesis using likely_cause_timed_out [OF True, of a error st] by (metis Inl_Inr_False fst_conv)
next
  case False
  obtain s where "generic_cause (report_stage a e) error (r_facts a) (Some e) (r_noun a) = Inr s"
    using generic_cause_returns by blast
  with False show ?thesis
    by (cases "device_cause a e error st") (auto simp: likely_cause_def Let_def split: sum.splits option.splits)
qed

lemma build_report_fails:
  "fst (build_report a st) = Inl x \<longleftrightarrow>
     (\<exists>e. r_exc a = Some e \<and>
        (error_text e = Inl x \<or> (\<exists>error. error_text e = Inr error \<and> fst (likely_cause a e error st) = Inl x)))"
proof (cases "r_exc a")
  case (Some e)
  show ?thesis
  proof (cases "error_text e")
    case (Inr error)
    with Some show ?thesis
      by (cases "likely_cause a e error st")
        (auto simp: build_report_def add_failure_def Let_def split: sum.splits prod.splits)
  qed (use Some in \<open>auto simp: build_report_def add_failure_def\<close>)
qed (simp add: build_report_def)

text \<open>
  C32: Diagnostics cannot fail a report, with two exceptions, which are all there are: the text of the error
  itself raises; or the cause callback is asked, which it is unless the attempt bound fired, and what
  comes out of it is a \<open>Warning\<close> (its own, or the deprecation of its shape where the caller's filter
  makes warnings errors) or no \<open>Exception\<close> at all, and this is then what fails the report.
\<close>

theorem report_fails_exactly:
  "fst (build_report a st) = Inl x \<longleftrightarrow>
     (\<exists>e. r_exc a = Some e \<and>
        (error_text e = Inl x \<or>
         (\<exists>error cb. error_text e = Inr error \<and> isinstance e AttemptTimedOutC = False \<and> r_cause a = Some cb
            \<and> unswallowed cb (failure_told a e error) st x)))"
  unfolding build_report_fails likely_cause_fails device_cause_fails by simp

text \<open>A callback that raises a \<open>ValueError\<close> fails no report; one that raises a \<open>DeprecationWarning\<close> does.\<close>

definition warning_callback :: callback where
  "warning_callback = raising_callback\<lparr>invoke := (\<lambda>_. Inl (plain_exc DeprecationWarningC ''old''))\<rparr>"

theorem report_fails_exactly_witness:
  "(\<exists>rep. fst (build_report dropped_args empty_log) = Inr rep)
   \<and> fst (build_report (dropped_args\<lparr>r_cause := Some warning_callback\<rparr>) empty_log)
      = Inl (plain_exc DeprecationWarningC ''old'')"
proof
  have "fst (build_report dropped_args empty_log) \<noteq> Inl x" for x
    unfolding report_fails_exactly
    by (auto simp: dropped_args_def error_text_def SessionDropped_def BleSessionError_def unswallowed_def raising_callback_def
        legacy_shape_def issubclass_eval)
  then show "\<exists>rep. fst (build_report dropped_args empty_log) = Inr rep"
    by (cases "fst (build_report dropped_args empty_log)") auto
  show "fst (build_report (dropped_args\<lparr>r_cause := Some warning_callback\<rparr>) empty_log)
      = Inl (plain_exc DeprecationWarningC ''old'')"
    unfolding report_fails_exactly
    by (simp add: dropped_args_def error_text_def SessionDropped_def BleSessionError_def unswallowed_def warning_callback_def
        raising_callback_def legacy_shape_def issubclass_eval isinstance_def)
qed

section \<open>A callback's fault is warned about once\<close>

fun warnings_in :: "log_entry list \<Rightarrow> identity list" where
  "warnings_in [] = []"
| "warnings_in (LogRaised first k # xs) = (if first then k # warnings_in xs else warnings_in xs)"
| "warnings_in (LogDeprecated _ _ # xs) = warnings_in xs"

fun deprecated_in :: "log_entry list \<Rightarrow> identity list" where
  "deprecated_in [] = []"
| "deprecated_in (LogRaised _ _ # xs) = deprecated_in xs"
| "deprecated_in (LogDeprecated k _ # xs) = k # deprecated_in xs"

lemma warnings_in_append [simp]: "warnings_in (xs @ ys) = warnings_in xs @ warnings_in ys"
  by (induction xs rule: warnings_in.induct) auto

lemma deprecated_in_append [simp]: "deprecated_in (xs @ ys) = deprecated_in xs @ deprecated_in ys"
  by (induction xs rule: deprecated_in.induct) auto

definition log_inv :: "report_log \<Rightarrow> bool" where
  "log_inv st \<longleftrightarrow> distinct (warnings_in (entries st)) \<and> set (warnings_in (entries st)) \<subseteq> raised st
     \<and> distinct (deprecated_in (entries st)) \<and> set (deprecated_in (entries st)) \<subseteq> warned st"

lemma log_inv_empty: "log_inv empty_log"
  by (simp add: log_inv_def empty_log_def)

lemma log_inv_raised: "log_inv st \<Longrightarrow> log_inv (log_cause_error cb st)"
  by (auto simp: log_inv_def log_cause_error_def Let_def)

lemma log_inv_call: "log_inv st \<Longrightarrow> log_inv (snd (call_cause cb f st))"
  by (auto simp: log_inv_def call_cause_def Let_def split: option.split)

lemma log_inv_device: "log_inv st \<Longrightarrow> log_inv (snd (device_cause a e error st))"
  using log_inv_call log_inv_raised
  by (auto simp: device_cause_def split: option.split prod.split sum.split) (metis snd_conv)+

lemma log_inv_likely: "log_inv st \<Longrightarrow> log_inv (snd (likely_cause a e error st))"
  using log_inv_device [of st a e error]
  by (auto simp: likely_cause_def Let_def split: option.split prod.split sum.split)

lemma log_inv_build: "log_inv st \<Longrightarrow> log_inv (snd (build_report a st))"
  using log_inv_likely
  by (auto simp: build_report_def add_failure_def Let_def split: option.split prod.split sum.split)
    (metis snd_conv)+

text \<open>The log after a sequence of reports.\<close>

fun log_after :: "report_args list \<Rightarrow> report_log \<Rightarrow> report_log" where
  "log_after [] st = st"
| "log_after (a # as) st = log_after as (snd (build_report a st))"

lemma log_inv_after: "log_inv st \<Longrightarrow> log_inv (log_after as st)"
  by (induction as st rule: log_after.induct) (auto intro: log_inv_build)

text \<open>
  C34: Over any sequence of reports, a callback that raises is logged as a warning at most once, and a
  callback of a deprecated shape is too, by the identity of the code that defines it.
\<close>

theorem warned_once:
  "distinct (warnings_in (entries (log_after as empty_log)))
    \<and> distinct (deprecated_in (entries (log_after as empty_log)))"
  using log_inv_after [OF log_inv_empty, of as] by (simp add: log_inv_def)

section \<open>The fallback says the same\<close>

definition fallback_keys :: "string set" where
  "fallback_keys = {''operation'', ''success'', ''skipped'', ''error'', ''failed_stage'',
     ''failed_detail'', ''attempt'', ''retrying''}"

definition fallback_failure :: "'r attempt \<Rightarrow> exc \<Rightarrow> string \<Rightarrow> report" where
  "fallback_failure att e error =
     opt_entry ''error'' (Some (PyStr error))
     @ opt_entry ''failed_stage'' (map_option PyStr (fst (failure (att_trace att) (Some e))))
     @ opt_entry ''failed_detail'' (map_option PyStr (snd (failure (att_trace att) (Some e))))"

definition fallback_counts :: "'r attempt \<Rightarrow> report" where
  "fallback_counts att =
     opt_entry ''attempt'' (Some (PyInt (number att)))
     @ opt_entry ''retrying'' (only_if (retrying att) (PyBool True))"

lemma fallback_form_ok:
  assumes "att_error att = None"
  shows "fallback_report operation tr ex (Some att)
    = Inr (outcome_entries operation None (skipped att) @ fallback_counts att)"
  using assms
  by (simp add: fallback_report_def Let_def outcome_entries_eq fallback_counts_def dict_set_fresh only_if_def)

lemma fallback_form_error:
  assumes "att_error att = Some e" and "fallback_error e = Inr error"
  shows "fallback_report operation tr ex (Some att)
    = Inr (outcome_entries operation (Some e) (skipped att) @ fallback_failure att e error @ fallback_counts att)"
proof (cases "failure (att_trace att) (Some e)")
  case (Pair s d)
  with assms show ?thesis
    by (simp add: fallback_report_def Let_def outcome_entries_eq fallback_counts_def fallback_failure_def
        dict_set_fresh dict_opt_fresh only_if_def image_Un)
qed

lemma fallback_failure_get:
  "dict_get (fallback_failure att e error) k =
     (if k = ''error'' then Some (PyStr error)
      else if k = ''failed_stage'' then map_option PyStr (fst (failure (att_trace att) (Some e)))
      else if k = ''failed_detail'' then map_option PyStr (snd (failure (att_trace att) (Some e)))
      else None)"
  by (simp add: fallback_failure_def map_add_def split: option.splits)

lemma fallback_counts_get:
  "dict_get (fallback_counts att) k =
     (if k = ''attempt'' then Some (PyInt (number att))
      else if k = ''retrying'' then only_if (retrying att) (PyBool True) else None)"
  by (simp add: fallback_counts_def map_add_def split: option.splits)

lemmas fallback_entries = fallback_failure_get fallback_counts_get entries_get

lemma attempt_args_sel [simp]:
  "r_operation (attempt_args att operation facts cause noun attempts) = operation"
  "r_trace (attempt_args att operation facts cause noun attempts) = att_trace att"
  "r_exc (attempt_args att operation facts cause noun attempts) = att_error att"
  "r_skipped (attempt_args att operation facts cause noun attempts) = skipped att"
  "r_facts (attempt_args att operation facts cause noun attempts) = facts"
  "r_attempt (attempt_args att operation facts cause noun attempts) = Some (number att)"
  "r_retrying (attempt_args att operation facts cause noun attempts) = retrying att"
  "r_failed_stage (attempt_args att operation facts cause noun attempts) = None"
  "r_failed_detail (attempt_args att operation facts cause noun attempts) = None"
  by (simp_all add: attempt_args_def)

lemma fallback_agrees_error:
  assumes "att_error att = Some e" and "error_text e = Inr error"
    and "fallback_report operation tr ex (Some att) = Inr fb" and "k \<in> fallback_keys"
  shows "dict_get fb k = dict_get (outcome_entries operation (Some e) (skipped att)
    @ failure_entries (attempt_args att operation facts cause noun attempts) e error likely key
    @ count_entries (attempt_args att operation facts cause noun attempts)) k"
proof -
  from assms(2) have "fallback_error e = Inr error" by (simp add: fallback_error_def)
  with assms(3) have fb: "fb = outcome_entries operation (Some e) (skipped att)
      @ fallback_failure att e error @ fallback_counts att"
    using fallback_form_error [OF assms(1)] by simp
  from assms(4) show ?thesis
    unfolding fallback_keys_def insert_iff empty_iff
    by (elim disjE FalseE) (simp_all add: fb fallback_entries report_stage_def report_detail_def split: option.split)
qed

lemma fallback_agrees_ok:
  assumes "att_error att = None"
    and "fallback_report operation tr ex (Some att) = Inr fb" and "k \<in> fallback_keys"
  shows "dict_get fb k = dict_get (outcome_entries operation None (skipped att)
    @ count_entries (attempt_args att operation facts cause noun attempts)) k"
proof -
  have fb: "fb = outcome_entries operation None (skipped att) @ fallback_counts att"
    using assms(2) fallback_form_ok [OF assms(1)] by simp
  from assms(3) show ?thesis
    unfolding fallback_keys_def insert_iff empty_iff
    by (elim disjE FalseE) (simp_all add: fb fallback_entries split: option.split)
qed



text \<open>The report of last resort cannot fail: whatever ordinary exception reading the error's text raises,
  it carries the error's type name instead.\<close>

lemma fallback_never_fails:
  assumes "fallback_report operation tr ex att = Inl x"
  shows "\<not> isinstance x ExceptionC"
  using assms
  by (auto simp: fallback_report_def Let_def result_simps fallback_error_def
      split: option.splits sum.splits if_splits prod.splits)

end
