(* ===== verification/Recording.thy ===== *)
theory Recording
  imports AttemptLaws SessionReports ReportLaws
begin

text \<open>
  Recorded runs: \<open>run_attempts\<close> (\<open>attempts.py\<close>) with an \<open>on_attempt\<close> that builds the report of each attempt
  and files it (\<open>report_attempt\<close> and \<open>SessionReports.record\<close> of \<open>report.py\<close>), the composition
  the design notes and the docstring of \<open>SessionReports\<close> show.  What each step files (\<open>files_one\<close>) is followed through
  the loop by the recorder lemmas of AttemptLaws (\<open>attempts_over_files\<close>); the property says what a whole
  run leaves in the published slots.
\<close>

section \<open>The recorder\<close>

text \<open>How each attempt is reported, and what listens: the arguments of \<open>report_attempt\<close> and \<open>record\<close>.\<close>

record reporting =
  operation_name :: string
  radio :: "(string, pyval) dict"
  sentence :: "callback option"
  noun_of :: string
  tries :: "int option"
  listener :: listener_behaviour

type_synonym report_books = "session_reports \<times> report_log"

text \<open>\<open>on_attempt=file_it\<close>, \<open>def file_it(a): reports.record(report_attempt(a, ...))\<close>\<close>

definition file_attempt :: "reporting \<Rightarrow> 'r attempt \<Rightarrow> (unit, report_books \<times> 'x) co" where
  "file_attempt c a w =
     (let ((slots, logged), rest) = mem w;
          (built, logged') = report_attempt a (operation_name c) (radio c) (sentence c) (noun_of c) (tries c) logged
      in case built of
           Inl e \<Rightarrow> (Raise e, w\<lparr>mem := ((slots, logged'), rest)\<rparr>)
         | Inr rep \<Rightarrow>
             (case record_report (listener c) rep None (now w) slots of
                (Inl e, slots') \<Rightarrow> (Raise e, w\<lparr>mem := ((slots', logged'), rest)\<rparr>)
              | (Inr _, slots') \<Rightarrow> (Return (), w\<lparr>mem := ((slots', logged'), rest)\<rparr>)))"

text \<open>Listeners that only look at the slots.\<close>

definition only_looks :: "listener_behaviour \<Rightarrow> bool" where
  "only_looks behave \<longleftrightarrow> (\<forall>l s. snd (behave l s) = s)"

lemma looking_notify: "only_looks behave \<Longrightarrow> snd (notify_each behave ls s) = s"
proof (induction ls)
  case (Cons l ls)
  obtain e where "behave l s = (e, s)" using Cons.prems by (metis only_looks_def prod.collapse)
  with Cons show ?case by (auto split: option.split)
qed simp

lemma looking_record:
  "only_looks behave \<Longrightarrow> record_report behave rep None clock s = (r, s') \<Longrightarrow> s' = file_report rep clock s"
  using looking_notify [of behave "listeners (file_report rep clock s)" "file_report rep clock s"]
  by (auto simp: record_report_def notify_def split: prod.splits option.splits)

text \<open>What filing one attempt does to the slots: some report of it was built and filed.\<close>

definition files_one :: "reporting \<Rightarrow> 'r attempt \<Rightarrow> report_books \<Rightarrow> report_books \<Rightarrow> bool" where
  "files_one c a books books' \<longleftrightarrow>
     (\<exists>rep stamp. report_attempt a (operation_name c) (radio c) (sentence c) (noun_of c) (tries c) (snd books)
        = (Inr rep, snd books') \<and> fst books' = file_report rep stamp (fst books))"

lemma file_attempt_files:
  assumes "only_looks (listener c)" and "p_on_attempt p = Some (file_attempt c)"
  shows "files fst (files_one c) p"
  unfolding files_def
proof (intro exI conjI allI impI)
  fix a :: "'a attempt" and w u w'
  assume run: "file_attempt c a w = (Return u, w')" and i: "intact fst w"
  from run i show "intact fst w'" "live w' = live w" "scratch w' = scratch w"
    by (auto simp: file_attempt_def Let_def split: prod.splits sum.splits)
  from run looking_record [OF assms(1)] show "files_one c a (fst (mem w)) (fst (mem w'))"
    by (fastforce simp: file_attempt_def files_one_def Let_def split: prod.splits sum.splits)
qed (rule assms(2))

section \<open>What a run leaves in the slots\<close>

text \<open>The facts noted on a trace leave the report's own names alone.\<close>

definition names_free :: "session_trace \<Rightarrow> bool" where
  "names_free t \<longleftrightarrow> set (dict_keys (trace_facts t)) \<inter> set REPORT_KEYS = {}"

definition kind_of :: "'r attempt \<Rightarrow> report_kind" where
  "kind_of a =
     (if skipped a \<noteq> PyNone then Declined else if att_error a = None then Ok
      else if retrying a then Retried else Failed)"

lemma filed_report:
  assumes "files_one c a books books'" and "names_free (att_trace a)" and "set (dict_keys (radio c)) \<inter> set REPORT_KEYS = {}"
  obtains rep stamp where "fst books' = file_report rep stamp (fst books)" and "classify rep = kind_of a"
    and "dict_get rep ''attempt'' = Some (PyInt (number a))"
proof -
  let ?args = "attempt_args a (operation_name c) (radio c) (sentence c) (noun_of c) (tries c)"
  from assms(1) obtain rep stamp where built: "build_report ?args (snd books) = (Inr rep, snd books')"
    and f: "fst books' = file_report rep stamp (fst books)" by (auto simp: files_one_def report_attempt_def)
  have u: "unreserved ?args" using assms(2,3) by (simp add: unreserved_def names_free_def)
  have "classify rep = kind_of a" using reads_back [OF built u] by (simp add: kind_of_def)
  moreover have "dict_get rep ''attempt'' = Some (PyInt (number a))"
    by (rule own_get [OF built u, of "''attempt''"])
      (auto simp: REPORT_KEYS_def entries_get failure_part_def split: option.splits)
  ultimately show ?thesis using that f by blast
qed

lemma file_report_sel:
  "last_kind (file_report rep t s) = Some (classify rep)" "last_report (file_report rep t s) = Some rep"
  "failures (file_report rep t s) = failures s + (if classify rep = Failed then 1 else 0)"
  "last_failure (file_report rep t s) = (if classify rep = Failed then Some rep else last_failure s)"
  "last_failure_at (file_report rep t s) = (if classify rep = Failed then Some t else last_failure_at s)"
  "last_retry (file_report rep t s) = (if classify rep = Retried then Some rep else last_retry s)"
  by (simp_all add: file_report_def Let_def)

text \<open>The attempts before the last are all filed as retried: only \<open>last_retry\<close> sees them.\<close>

lemma retried_filed:
  assumes "filed (files_one c) h books books'" and "\<forall>b \<in> set h. names_free (att_trace b) \<and> kind_of b = Retried"
    and "set (dict_keys (radio c)) \<inter> set REPORT_KEYS = {}"
  shows "failures (fst books') = failures (fst books) \<and> last_failure (fst books') = last_failure (fst books)
    \<and> last_failure_at (fst books') = last_failure_at (fst books)
    \<and> (if h = [] then last_retry (fst books') = last_retry (fst books)
       else \<exists>rep. last_retry (fst books') = Some rep \<and> dict_get rep ''attempt'' = Some (PyInt (number (last h))))"
  using assms(1,2)
proof (induction h arbitrary: books)
  case (Cons b h)
  then obtain mid where m: "files_one c b books mid" "filed (files_one c) h mid books'" by auto
  from Cons.prems(2) have b: "names_free (att_trace b)" "kind_of b = Retried" by simp_all
  obtain rep stamp where "fst mid = file_report rep stamp (fst books)" "classify rep = kind_of b"
    "dict_get rep ''attempt'' = Some (PyInt (number b))" by (rule filed_report [OF m(1) b(1) assms(3)])
  with Cons.IH [OF m(2)] Cons.prems(2) b(2) show ?case by (auto simp: file_report_sel split: if_splits)
qed simp

lemma filed_snoc: "filed U (h @ [a]) s s' \<longleftrightarrow> (\<exists>t. filed U h s t \<and> U a t s')"
  by (induction h arbitrary: s) auto

lemma numbered_snoc:
  assumes "map number (xs @ [x]) = [1..int (length (xs @ [x]))]"
  shows "number x = int (length xs) + 1 \<and> map number xs = [1..int (length xs)]"
proof -
  have "[1..int (length (xs @ [x]))] = [1..int (length xs)] @ [int (length xs) + 1]"
    using upto_rec2 [of 1 "int (length xs) + 1"] by (simp add: add.commute)
  with assms show ?thesis by simp
qed

text \<open>
  C7: A run of attempts recorded as the documentation says counts as one session.  However many attempts
  it took, at most one failure is counted, and exactly when the attempt handed back failed; the evidence
  of an earlier failure is only replaced by that failure; the last report is of the kind of the last
  attempt; and the retry slot has the report of the attempt before it, if there was one.
\<close>

theorem run_files_one_session:
  assumes "p_on_attempt p = Some (file_attempt c)" and "only_looks (listener c)"
    and "set (dict_keys (radio c)) \<inter> set REPORT_KEYS = {}"
    and "abides (part_frame fst) p fn" and "abides (trace_frame names_free) p fn" and "intact fst w"
    and "run_attempts p fn w = (Return a, w')"
  shows "let s = fst (fst (mem w)); s' = fst (fst (mem w')); hit = (skipped a = PyNone \<and> att_error a \<noteq> None) in
    last_kind s' = Some (kind_of a) \<and> failures s' = failures s + (if hit then 1 else 0)
    \<and> (if hit then last_failure s' = last_report s'
       else last_failure s' = last_failure s \<and> last_failure_at s' = last_failure_at s)
    \<and> (if number a = 1 then last_retry s' = last_retry s
       else \<exists>rep. last_retry s' = Some rep \<and> dict_get rep ''attempt'' = Some (PyInt (number a - 1)))"
proof -
  have P: "retries_only p (\<lambda>_ _. True)" by (simp add: retries_only_def)
  have new: "names_free (new_trace (p_stage_map p))" by (simp add: names_free_def new_trace_def)
  from assms(7) obtain w1 where over: "attempts_over p fn [1..p_max p] None (w\<lparr>scratch := []\<rparr>) = (Return a, w1)"
    and "mem w' = mem w1" and "1 \<le> p_max p"
    by (auto simp: run_attempts_run Let_def split: if_splits prod.splits)
  with attempts_over_files [OF file_attempt_files [OF assms(2,1)] assms(4,5) new P over] assms(6) obtain h where
    h: "h \<noteq> []" "filed (files_one c) h (fst (mem w)) (fst (mem w'))" "last h = a"
      "map number h = [1..int (length h)]" "\<not> retrying a" "\<forall>b \<in> set h. names_free (att_trace b)"
      "\<forall>b \<in> set (butlast h). retrying b \<and> att_error b \<noteq> None \<and> skipped b = PyNone"
    by auto
  from h(1,3) have split: "h = butlast h @ [a]" by (metis append_butlast_last_id)
  with h(2) obtain mid where mid: "filed (files_one c) (butlast h) (fst (mem w)) mid" "files_one c a mid (fst (mem w'))"
    by (metis filed_snoc)
  have "\<forall>b \<in> set (butlast h). names_free (att_trace b) \<and> kind_of b = Retried"
    using h(6,7) by (auto simp: kind_of_def dest: in_set_butlastD)
  note before = retried_filed [OF mid(1) this assms(3)]
  have a: "names_free (att_trace a)" using h(1,3,6) by auto
  obtain rep stamp where rep: "fst (fst (mem w')) = file_report rep stamp (fst mid)" "classify rep = kind_of a"
    by (rule filed_report [OF mid(2) a assms(3)])
  have one: "number a = int (length (butlast h)) + 1" "map number (butlast h) = [1..int (length (butlast h))]"
    using numbered_snoc [of "butlast h" a] h(4) split by (metis length_append_singleton)+
  have n: "number (last (butlast h)) = number a - 1" if "butlast h \<noteq> []"
    using numbered_snoc one that by (cases "butlast h" rule: rev_cases) fastforce+
  have "butlast h = [] \<longleftrightarrow> number a = 1" using one(1) by (simp del: length_butlast)
  with before rep h(5) n show ?thesis
    by (auto simp: Let_def file_report_sel kind_of_def)
qed

text \<open>The second try works: nothing counts as a failure, and the first is kept in the retry slot.\<close>

definition flaky :: "int \<Rightarrow> (unit, report_books \<times> unit) co" where
  "flaky n = (if n = 1 then timed CONNECT (throw (ConnectFailed ''no slot'' None)) else ret ())"

definition quiet_reporting :: reporting where
  "quiet_reporting = \<lparr>operation_name = ''write'', radio = [], sentence = None, noun_of = ''lamp'', tries = Some 3,
     listener = \<lambda>_ s. (None, s)\<rparr>"

theorem run_files_one_session_witness:
  "\<exists>a w' rep. run_attempts (default_policy\<lparr>p_max := 3, p_on_attempt := Some (file_attempt quiet_reporting)\<rparr>) flaky
       (idle ((new_reports, empty_log), ())) = (Return a, w')
     \<and> last_kind (fst (fst (mem w'))) = Some Ok \<and> failures (fst (fst (mem w'))) = 0
     \<and> last_retry (fst (fst (mem w'))) = Some rep \<and> dict_get rep ''attempt'' = Some (PyInt 1)"
proof -
  let ?p = "default_policy\<lparr>p_max := 3, p_on_attempt := Some (file_attempt quiet_reporting)\<rparr> :: (unit, report_books \<times> unit) policy"
  let ?w = "idle ((new_reports, empty_log), ())"
  have facts: "trace_facts (timed_exit n r s t) = trace_facts t" for n r s t by simp
  have part: "abides (part_frame fst) ?p flaky"
    by (simp add: abides_def default_policy_def part.keeps_ret keeps_def flaky_def timed_def throw_def ret_def part_frame_refl)
  have free: "abides (trace_frame names_free) ?p flaky"
    by (simp add: abides_def default_policy_def keeps_def flaky_def timed_def throw_def ret_def trace_frame_def names_free_def)
  have looks: "only_looks (listener quiet_reporting)" by (simp add: only_looks_def quiet_reporting_def)
  have radio: "set (dict_keys (radio quiet_reporting)) \<inter> set REPORT_KEYS = {}" by (simp add: quiet_reporting_def)
  have "case fst (run_attempts ?p flaky ?w) of Return a \<Rightarrow> number a = 2 \<and> ok a | _ \<Rightarrow> False" by code_simp
  then obtain a w' where run: "run_attempts ?p flaky ?w = (Return a, w')" "number a = 2" "ok a"
    by (cases "run_attempts ?p flaky ?w") (auto split: outcome.splits)
  have "intact fst ?w" "p_on_attempt ?p = Some (file_attempt quiet_reporting)"
    by (simp_all add: intact_def idle_def default_policy_def)
  from run_files_one_session [OF this(2) looks radio part free this(1) run(1)] run show ?thesis
    by (auto simp: ok_def kind_of_def idle_def new_reports_def Let_def)
qed

end
