(* ===== verification/CutAttempts.thy ===== *)
theory CutAttempts
  imports Recording
begin

text \<open>
  An attempt that was cut at its bound, followed from \<open>run_attempts\<close> (\<open>attempts.py\<close>) through the trace
  (\<open>trace.py\<close>) and the cause keys (\<open>causes.py\<close>) to its report (\<open>report_attempt\<close> of \<open>report.py\<close>).
\<close>

section \<open>What the error of a cut attempt says\<close>

definition cut_text :: "seconds \<Rightarrow> string" where
  "cut_text t = ''Attempt timed out after '' @ fmt_g t @ ''s; the BLE stack stopped answering''"

lemma cut_error:
  assumes "e = with_cause (AttemptTimedOut t stage detail) c"
  shows "error_text e = Inr (cut_text t)" and "isinstance e AttemptTimedOutC"
    and "attr_stage e = stage" and "attr_detail e = detail"
  using assms
  by (cases stage; simp add: AttemptTimedOut_def error_text_def BleSessionError_def isinstance_def issubclass_eval cut_text_def)+

lemma cut_key:
  "isinstance e AttemptTimedOutC \<Longrightarrow> cause_key stage said (Some e)
    = Some (if stage = Some DISCONNECT then ''disconnect.timed_out'' else ''attempt_timed_out'')"
  by (simp add: cause_key_def Let_def)

text \<open>The trace is the authority, and the error was made from it.\<close>

lemma cut_failure:
  assumes "e = with_cause (AttemptTimedOut t (failed_primary tr) (failed_detail tr)) c"
  shows "failure tr (Some e) = (failed_primary tr, failed_detail tr)"
  using cut_error(3,4) [OF assms] by (auto simp: failure_def failed_detail_def split: option.split)

section \<open>The report of a cut attempt\<close>

definition cut_report :: "seconds \<Rightarrow> 'r attempt \<Rightarrow> report \<Rightarrow> bool" where
  "cut_report t a rep \<longleftrightarrow>
     classify rep = Failed
     \<and> dict_get rep ''error'' = Some (PyStr (cut_text t)) \<and> dict_get rep ''timed_out'' = Some (PyBool True)
     \<and> dict_get rep ''failed_stage'' = map_option PyStr (failed_primary (att_trace a))
     \<and> dict_get rep ''failed_detail'' = map_option PyStr (failed_detail (att_trace a))
     \<and> dict_get rep ''likely_cause_key'' = Some (PyStr
          (if failed_primary (att_trace a) = Some DISCONNECT then ''disconnect.timed_out'' else ''attempt_timed_out''))
     \<and> dict_get rep ''attempt'' = Some (PyInt (number a)) \<and> dict_get rep ''retrying'' = None"

lemma cut_attempt_report:
  assumes "reports t a" and "timed_out a" and "\<not> retrying a"
    and "set (dict_keys facts) \<inter> set REPORT_KEYS = {}" and "names_free (att_trace a)"
  shows "\<exists>rep. report_attempt a op facts cause noun total_tries st = (Inr rep, st) \<and> cut_report t a rep"
proof -
  let ?a = "attempt_args a op facts cause noun total_tries" and ?tr = "att_trace a"
  obtain e c where e: "att_error a = Some e" "skipped a = PyNone"
      "e = with_cause (AttemptTimedOut t (failed_primary ?tr) (failed_detail ?tr)) c"
    using assms(1,2) by (auto simp: reports_def split: option.splits)
  note err = cut_error(1,2) [OF e(3)]
  have stage: "report_stage ?a e = failed_primary ?tr" "report_detail ?a e = failed_detail ?tr"
    using cut_failure [OF e(3)] by (simp_all add: report_stage_def report_detail_def attempt_args_def)
  obtain s key where likely: "likely_cause ?a e (cut_text t) st = (Inr (Some s, Some key), st)"
      "cause_key (report_stage ?a e) (cut_text t) (Some e) = Some key"
    by (rule likely_cause_timed_out [OF err(2)])
  have exc: "r_exc ?a = Some e" using e(1) by (simp add: attempt_args_def)
  obtain rep st' where built: "build_report ?a st = (Inr rep, st')" using build_report_ok [OF exc err(1) likely(1)] by blast
  have "st' = st" using built timed_out_sentence_wins [OF exc err(2), of st, THEN conjunct2] by (metis snd_conv)
  with built have built: "build_report ?a st = (Inr rep, st)" by simp
  have free: "unreserved ?a" using assms(4,5) by (simp add: unreserved_def names_free_def attempt_args_def)
  note get = own_entries [OF built free exc err(1) likely(1)]
  have "classify rep = Failed" using reads_back [OF built free] e(1,2) assms(3) by (simp add: attempt_args_def)
  moreover have "key = (if failed_primary ?tr = Some DISCONNECT then ''disconnect.timed_out'' else ''attempt_timed_out'')"
    using likely(2) cut_key [OF err(2)] stage(1) by simp
  ultimately have "cut_report t a rep"
    using get [of "''error''"] get [of "''timed_out''"] get [of "''failed_stage''"] get [of "''failed_detail''"]
      get [of "''likely_cause_key''"] get [of "''attempt''"] get [of "''retrying''"] err(2) stage assms(3) e(2)
    by (simp add: cut_report_def REPORT_KEYS_def entries_get attempt_args_def only_if_def split: option.split)
  with built show ?thesis by (auto simp: report_attempt_def)
qed

text \<open>
  C4: An attempt that was cut at its bound is told as it was, from the loop to the report: the loop comes
  back with it, and its report builds whatever the integration's cause callback would do, since the
  callback is not asked.  The report is a failure that says \<open>timed_out\<close>, with the bound in its text, the
  stage and detail the trace stopped in, the number of the attempt, and the library's own cause key,
  which tells a cut during the close from a cut before it.
\<close>

theorem cut_attempt_reported:
  assumes "well_behaved p fn b" and "p_timeout p = Some t" and "1 \<le> p_max p"
    and "undisturbed w" and "p_lock p \<longrightarrow> unclaimed w" and "set (dict_keys facts) \<inter> set REPORT_KEYS = {}"
  shows "\<exists>a w'. run_attempts p fn w = (Return a, w') \<and>
    (timed_out a \<and> names_free (att_trace a) \<longrightarrow>
      (\<exists>rep. report_attempt a op facts cause noun total_tries st = (Inr rep, st) \<and> cut_report t a rep))"
proof -
  from loop_returns [OF assms(1-5)] obtain a w' where "run_attempts p fn w = (Return a, w')" "reports t a" "\<not> retrying a"
    by blast
  with cut_attempt_report [of t a facts op cause noun total_tries st] assms(6) show ?thesis by blast
qed

text \<open>The proxy dies in the transfer, and the integration's callback would only raise.\<close>

theorem cut_attempt_reported_witness:
  "\<exists>a w' rep. run_attempts two_tries wedged (idle ()) = (Return a, w')
     \<and> report_attempt a ''write'' [] (Some raising_callback) ''lamp'' (Some 2) empty_log = (Inr rep, empty_log)
     \<and> dict_get rep ''failed_stage'' = Some (PyStr TRANSFER) \<and> dict_get rep ''timed_out'' = Some (PyBool True)
     \<and> dict_get rep ''likely_cause_key'' = Some (PyStr ''attempt_timed_out'')"
proof -
  have "well_behaved two_tries wedged 0"
    by (simp add: well_behaved_def two_tries_def default_policy_def wedged_def polite_timed polite_park
        orderly_timed orderly_park immediate_def ret_def)
  moreover have "undisturbed (idle ())" "unclaimed (idle ())" "p_timeout two_tries = Some 30" "1 \<le> p_max two_tries"
    by (simp_all add: undisturbed_def unclaimed_def idle_def two_tries_def)
  ultimately obtain a w' where run: "run_attempts two_tries wedged (idle ()) = (Return a, w')" and
    rep: "timed_out a \<and> names_free (att_trace a) \<longrightarrow> (\<exists>rep. report_attempt a ''write'' [] (Some raising_callback) ''lamp'' (Some 2)
      empty_log = (Inr rep, empty_log) \<and> cut_report 30 a rep)"
    using cut_attempt_reported [of two_tries wedged 0 30 "idle ()" "[]" "''write''" "Some raising_callback" "''lamp''" "Some 2" empty_log]
    by auto
  have "case fst (run_attempts two_tries wedged (idle ())) of
      Return a \<Rightarrow> timed_out a \<and> failed_primary (att_trace a) = Some TRANSFER \<and> trace_facts (att_trace a) = [] | _ \<Rightarrow> False"
    by (simp add: run_attempts_run two_tries_def default_policy_def upto.simps one_attempt_def bind_def update_def
        with_lock_def acquire_def finally_do_def release_def guarded_attempt_def run_attempt_def wedged_run
        idle_def finish_attempt_def decide_retry_def default_retry_if_def snapshot_def new_attempt_def ret_def
        failed_primary_def new_trace_def timeout_error_def issubclass_eval Let_def)
  with run have "timed_out a" "failed_primary (att_trace a) = Some TRANSFER" "names_free (att_trace a)"
    by (simp_all add: names_free_def)
  with rep run show ?thesis by (auto simp: cut_report_def TRANSFER_def DISCONNECT_def)
qed

end
