(* ===== verification/SessionAttempts.thy ===== *)
theory SessionAttempts
  imports AttemptLaws NotificationLaws
begin

text \<open>
  The parts together: an exchange over notifications, in a session, in an attempt under its bound.  A
  coroutine is \<open>tame_within b\<close> if it ends within \<open>b\<close> seconds of the bound firing and raises ordinary
  exceptions or the cancellation; the session and the subscription add what their clean-up may take.
\<close>

section \<open>A session in an attempt\<close>

text \<open>What is passed to a session: a connector that opens the link to \<open>c\<close>, ends promptly when the task
  is cancelled and fails with printable exceptions, and a clean-up of stale connections of that kind.\<close>

definition opens :: "'e session_args \<Rightarrow> 'e client \<Rightarrow> bool" where
  "opens a c \<longleftrightarrow>
     (\<forall>nm cb. polite 0 (s_establish a nm cb) \<and> orderly (s_establish a nm cb)) \<and>
     (\<forall>nm cb v e v'. s_establish a nm cb v = (Raise e, v') \<longrightarrow> isinstance e ExceptionC \<longrightarrow> \<not> isl (exc_str e)) \<and>
     (\<forall>nm cb v c' v'. s_establish a nm cb v = (Return c', v') \<longrightarrow> c' = c) \<and>
     (\<forall>addr. polite 0 (s_close_stale_connections a addr) \<and> orderly (s_close_stale_connections a addr)) \<and>
     (s_client a = None \<or> s_client a = Some c)"

subsection \<open>The pieces\<close>

lemma orderly_pointwise: "(\<And>w. \<exists>g. orderly g \<and> f w = g w) \<Longrightarrow> orderly f"
  unfolding orderly_def by metis

lemma orderly_finally:
  assumes "orderly f" and "keeps frame f" and "orderly g" and "keeps frame g"
  shows "orderly (finally_do f g)"
  unfolding orderly_def
proof (intro allI impI)
  fix w e w'
  assume run: "finally_do f g w = (Raise e, w')"
  obtain r v where f: "f w = (r, v)" by (cases "f w")
  obtain x u where g: "g v = (x, u)" by (cases "g v")
  have c: "cancels w \<le> cancels v" "cancels v \<le> cancels u"
    using frame_cancels [OF keepsD [OF assms(2) f]] frame_cancels [OF keepsD [OF assms(4) g]] by simp_all
  from run f g have "(x = Return () \<and> r = Raise e \<or> x = Raise e) \<and> u = w'"
    by (cases r; cases x) (auto simp: finally_do_def)
  with orderlyD [OF assms(1), of w e v] orderlyD [OF assms(3), of v e u] f g c
  show "isinstance e ExceptionC \<or> isinstance e CancelledErrorC \<and> cancels w < cancels w'" by auto
qed

lemma polite_note: "polite 0 (note_live k v)" "orderly (note_live k v)"
  unfolding note_live_def by (rule polite_update, simp) (rule orderly_update)

lemma polite_close_link:
  fixes c :: "'e client"
  assumes "ble_client c"
  shows "polite 0 (close_link c t what)"
proof -
  have "polite 0 (case error_text e of Inl x \<Rightarrow> throw x :: (unit, 'e) ble | Inr s \<Rightarrow> note_live (what @ ''_error'') (PyStr s))"
    for e by (auto simp: polite_throw polite_note split: sum.split)
  from polite_catch [OF polite_bounded [OF ble_client.disconnect_polite [OF assms]], of 0 _ ordinary_exception, OF this]
  show ?thesis unfolding close_link_def using isinstance_exception_not_cancelled by simp
qed

lemma discreet_laws:
  assumes "\<And>w r w'. f w = (r, w') \<Longrightarrow> discreet b r w w'"
  shows "ends_within b f" "mild f" "orderly f"
proof -
  have d: "discreet b (fst (f w)) w (snd (f w))" for w using assms by (cases "f w") simp
  have "now (snd (f w)) \<le> now w + b \<and> fst (f w) \<noteq> Hang" for w using d [of w] by (auto simp: discreet_def)
  then show "ends_within b f" by (simp add: ends_within_def)
  have "isinstance e CancelledErrorC" if "fst (f w) = Raise e" for w e using d [of w] that by (auto simp: discreet_def)
  then show "mild f" by (simp add: mild_def)
  have "isinstance e CancelledErrorC \<and> cancels w < cancels w'" if "f w = (Raise e, w')" for w e w'
    using d [of w] that by (auto simp: discreet_def)
  then show "orderly f" by (auto simp: orderly_def)
qed

lemma close_up_laws:
  assumes "closing c (\<lambda>_. True)"
  shows "polite 0 (close_up a c h)" "ends_within (max 0 (s_disconnect_timeout_s a)) (close_up a c h)"
    "mild (close_up a c h)" "orderly (close_up a c h)"
proof -
  have d: "discreet (max 0 (s_disconnect_timeout_s a)) r w w'" if "close_up a c h w = (r, w')" for w r w'
    by (rule closing.close_up_discreet [OF assms TrueI that])
  show "ends_within (max 0 (s_disconnect_timeout_s a)) (close_up a c h)" "mild (close_up a c h)" "orderly (close_up a c h)"
    using discreet_laws [of "close_up a c h", OF d] by blast+
  have m: "polite 0 (note_mtu c)"
  proof (rule polite_pointwise)
    show "\<exists>g. polite 0 g \<and> note_mtu c w = g w" for w
      by (rule exI [of _ "case reported_mtu (c_mtu_size c w) of Inl e \<Rightarrow> throw e | Inr None \<Rightarrow> ret ()
            | Inr (Some m) \<Rightarrow> note_live ''mtu'' (PyInt m)"])
         (auto simp: note_mtu_def polite_throw polite_ret polite_note throw_def ret_def split: sum.split option.split)
  qed
  have "polite 0 (close_link c t what)" for t what by (rule polite_close_link) (use assms closing.axioms(1) in blast)
  with m show "polite 0 (close_up a c h)"
    unfolding close_up_def by (intro polite_seq) (auto simp: polite_ret polite_timed)
qed

lemma settle_loop_prompt:
  assumes "settle_loop c s d t0 w = (r, w')" and "still w i dl"
  shows "now w' \<le> max (now w) dl \<and> r \<noteq> Hang \<and> (still w' i dl \<or> was_cancelled r)"
  using assms
proof (induction c s d t0 w rule: settle_loop.induct)
  case (1 c s d t0 w)
  let ?left = "s - (now w - t0)"
  obtain x v where b: "poll d ?left w = (x, v)" by (cases "poll d ?left w")
  note q = promptD [OF politeD(3) [OF polite_bounded [OF polite_wait_event]] b [unfolded poll_def] "1.prems"(2)]
  let ?again = "case x of Return _ \<Rightarrow> True | Raise e \<Rightarrow> isinstance e TimeoutErrorC | Hang \<Rightarrow> False"
  have run: "(r, w') = (if ?left \<le> 0 then (Return (), w)
    else if ?again then (if link_lost c d v then (Raise (settle_dropped (now v - t0)), v) else settle_loop c s d t0 v)
    else (x, v))"
    using "1.prems"(1) b by (subst (asm) settle_loop.simps) (simp add: Let_def b cong: if_cong)
  have "\<not> isinstance e CancelledErrorC" if "isinstance e TimeoutErrorC" for e
    using isinstance_exception_not_cancelled isinstance_trans [OF that, of ExceptionC] by (simp add: issubclass_eval)
  with q have again: "?again \<Longrightarrow> still v i dl" by (cases x) auto
  show ?case
  proof (cases "?left \<le> 0 \<or> \<not> ?again \<or> link_lost c d v")
    case True
    with run q again "1.prems"(2) show ?thesis by (auto split: if_splits)
  next
    case False
    with run have "settle_loop c s d t0 v = (r, w')" by simp
    from "1.IH" [OF refl _ b [symmetric] refl _ _ this again] False q show ?thesis by auto
  qed
qed

lemma settle_laws: "polite 0 (settle c s d)" "orderly (settle c s d)"
proof -
  have "prompt 0 (settle c s d)"
    by (rule promptI) (use settle_loop_prompt in \<open>fastforce simp: settle_def\<close>)
  moreover have "keeps frame (settle c s d)"
    by (rule keeps_settle [OF frm.scoped_frame_axioms politeD(2) [OF polite_wait_event]])
  ultimately show "polite 0 (settle c s d)" by (simp add: polite_def)
  show "orderly (settle c s d)"
    unfolding orderly_def
  proof (intro allI impI)
    fix w e w'
    assume "settle c s d w = (Raise e, w')"
    from settle_loop_ends [OF this [unfolded settle_def]]
    show "isinstance e ExceptionC \<or> isinstance e CancelledErrorC \<and> cancels w < cancels w'"
      by (auto simp: settle_dropped_def issubclass_eval)
  qed
qed


text \<open>What the bound of an attempt needs of a coroutine: it ends within \<open>b\<close> once the bound fires, and
  raises ordinary exceptions or a cancellation somebody asked for.\<close>

definition tame_within :: "seconds \<Rightarrow> ('a, 'm) co \<Rightarrow> bool" where
  "tame_within b f \<longleftrightarrow> polite b f \<and> orderly f"

abbreviation tame :: "('a, 'm) co \<Rightarrow> bool" where
  "tame \<equiv> tame_within 0"

lemma tame_withinD:
  "tame_within b f \<Longrightarrow> polite b f" "tame_within b f \<Longrightarrow> orderly f" "tame_within b f \<Longrightarrow> keeps frame f"
  by (auto simp: tame_within_def dest: politeD(2))

lemma tame_ret: "tame (ret x)" and tame_update: "quiet f \<Longrightarrow> tame (update f)"
  by (simp_all add: tame_within_def polite_ret orderly_ret polite_update orderly_update)

lemma tame_throw: "isinstance e ExceptionC \<Longrightarrow> tame (throw e)"
  by (simp add: tame_within_def polite_throw orderly_throw)

lemma tame_sleep: "tame (sleep d)"
  by (simp add: tame_within_def polite_sleep orderly_sleep)

lemma tame_change: "tame (change f)"
  by (simp add: tame_within_def polite_change orderly_change)

lemma tame_within_bind: "tame f \<Longrightarrow> (\<And>x. tame_within b (g x)) \<Longrightarrow> tame_within b (bind f g)"
  unfolding tame_within_def using polite_bind [of 0 f b g] by (auto intro: orderly_bind politeD(2))

lemma tame_within_then: "tame_within b f \<Longrightarrow> (\<And>x. tame (g x)) \<Longrightarrow> tame_within b (bind f g)"
  unfolding tame_within_def using polite_bind [of b f 0 g] by (auto intro: orderly_bind politeD(2))

lemma tame_within_timed: "tame_within b f \<Longrightarrow> tame_within b (timed n f)"
  by (simp add: tame_within_def polite_timed orderly_timed)

lemma tame_within_mono: "tame_within b f \<Longrightarrow> b \<le> c \<Longrightarrow> tame_within c f"
  by (auto simp: tame_within_def intro: polite_mono)

lemma tame_within_pointwise: "(\<And>w. \<exists>g. tame_within b g \<and> f w = g w) \<Longrightarrow> tame_within b f"
  unfolding tame_within_def by (metis polite_pointwise orderly_pointwise)

lemma tame_bounded: "tame f \<Longrightarrow> tame (bounded t f)"
  by (auto simp: tame_within_def intro: polite_bounded orderly_bounded politeD(2))

text \<open>A clean-up that ends within \<open>b\<close> and raises nothing but a cancellation.\<close>

definition cleanup :: "seconds \<Rightarrow> (unit, 'm) co \<Rightarrow> bool" where
  "cleanup b g \<longleftrightarrow> polite 0 g \<and> ends_within b g \<and> mild g \<and> orderly g"

lemma tame_finally:
  assumes "tame_within b f" and "cleanup c g" and "0 \<le> c"
  shows "tame_within (b + c) (finally_do f g)"
proof -
  have g: "polite 0 g" "ends_within c g" "mild g" "orderly g" using assms(2) by (simp_all add: cleanup_def)
  from polite_finally [OF tame_withinD(1) [OF assms(1)] polite_mono [OF g(1) assms(3)] g(2,3)]
    orderly_finally [OF tame_withinD(2,3) [OF assms(1)] g(4) politeD(2) [OF g(1)]]
  show ?thesis by (simp add: tame_within_def)
qed

text \<open>\<open>try: f except BaseException: g; raise\<close> is a \<open>finally\<close> when it raises.\<close>

lemma tame_undo:
  assumes "tame_within b f" and "cleanup c g" and "0 \<le> c"
  shows "tame_within (b + c) (catch f (\<lambda>_. True) (\<lambda>e. bind g (\<lambda>_. throw e)))"
proof (rule tame_within_pointwise)
  fix w
  show "\<exists>h. tame_within (b + c) h \<and> catch f (\<lambda>_. True) (\<lambda>e. bind g (\<lambda>_. throw e)) w = h w"
  proof (cases "is_raise (fst (f w))")
    case True
    then obtain e v where "f w = (Raise e, v)" by (cases "f w"; cases "fst (f w)") auto
    then have "catch f (\<lambda>_. True) (\<lambda>e. bind g (\<lambda>_. throw e)) w = finally_do f g w"
      by (auto simp: catch_def bind_def finally_do_def throw_def split: prod.split outcome.split)
    with tame_finally [OF assms] show ?thesis by blast
  next
    case False
    then have "catch f (\<lambda>_. True) (\<lambda>e. bind g (\<lambda>_. throw e)) w = f w"
      by (cases "f w"; cases "fst (f w)") (auto simp: catch_def)
    with tame_within_mono [OF assms(1), of "b + c"] assms(3) show ?thesis by auto
  qed
qed

lemma tame_allocate: "tame allocate"
proof -
  have "\<exists>r m. allocate w = (r, w\<lparr>mem := m\<rparr>) \<and> r \<noteq> Hang" for w :: "'e shared world"
    unfolding allocate_def Let_def by blast
  then have "polite 0 allocate" by (rule polite_step)
  then show ?thesis by (simp add: tame_within_def orderly_def allocate_def Let_def)
qed

lemma tame_close_link:
  assumes "closing c (\<lambda>_. True)"
  shows "tame (close_link c t what)"
proof -
  have d: "discreet (max 0 t) r w w'" if "close_link c t what w = (r, w')" for w r w'
    by (rule closing.close_link_discreet [OF assms TrueI that])
  from discreet_laws(3) [of "close_link c t what", OF d] polite_close_link [OF closing.axioms(1) [OF assms]]
  show ?thesis by (simp add: tame_within_def)
qed

lemma tame_before_connect:
  assumes "opens a c" and "closing c (\<lambda>_. True)"
  shows "tame (before_connect a (s_client a))"
  unfolding before_connect_def
  by (intro tame_within_bind)
    (use assms tame_close_link [OF assms(2)] in \<open>auto simp: opens_def tame_ret tame_within_def [of 0 "s_close_stale_connections a _"]\<close>)

lemma tame_establish:
  assumes "opens a c"
  shows "tame (establish a d)"
proof -
  let ?address = "dev_address (s_device a)"
  let ?nm = "case s_name a of Some n \<Rightarrow> if n \<noteq> [] then n else ?address | None \<Rightarrow> ?address"
  let ?f = "s_establish a ?nm (d # s_callback a)"
  let ?t = "\<lambda>e. \<not> isinstance e ConnectFailedC \<and> isinstance e ExceptionC"
  have f: "polite 0 ?f" "orderly ?f" using assms by (simp_all add: opens_def)
  have p: "polite 0 (establish a d)"
    using polite_catch [OF f(1), of 0 "\<lambda>e. throw (connect_error ?address e)" ?t] isinstance_exception_not_cancelled
    by (simp add: establish_def Let_def polite_throw)
  have "orderly (establish a d)"
    unfolding orderly_def
  proof (intro allI impI)
    fix w e w'
    assume run: "establish a d w = (Raise e, w')"
    obtain r v where b: "?f w = (r, v)" by (cases "?f w")
    show "isinstance e ExceptionC \<or> isinstance e CancelledErrorC \<and> cancels w < cancels w'"
    proof (cases "\<exists>x. r = Raise x \<and> ?t x")
      case True
      then obtain x where x: "r = Raise x" "?t x" by blast
      with assms b have "\<not> isl (exc_str x)" unfolding opens_def by blast
      then obtain m where "exc_str x = Inr m" by (cases "exc_str x") auto
      then have "isinstance (connect_error ?address x) ConnectFailedC"
        by (simp add: connect_error_def isinstance_def issubclass_eval)
      then have "isinstance (connect_error ?address x) ExceptionC"
        by (rule isinstance_trans) (simp add: issubclass_eval)
      moreover have "e = connect_error ?address x"
        using run b x by (simp add: establish_def Let_def catch_def throw_def)
      ultimately show ?thesis by simp
    next
      case False
      with run b have "?f w = (Raise e, w')"
        by (cases r) (auto simp: establish_def Let_def catch_def)
      from orderlyD [OF f(2) this] show ?thesis .
    qed
  qed
  with p show ?thesis by (simp add: tame_within_def)
qed

lemma tame_opened: "tame (opened a d c)"
  unfolding opened_def set_link_def watch_drops_def
  by (intro tame_within_bind tame_change tame_update) (auto simp: tame_ret tame_change tame_within_def [of 0 "settle c _ _"] settle_laws)

subsection \<open>The session\<close>

definition connect_phase :: "'e session_args \<Rightarrow> nat \<Rightarrow> (unit, 'e) ble" where
  "connect_phase a d =
     timed CONNECT (bind (bind (before_connect a (s_client a)) (\<lambda>_. establish a d)) (opened a d))"

lemma connect_phase_run:
  assumes "timed_var CONNECT (connecting a d (s_client a)) w = ((r, x), w')"
  shows "connect_phase a d w = (r, w')"
proof -
  let ?w = "w\<lparr>live := timed_enter CONNECT (live w)\<rparr>"
  obtain y z v where c: "connecting a d (s_client a) ?w = ((y, z), v)" by (cases "connecting a d (s_client a) ?w") auto
  then have "bind (bind (before_connect a (s_client a)) (\<lambda>_. establish a d)) (opened a d) ?w = (y, v)"
    by (auto simp: connecting_def bind_def [of _ "opened a d"] split: prod.splits outcome.splits)
  with assms c show ?thesis by (cases y) (auto simp: timed_var_def connect_phase_def timed_def)
qed

lemma tame_finally_close:
  assumes "tame_within b f" and "closing c (\<lambda>_. True)"
  shows "tame_within (b + max 0 (s_disconnect_timeout_s a)) (finally_do f (close_up a c h))"
  by (rule tame_finally [OF assms(1)]) (simp_all add: cleanup_def close_up_laws [OF assms(2)])

lemma connecting_opens:
  assumes "opens a c" and "timed_var CONNECT (connecting a d (s_client a)) w = ((r, Some c'), w')"
  shows "c' = c"
proof -
  from timed_var_run [OF assms(2)] obtain u where
    "connecting a d (s_client a) (w\<lparr>live := timed_enter CONNECT (live w)\<rparr>) = ((r, Some c'), u)" .
  then obtain v v' nm where "s_establish a nm (d # s_callback a) v = (Return c', v')"
    by (auto simp: connecting_def bind_def establish_def Let_def catch_def throw_def
        split: prod.splits outcome.splits if_splits)
  with assms(1) show ?thesis unfolding opens_def by blast
qed

lemma tame_open_session:
  fixes body :: "'e client \<Rightarrow> ('r, 'e) ble"
  assumes "opens a c" and "closing c (\<lambda>_. True)" and "tame_within b (body c)"
  shows "tame_within (b + max 0 (s_disconnect_timeout_s a)) (open_session a d (s_client a) body)"
proof (rule tame_within_pointwise)
  fix w
  have conn: "tame (connect_phase a d)"
    unfolding connect_phase_def
    by (intro tame_within_timed tame_within_bind tame_before_connect [OF assms(1,2)] tame_establish [OF assms(1)] tame_opened)
  have b: "0 \<le> b" using assms(3) politeD(1) by (auto simp: tame_within_def)
  let ?b = "b + max 0 (s_disconnect_timeout_s a)"
  obtain r x w' where t: "timed_var CONNECT (connecting a d (s_client a)) w = ((r, x), w')"
    by (cases "timed_var CONNECT (connecting a d (s_client a)) w") auto
  note run = connect_phase_run [OF t]
  note fin = tame_finally_close [OF _ assms(2)]
  let ?never = "\<lambda>_ :: unit. throw (plain_exc AssertionErrorC []) :: ('r, 'e) ble"
  have never: "tame (?never u)" for u by (rule tame_throw) (simp add: issubclass_eval)
  show "\<exists>g. tame_within ?b g \<and> open_session a d (s_client a) body w = g w"
  proof (cases "x = None \<or> r = Hang")
    case True
    with t run have "open_session a d (s_client a) body w = bind (connect_phase a d) ?never w"
      by (cases r) (auto simp: open_session_def bind_def throw_def)
    with tame_within_mono [OF tame_within_bind [OF conn never], of ?b] b show ?thesis by auto
  next
    case False
    with connecting_opens [OF assms(1)] t have x: "x = Some c" by (cases x) blast+
    show ?thesis
    proof (cases r)
      case (Return u)
      let ?g = "bind (connect_phase a d) (\<lambda>_. finally_do (timed SESSION (body c)) (close_up a c True))"
      have "tame_within ?b ?g" by (intro tame_within_bind conn fin tame_within_timed assms(3))
      moreover have "open_session a d (s_client a) body w = ?g w"
        using x Return t run by (simp add: open_session_def bind_def)
      ultimately show ?thesis by blast
    next
      case (Raise e)
      let ?g = "bind (finally_do (connect_phase a d) (close_up a c False)) ?never"
      have "tame_within ?b ?g"
        by (rule tame_within_mono [OF tame_within_then [OF fin [OF conn] never]]) (use b in simp)
      moreover have "open_session a d (s_client a) body w = ?g w"
        using x Raise t run
        by (auto simp: open_session_def bind_def finally_do_def throw_def split: prod.split outcome.split)
      ultimately show ?thesis by blast
    qed (use False in simp)
  qed
qed

lemma tame_session:
  fixes body :: "'e client \<Rightarrow> ('r, 'e) ble"
  assumes "opens a c" and "closing c (\<lambda>_. True)" and "tame_within b (body c)"
  shows "tame_within (b + max 0 (s_disconnect_timeout_s a)) (ble_session a body)"
proof (rule tame_within_pointwise)
  fix w
  let ?b = "b + max 0 (s_disconnect_timeout_s a)"
  show "\<exists>g. tame_within ?b g \<and> ble_session a body w = g w"
  proof (cases "still_up (s_client a) w")
    case True
    then have "s_client a \<noteq> None" by (cases "s_client a") (simp_all add: still_up_def)
    with assms(1) True have up: "s_client a = Some c" "still_up (Some c) w" unfolding opens_def by auto
    let ?g = "bind allocate (\<lambda>_. reuse_session a c body)"
    have "tame_within ?b (reuse_session a c body)"
      unfolding reuse_session_def note_live_def set_link_def
      by (intro tame_finally_close [OF _ assms(2)] tame_within_bind tame_within_timed tame_update assms(3)) simp_all
    then have "tame_within ?b ?g" by (intro tame_within_bind tame_allocate)
    moreover have "ble_session a body w = ?g w"
      using up by (simp add: ble_session_def bind_def split: prod.split outcome.split)
    ultimately show ?thesis by blast
  next
    case False
    let ?g = "bind allocate (\<lambda>d. open_session a d (s_client a) body)"
    have "tame_within ?b ?g"
      by (intro tame_within_bind tame_allocate tame_open_session [where body = body, OF assms])
    moreover have "ble_session a body w = ?g w"
      using False by (cases "s_client a") (simp_all add: ble_session_def bind_def split: prod.split outcome.split)
    ultimately show ?thesis by blast
  qed
qed

section \<open>An exchange in a session\<close>

text \<open>A client whose calls raise ordinary exceptions or the cancellation, a refused subscription a
  printable one.\<close>

definition calm :: "'e client \<Rightarrow> bool" where
  "calm c \<longleftrightarrow>
     ble_client c \<and> (\<forall>ch h. orderly (c_start_notify c ch h)) \<and> (\<forall>ch. orderly (c_stop_notify c ch))
     \<and> (\<forall>ch d r. orderly (c_write c ch d r)) \<and> (\<forall>f. c_get_services c = Some f \<longrightarrow> orderly f)
     \<and> (\<forall>ch h w e w'. c_start_notify c ch h w = (Raise e, w') \<longrightarrow> isinstance e ExceptionC \<longrightarrow> \<not> isl (exc_str e))"

lemma calmD:
  assumes "calm c"
  shows "tame (c_start_notify c ch h)" "tame (c_stop_notify c ch)" "tame (c_write c ch d r)"
    "c_get_services c = Some f \<Longrightarrow> tame f" "ble_client c"
    "c_start_notify c ch h w = (Raise e, w') \<Longrightarrow> isinstance e ExceptionC \<Longrightarrow> \<exists>s. exc_str e = Inr s"
proof -
  show c: "ble_client c" using assms by (simp add: calm_def)
  show "tame (c_start_notify c ch h)" "tame (c_stop_notify c ch)" "tame (c_write c ch d r)"
    using assms ble_client.start_polite [OF c] ble_client.stop_polite [OF c] ble_client.write_polite [OF c]
    by (simp_all add: tame_within_def calm_def)
  show "tame f" if "c_get_services c = Some f"
    using assms ble_client.services_polite [OF c that] that by (simp add: tame_within_def calm_def)
  show "\<exists>s. exc_str e = Inr s" if "c_start_notify c ch h w = (Raise e, w')" "isinstance e ExceptionC"
  proof -
    have "\<not> isl (exc_str e)" using assms that unfolding calm_def by blast
    then show ?thesis by (cases "exc_str e") simp_all
  qed
qed

lemma tame_catch_all: "tame f \<Longrightarrow> tame (catch f ordinary_exception (\<lambda>_. ret x))"
  by (auto simp: tame_within_def intro: polite_catch_all orderly_catch orderly_ret politeD(2))

lemma cleanup_stop:
  assumes "calm c"
  shows "cleanup STOP_NOTIFY_TIMEOUT_S (stop_notify_best_effort c ch None)"
proof -
  note quiet = ble_client.stop_notify_quiet [OF calmD(5) [OF assms], where t = None and ch = ch]
  have "tame (stop_notify_best_effort c ch None)"
  proof (rule tame_within_pointwise)
    let ?g = "catch (bounded (Some STOP_NOTIFY_TIMEOUT_S) (c_stop_notify c ch)) ordinary_exception (\<lambda>_. ret ())"
    have g: "tame ?g" by (intro tame_catch_all tame_bounded calmD(2) [OF assms])
    show "\<exists>g. tame g \<and> stop_notify_best_effort c ch None w = g w" for w
      by (rule exI [of _ "if c_connected c w then ?g else ret ()"])
        (use g in \<open>simp add: stop_notify_best_effort_def ret_def tame_ret\<close>)
  qed
  then have o': "orderly (stop_notify_best_effort c ch None)" by (rule tame_withinD)
  have "mild (stop_notify_best_effort c ch None)"
    unfolding mild_def
  proof (intro allI impI)
    fix w e
    assume "fst (stop_notify_best_effort c ch None w) = Raise e"
    then obtain w' where run: "stop_notify_best_effort c ch None w = (Raise e, w')"
      by (cases "stop_notify_best_effort c ch None w") simp
    from orderlyD [OF o' run] quiet(2) run show "isinstance e CancelledErrorC" unfolding muffled_def by blast
  qed
  with quiet o' show ?thesis by (simp add: cleanup_def STOP_NOTIFY_TIMEOUT_S_def)
qed

lemma tame_recover: "calm c \<Longrightarrow> tame (recover c ch stale n)"
  unfolding recover_def refresh_services_def
  by (intro tame_within_bind tame_sleep)
    (auto simp: tame_ret split: option.split intro!: tame_catch_all tame_bounded calmD)

lemma orderly_subscribe_step:
  assumes "calm c" and "orderly (subscribe_loop c ch h n ns)"
  shows "orderly (subscribe_loop c ch h n (m # ns))"
  unfolding orderly_def
proof (intro allI impI)
  fix w e w'
  assume run: "subscribe_loop c ch h n (m # ns) w = (Raise e, w')"
  obtain r v where f: "c_start_notify c ch h w = (r, v)" by (cases "c_start_notify c ch h w")
  have c: "cancels w \<le> cancels v"
    using frame_cancels [OF keepsD [OF tame_withinD(3) [OF calmD(1) [OF assms(1)]] f]] .
  note start = orderlyD [OF tame_withinD(2) [OF calmD(1) [OF assms(1)]]]
  have again: "orderly (bind (recover c ch stale m) (\<lambda>_. subscribe_loop c ch h n ns))" for stale
    using tame_recover [OF assms(1)] assms(2) by (intro orderly_bind) (auto dest: tame_withinD)
  from run f obtain e0 where r: "r = Raise e0" by (cases r) auto
  show "isinstance e ExceptionC \<or> isinstance e CancelledErrorC \<and> cancels w < cancels w'"
  proof (cases "isinstance e0 BleakErrorC")
    case False
    with run f r have "e = e0" "w' = v" by simp_all
    with start f r show ?thesis by blast
  next
    case True
    then have "isinstance e0 ExceptionC" by (rule isinstance_trans) (simp add: issubclass_eval)
    with calmD(6) [OF assms(1)] f r obtain s where s: "exc_str e0 = Inr s" by blast
    let ?stale = "any_in STALE_SUBSCRIPTION (lower s)"
    have "(Raise e0, v) = (Raise e, w')
        \<or> bind (recover c ch ?stale m) (\<lambda>_. subscribe_loop c ch h n ns) v = (Raise e, w')"
      using run f r True s by (auto simp: Let_def split: if_splits)
    with start f r orderlyD [OF again] c show ?thesis by fastforce
  qed
qed

lemma tame_start_with_recovery:
  assumes "calm c"
  shows "tame (start_notify_with_recovery c ch h n)"
proof -
  have "orderly (subscribe_loop c ch h n ns)" for ns
    by (induction ns) (simp_all add: orderly_ret orderly_subscribe_step [OF assms] del: subscribe_loop.simps(2))
  with ble_client.recovery_polite [OF calmD(5) [OF assms]] show ?thesis
    by (auto simp: tame_within_def start_notify_with_recovery_def orderly_throw issubclass_eval isinstance_def)
qed

text \<open>Unsubscribing may take its own bound, whether the exchange or the subscription's settle is cut.\<close>

lemma tame_with_notifications:
  fixes n :: "'e notif" and body :: "('r, 'e) ble"
  assumes "calm (n_client n)" and "tame body"
  shows "tame_within STOP_NOTIFY_TIMEOUT_S (with_notifications n body)"
proof -
  let ?stop = "stop_notifications n"
  have stop: "cleanup STOP_NOTIFY_TIMEOUT_S ?stop" unfolding stop_notifications_def by (rule cleanup_stop [OF assms(1)])
  have pos: "0 \<le> STOP_NOTIFY_TIMEOUT_S" by (simp add: STOP_NOTIFY_TIMEOUT_S_def)
  let ?sub = "if n_recover n then start_notify_with_recovery (n_client n) (n_char n) (n_queue n) NOTIFY_ATTEMPTS
      else c_start_notify (n_client n) (n_char n) (n_queue n)"
  let ?settle = "if n_settle n \<noteq> 0 then sleep (n_settle n) else ret ()"
  have sub: "tame ?sub" using tame_start_with_recovery [OF assms(1)] calmD(1) [OF assms(1)] by simp
  have tame_settle: "tame ?settle" by (simp add: tame_sleep tame_ret)
  from tame_undo [OF this stop pos]
  have settle: "tame_within STOP_NOTIFY_TIMEOUT_S (catch ?settle (\<lambda>_. True) (\<lambda>e. bind ?stop (\<lambda>_. throw e)))" by simp
  from tame_finally [OF assms(2) stop pos]
  have body: "tame_within STOP_NOTIFY_TIMEOUT_S (finally_do body ?stop)" by simp
  show ?thesis
  proof (rule tame_within_pointwise)
    fix w
    show "\<exists>g. tame_within STOP_NOTIFY_TIMEOUT_S g \<and> with_notifications n body w = g w"
    proof (cases "\<exists>u. fst (start_notifications n w) = Return u")
      case True
      then obtain v where run: "start_notifications n w = (Return (), v)" by (cases "start_notifications n w") auto
      then obtain v1 where 1: "?sub w = (Return (), v1)"
        and 2: "catch ?settle (\<lambda>_. True) (\<lambda>e. bind ?stop (\<lambda>_. throw e)) v1 = (Return (), v)"
        by (auto simp: start_notifications_def bind_def split: prod.splits outcome.splits)
      from 2 have "?settle v1 = (Return (), v)"
        by (auto simp: catch_def bind_def throw_def split: prod.splits outcome.splits)
      with 1 have "bind ?sub (\<lambda>_. ?settle) w = (Return (), v)" by (simp add: bind_def)
      with run have "with_notifications n body w = bind (bind ?sub (\<lambda>_. ?settle)) (\<lambda>_. finally_do body ?stop) w"
        by (simp add: with_notifications_def bind_def)
      moreover have "tame (bind ?sub (\<lambda>_. ?settle))" by (intro tame_within_bind sub tame_settle)
      ultimately show ?thesis using tame_within_bind [OF _ body] by blast
    next
      case False
      let ?never = "\<lambda>_ :: unit. throw (plain_exc AssertionErrorC []) :: ('r, 'e) ble"
      have "tame (?never u)" for u by (rule tame_throw) (simp add: issubclass_eval)
      moreover have "tame_within STOP_NOTIFY_TIMEOUT_S (start_notifications n)"
        unfolding start_notifications_def by (intro tame_within_bind sub settle)
      moreover have "with_notifications n body w = bind (start_notifications n) ?never w"
        using False by (auto simp: with_notifications_def bind_def split: prod.split outcome.split)
      ultimately show ?thesis using tame_within_then [of _ "start_notifications n" ?never] by blast
    qed
  qed
qed


section \<open>The waits\<close>

lemma notification_timeout_ordinary: "isinstance (with_cause (NotificationTimeout t step m) e) ExceptionC"
  by (simp add: isinstance_def issubclass_eval)

lemma timeout_not_cancelled: "isinstance e TimeoutErrorC \<Longrightarrow> \<not> isinstance e CancelledErrorC"
  using isinstance_exception_not_cancelled isinstance_trans [of e TimeoutErrorC ExceptionC] by (simp add: issubclass_eval)

lemma tame_next_reply: "tame (next_reply n t step)"
proof -
  have f: "polite 0 (bounded (Some t) (next_frame n step))" "orderly (bounded (Some t) (next_frame n step))"
    using polite_bounded [OF polite_next_frame] orderly_bounded [OF orderly_next_frame politeD(2) [OF polite_next_frame]]
    by blast+
  have h: "tame (throw (with_cause (NotificationTimeout t step None) e))" for e
    by (rule tame_throw [OF notification_timeout_ordinary])
  have "polite 0 (next_reply n t step)"
    unfolding next_reply_def
    using polite_catch [OF f(1) tame_withinD(1) [OF h], of "\<lambda>e. isinstance e TimeoutErrorC"] timeout_not_cancelled by simp
  moreover have "orderly (next_reply n t step)"
    unfolding next_reply_def by (rule orderly_catch [OF f(2) politeD(2) [OF f(1)] tame_withinD(2) [OF h]])
  ultimately show ?thesis by (simp add: tame_within_def)
qed

text \<open>A bound whose TimeoutError is renamed is still a bound.\<close>

lemma polite_renaming:
  assumes "polite 0 f" and "\<And>w. \<exists>y. bounded t f w = (y, snd (g w)) \<and>
    (fst (g w) = y \<or> fst (g w) \<noteq> Hang \<and> (\<exists>e. y = Raise e \<and> isinstance e TimeoutErrorC))"
  shows "polite 0 g"
proof -
  have b: "polite 0 (bounded t f)" by (rule polite_bounded [OF assms(1)])
  have "keeps frame g"
  proof (rule keepsI)
    fix w
    from assms(2) [of w] obtain y where "bounded t f w = (y, snd (g w))" by blast
    from keepsD [OF politeD(2) [OF b] this] show "frame w (snd (g w))" .
  qed
  moreover have "prompt 0 g"
  proof (rule promptI)
    fix w r w' i d
    assume run: "g w = (r, w')" and s: "still w i d"
    from assms(2) [of w] run obtain y where y: "bounded t f w = (y, w')"
      "r = y \<or> r \<noteq> Hang \<and> (\<exists>e. y = Raise e \<and> isinstance e TimeoutErrorC)" by auto
    from promptD [OF politeD(3) [OF b] y(1) s] y(2) timeout_not_cancelled
    show "now w' \<le> max (now w) d + 0 \<and> r \<noteq> Hang \<and> (still w' i d \<or> was_cancelled r)" by auto
  qed
  ultimately show ?thesis by (simp add: polite_def)
qed

lemma tame_wait_for:
  assumes "\<And>x e. accept x = Inl e \<Longrightarrow> isinstance e ExceptionC"
  shows "tame (wait_for n accept t step)"
proof -
  have "polite 0 (wait_for n accept t step)"
  proof (rule polite_renaming [OF polite_accept_loop, where t = "Some t"])
    fix w
    obtain y ex v where run: "with_timeout (Some t) (accept_loop n step accept) w = ((y, ex), v)"
      by (cases "with_timeout (Some t) (accept_loop n step accept) w") auto
    show "\<exists>y. bounded (Some t) (accept_loop n step accept) w = (y, snd (wait_for n accept t step w)) \<and>
        (fst (wait_for n accept t step w) = y
         \<or> fst (wait_for n accept t step w) \<noteq> Hang \<and> (\<exists>e. y = Raise e \<and> isinstance e TimeoutErrorC))"
      using run wait_for_run [OF run] by (cases y) (auto simp: bounded_def)
  qed
  moreover have "orderly (wait_for n accept t step)"
    unfolding orderly_def
  proof (intro allI impI)
    fix w e w'
    assume run: "wait_for n accept t step w = (Raise e, w')"
    have "picks n accept w (Raise e) w' (last_wait_fails n step t w w')" by (rule wait_for_picks [OF assms run])
    then have "(\<exists>x. accept x = Inl e) \<or> (\<exists>v. last_wait_fails n step t w w' v e)" by (auto simp: picks_def)
    then show "isinstance e ExceptionC \<or> isinstance e CancelledErrorC \<and> cancels w < cancels w'"
      using assms
      by (auto simp: last_wait_fails_def timed_out_def notification_timeout_ordinary cancelled_error_def issubclass_eval)
  qed
  ultimately show ?thesis by (simp add: tame_within_def)
qed

lemma orderly_raise_if_dropped: "orderly (raise_if_dropped d step phase)"
  by (auto simp: orderly_def raise_if_dropped_cases issubclass_eval split: if_splits)

lemma tame_guarded_write:
  assumes "calm c"
  shows "tame (guarded_write c ch data step r t dropped phase)"
proof -
  have "orderly (bounded_write c ch data step r t d)" for d
    unfolding orderly_def
  proof (intro allI impI)
    fix w e w'
    assume b: "bounded_write c ch data step r t d w = (Raise e, w')"
    obtain y ex v where run: "with_timeout t (c_write c ch data r) w = ((y, ex), v)"
      by (cases "with_timeout t (c_write c ch data r) w") auto
    have "tame (bounded t (c_write c ch data r))" by (intro tame_bounded calmD(3) [OF assms])
    then have "orderly (bounded t (c_write c ch data r))" by (rule tame_withinD)
    from orderlyD [OF this, of w _ v] run bounded_write_run [OF run, of step d] b
    show "isinstance e ExceptionC \<or> isinstance e CancelledErrorC \<and> cancels w < cancels w'"
      by (cases y) (auto simp: bounded_def isinstance_def issubclass_eval split: if_splits option.splits)
  qed
  then have "orderly (\<lambda>w. guarded_write c ch data step r t dropped phase w)"
    by (intro orderly_pointwise) (auto simp: guarded_write_def Let_def
        intro!: exI [of _ "bind (raise_if_dropped _ step phase) (\<lambda>_. bounded_write c ch data step r t _)"]
          orderly_bind orderly_raise_if_dropped politeD(2) [OF polite_raise_if_dropped])
  with ble_client.guarded_write_polite [OF calmD(5) [OF assms]] show ?thesis by (simp add: tame_within_def)
qed

lemma tame_request:
  assumes "calm (n_client n)" and "\<And>f x e. accept = Some f \<Longrightarrow> f x = Inl e \<Longrightarrow> isinstance e ExceptionC"
  shows "tame (request n ch data t step wt r accept pace)"
proof -
  have "\<exists>r m. clear_frames n w = (r, w\<lparr>mem := m\<rparr>) \<and> r \<noteq> Hang" for w
    unfolding clear_frames_def left_with_def by blast
  then have "tame (clear_frames n)"
    by (simp add: tame_within_def polite_step orderly_def clear_frames_def)
  moreover have "tame (raise_if_dropped d step phase)" for d phase
    by (simp add: tame_within_def polite_raise_if_dropped orderly_raise_if_dropped)
  moreover have "tame (case accept of None \<Rightarrow> next_reply n t step | Some f \<Rightarrow> wait_for n f t step)"
    using assms(2) by (auto simp: tame_next_reply intro!: tame_wait_for split: option.split)
  ultimately show ?thesis
    unfolding request_def by (intro tame_within_bind tame_guarded_write [OF assms(1)]) (simp_all add: tame_sleep tame_ret)
qed

end
