(* ===== verification/Refusals.thy ===== *)
theory Refusals
  imports SessionAttempts ReportLaws
begin

text \<open>
  A connect that is refused, followed through \<open>session.py\<close>, \<open>attempts.py\<close>, \<open>trace.py\<close>, \<open>causes.py\<close> and
  \<open>report.py\<close>: what the session raises, what the retry loop makes of it, and what the report says.
\<close>

section \<open>The session\<close>

text \<open>The third party's connect fails with \<open>e\<close> without waiting; it may change the shared memory.\<close>

definition refuses_at_once :: "'e session_args \<Rightarrow> exc \<Rightarrow> bool" where
  "refuses_at_once a e \<longleftrightarrow> (\<forall>nm cb v. \<exists>m. s_establish a nm cb v = (Raise e, v\<lparr>mem := m\<rparr>))"

text \<open>What the session raises then, and the trace it leaves.\<close>

definition refusal :: "'e session_args \<Rightarrow> exc \<Rightarrow> exc" where
  "refusal a e = (if isinstance e ConnectFailedC then e else connect_error (dev_address (s_device a)) e)"

definition refused_trace :: "stage_map option \<Rightarrow> session_trace" where
  "refused_trace sm = timed_exit CONNECT True 0 (timed_enter CONNECT (new_trace sm))"

definition always_refused :: "'e session_args \<Rightarrow> exc \<Rightarrow> bool" where
  "always_refused a e \<longleftrightarrow>
     refuses_at_once a e \<and> isinstance e ExceptionC \<and> isl (exc_str e) = False \<and> s_client a = None \<and> \<not> s_close_stale a"

lemma refusal_exception: "always_refused a e \<Longrightarrow> isinstance (refusal a e) ExceptionC"
  by (cases "exc_str e") (auto simp: always_refused_def refusal_def connect_error_def isinstance_def issubclass_eval ConnectFailed_def)

lemma session_refused:
  assumes "always_refused a e"
  shows "\<exists>m. ble_session a body w
    = (Raise (refusal a e), w\<lparr>mem := m, live := timed_exit CONNECT True 0 (timed_enter CONNECT (live w))\<rparr>)"
proof -
  note a = assms [unfolded always_refused_def]
  obtain k where v: "snd (allocate w) = w\<lparr>mem := k\<rparr>" by (simp add: allocate_def Let_def)
  let ?u = "w\<lparr>mem := k, live := timed_enter CONNECT (live w)\<rparr>"
  let ?nm = "case s_name a of Some n \<Rightarrow> if n \<noteq> [] then n else dev_address (s_device a) | None \<Rightarrow> dev_address (s_device a)"
  obtain m where "s_establish a ?nm (fresh (mem w) # s_callback a) ?u = (Raise e, ?u\<lparr>mem := m\<rparr>)"
    using a unfolding refuses_at_once_def by blast
  with a have "establish a (fresh (mem w)) ?u = (Raise (refusal a e), ?u\<lparr>mem := m\<rparr>)"
    by (auto simp: establish_def Let_def catch_def throw_def refusal_def)
  with a v show ?thesis
    by (intro exI [of _ m]) (simp add: ble_session_unfold Let_def open_session_def timed_var_def connecting_def
        before_connect_def bind_def ret_def)
qed

text \<open>An integration that leaves the policy to the library: no guard, no callback, the default retry rule.\<close>

definition left_to_default :: "('r, 'm) policy \<Rightarrow> bool" where
  "left_to_default p \<longleftrightarrow>
     p_guard p = None \<and> p_on_attempt p = None \<and> p_retry_if p = (\<lambda>a. ret (default_retry_if a))"

definition refused_attempt :: "('r, 'm) policy \<Rightarrow> exc \<Rightarrow> int \<Rightarrow> 'r attempt \<Rightarrow> bool" where
  "refused_attempt p x n att \<longleftrightarrow>
     number att = n \<and> att_trace att = refused_trace (p_stage_map p) \<and> att_error att = Some x
     \<and> skipped att = PyNone \<and> retrying att = (attr_retryable x \<and> n < p_max p)"

lemma refused_attempt_runs:
  assumes "always_refused a e" and "left_to_default p" and "ready_to_try p w"
  shows "\<exists>att m. one_attempt p (\<lambda>_. ble_session a body) n w
      = (Return att, w\<lparr>mem := m, live := refused_trace (p_stage_map p)\<rparr>)
    \<and> refused_attempt p (refusal a e) n att"
proof -
  let ?L = "refused_trace (p_stage_map p)" and ?x = "refusal a e"
  have run: "\<exists>m. run_attempt t (\<lambda>_. ble_session a body) n v
      = (Return ((new_attempt n ?L (scratch v))\<lparr>att_error := Some ?x\<rparr>), v\<lparr>mem := m, live := ?L\<rparr>)"
    if "live v = new_trace (p_stage_map p)" for v t
  proof -
    obtain m where "ble_session a body (push_scope t v)
        = (Raise ?x, (push_scope t v)\<lparr>mem := m, live := timed_exit CONNECT True 0 (timed_enter CONNECT (live (push_scope t v)))\<rparr>)"
      using session_refused [OF assms(1)] by blast
    then show ?thesis using refusal_exception [OF assms(1)] that
      by (intro exI [of _ m])
        (simp add: run_attempt_def with_timeout_def push_scope_def pop_scope_def scope_outcome_def refused_trace_def)
  qed
  let ?w = "w\<lparr>live := new_trace (p_stage_map p)\<rparr>"
  have "\<exists>m. with_lock (p_lock p) (guarded_attempt p (\<lambda>_. ble_session a body) n) ?w
      = (Return ((new_attempt n ?L (scratch w))\<lparr>att_error := Some ?x\<rparr>), w\<lparr>mem := m, live := ?L\<rparr>)"
  proof (cases "p_lock p")
    case True
    then have "holder w = Nobody" using assms(3) by (simp add: ready_to_try_def unclaimed_def)
    moreover from run [of "?w\<lparr>holder := Me\<rparr>" "p_timeout p"] obtain m where
      "run_attempt (p_timeout p) (\<lambda>_. ble_session a body) n (?w\<lparr>holder := Me\<rparr>)
        = (Return ((new_attempt n ?L (scratch w))\<lparr>att_error := Some ?x\<rparr>), w\<lparr>holder := Me, mem := m, live := ?L\<rparr>)" by auto
    ultimately show ?thesis using True assms(2)
      by (intro exI [of _ m]) (simp add: with_lock_def bind_def acquire_def finally_do_def release_def guarded_attempt_def
          left_to_default_def)
  next
    case False
    with run [of ?w "p_timeout p"] assms(2) show ?thesis by (auto simp: with_lock_def guarded_attempt_def left_to_default_def)
  qed
  then show ?thesis using assms(2)
    by (auto simp: one_attempt_def bind_def update_def finish_attempt_def decide_retry_def default_retry_if_def
        left_to_default_def snapshot_def new_attempt_def ret_def refused_attempt_def Let_def)
qed

lemma ready_after_attempt: "ready_to_try p w \<Longrightarrow> ready_to_try p (w\<lparr>mem := m, live := l\<rparr>)"
  by (simp add: ready_to_try_def undisturbed_def unclaimed_def)

text \<open>A final refusal ends the loop at once, any other is tried as often as the policy allows.\<close>

lemma refused_attempts_run:
  assumes "always_refused a e" and "left_to_default p" and "ready_to_try p w" and "n \<le> p_max p"
  shows "\<exists>att w'. attempts_over p (\<lambda>_. ble_session a body) [n..p_max p] prev w = (Return att, w')
    \<and> refused_attempt p (refusal a e) (if attr_retryable (refusal a e) then p_max p else n) att"
  using assms(3,4)
proof (induction "nat (p_max p - n)" arbitrary: n prev w)
  case 0
  then have ns: "[n..p_max p] = [n]" and n: "n = p_max p" by (simp_all add: upto.simps)
  from refused_attempt_runs [OF assms(1,2) "0.prems"(1), of body n] ns n show ?case
    by (auto simp: bind_def ret_def refused_attempt_def)
next
  case (Suc k n)
  then have ns: "[n..p_max p] = n # [n + 1..p_max p]" and n: "n + 1 \<le> p_max p" by (simp_all add: upto.simps)
  from refused_attempt_runs [OF assms(1,2) Suc.prems(1), of body n] obtain att m where
    one: "one_attempt p (\<lambda>_. ble_session a body) n w = (Return att, w\<lparr>mem := m, live := refused_trace (p_stage_map p)\<rparr>)"
    and att: "refused_attempt p (refusal a e) n att" by blast
  from pause_keeps_ready [OF ready_after_attempt [OF Suc.prems(1)]] obtain w2 where
    s: "sleep (p_pause p) (w\<lparr>mem := m, live := refused_trace (p_stage_map p)\<rparr>) = (Return (), w2)" "ready_to_try p w2"
    by blast
  have "k = nat (p_max p - (n + 1))" using Suc.hyps(2) by simp
  from Suc.hyps(1) [OF this s(2) n, of "Some att"] ns one att n s(1) show ?case
    by (auto simp: bind_def ret_def refused_attempt_def)
qed

lemma report_attempt_entries:
  assumes "att_error att = Some x" and "error_text x = Inr said" and "unreserved (attempt_args att op facts None noun tries)"
  shows "\<exists>rep. fst (report_attempt att op facts None noun tries st) = Inr rep
    \<and> dict_get rep ''error'' = Some (PyStr said)
    \<and> dict_get rep ''failed_stage'' = map_option PyStr (fst (failure (att_trace att) (Some x)))
    \<and> dict_get rep ''attempt'' = Some (PyInt (number att))
    \<and> dict_get rep ''likely_cause_key'' = map_option PyStr (cause_key (fst (failure (att_trace att) (Some x))) said (Some x))
    \<and> classify rep = (if skipped att \<noteq> PyNone then Declined else if retrying att then Retried else Failed)"
proof -
  let ?a = "attempt_args att op facts None noun tries"
  have c: "r_cause ?a = None" by (simp add: attempt_args_def)
  obtain s where g: "generic_cause (report_stage ?a x) said facts (Some x) noun = Inr s"
    using generic_cause_returns by blast
  have r: "r_facts ?a = facts" "r_noun ?a = noun" by (simp_all add: attempt_args_def)
  have l: "likely_cause ?a x said st = (Inr (s, cause_key (report_stage ?a x) said (Some x)), st)"
    using g c r by (cases s) (simp_all add: likely_cause_def device_cause_def Let_def)
  from build_report_ok [OF _ assms(2) l] assms(1) obtain rep st' where
    built: "build_report ?a st = (Inr rep, st')" by auto
  have stage: "report_stage ?a x = fst (failure (att_trace att) (Some x))" by (simp add: report_stage_def)
  have get: "dict_get rep k = dict_get (outcome_entries op (Some x) (skipped att)
      @ failure_entries ?a x said s (cause_key (report_stage ?a x) said (Some x)) @ count_entries ?a) k"
    if "k \<in> set REPORT_KEYS" for k
    using own_entries [OF built assms(3) _ assms(2) l that] assms(1) by simp
  show ?thesis
    using built get [of "''error''"] get [of "''failed_stage''"] get [of "''attempt''"] get [of "''likely_cause_key''"]
      reads_back [OF built assms(3)] assms(1)
    by (auto simp: report_attempt_def REPORT_KEYS_def entries_get stage split: option.split)
qed

lemma refused_trace_facts [simp]: "trace_facts (refused_trace sm) = []"
  by (simp add: refused_trace_def timed_exit_def timed_enter_def new_trace_def fail_stage_def add_seconds_def Let_def)

lemma refused_trace_stage [simp]: "fst (failure (refused_trace sm) (Some x)) = Some CONNECT"
  by (auto simp: refused_trace_def failure_def failed_primary_def failed_detail_def new_trace_def PRIMARY_def)

text \<open>
  C3: A refused connect is told as it was, from the connector to the report: the loop retries it up to
  \<open>max_attempts\<close> times (once when the error calls itself final), the attempt it hands back carries the
  error, and its report is a failure at the stage "connect" with the error's text, the number of the
  attempt, and the cause key that the text and the stage call for.
\<close>

theorem refusal_reported:
  assumes "always_refused a e" and "left_to_default p" and "1 \<le> p_max p" and "undisturbed w" and "p_lock p \<longrightarrow> unclaimed w"
    and "error_text (refusal a e) = Inr said" and "set (dict_keys facts) \<inter> set REPORT_KEYS = {}"
  shows "\<exists>att w' rep. run_attempts p (\<lambda>_. ble_session a body) w = (Return att, w')
    \<and> fst (report_attempt att op facts None noun (Some (p_max p)) st) = Inr rep
    \<and> classify rep = Failed \<and> dict_get rep ''error'' = Some (PyStr said)
    \<and> dict_get rep ''failed_stage'' = Some (PyStr CONNECT)
    \<and> dict_get rep ''attempt'' = Some (PyInt (if attr_retryable (refusal a e) then p_max p else 1))
    \<and> dict_get rep ''likely_cause_key'' = map_option PyStr (cause_key (Some CONNECT) said (Some (refusal a e)))"
proof -
  have "ready_to_try p (w\<lparr>scratch := []\<rparr>)"
    using assms(4,5) by (simp add: ready_to_try_def undisturbed_def unclaimed_def)
  from refused_attempts_run [OF assms(1,2) this assms(3), of body None] obtain att w1 where
    run: "attempts_over p (\<lambda>_. ble_session a body) [1..p_max p] None (w\<lparr>scratch := []\<rparr>) = (Return att, w1)"
    and att: "refused_attempt p (refusal a e) (if attr_retryable (refusal a e) then p_max p else 1) att" by blast
  note fields = att [unfolded refused_attempt_def]
  have "\<not> retrying att" using fields by (simp split: if_splits)
  have "unreserved (attempt_args att op facts None noun (Some (p_max p)))"
    using assms(7) fields by (simp add: unreserved_def)
  from report_attempt_entries [OF _ assms(6) this, of st] fields \<open>\<not> retrying att\<close> obtain rep where
    "fst (report_attempt att op facts None noun (Some (p_max p)) st) = Inr rep \<and> classify rep = Failed
    \<and> dict_get rep ''error'' = Some (PyStr said) \<and> dict_get rep ''failed_stage'' = Some (PyStr CONNECT)
    \<and> dict_get rep ''attempt'' = Some (PyInt (if attr_retryable (refusal a e) then p_max p else 1))
    \<and> dict_get rep ''likely_cause_key'' = map_option PyStr (cause_key (Some CONNECT) said (Some (refusal a e)))"
    by (auto simp del: map_option_eq_Some)
  with run assms(3) show ?thesis by (auto simp: run_attempts_run)
qed

text \<open>A proxy without a free slot, three tries.\<close>

theorem refusal_reported_witness:
  "\<exists>att w' rep. run_attempts (default_policy\<lparr>p_max := 3\<rparr>)
       (\<lambda>_. ble_session (fake_session (Some (plain_exc BleakErrorC ''AA:BB - AA:BB: no slot''))) (\<lambda>_. ret ()))
       (fake_world (FakeClient True)) = (Return att, w')
     \<and> fst (report_attempt att ''poll'' [] None ''lamp'' (Some 3) empty_log) = Inr rep
     \<and> dict_get rep ''error'' = Some (PyStr ''AA:BB: no slot'') \<and> dict_get rep ''attempt'' = Some (PyInt 3)
     \<and> dict_get rep ''likely_cause_key'' = Some (PyStr ''connect.no_slot'')"
proof -
  let ?e = "plain_exc BleakErrorC ''AA:BB - AA:BB: no slot''" and ?said = "''AA:BB: no slot''"
  let ?a = "fake_session (Some ?e)" and ?p = "default_policy\<lparr>p_max := 3\<rparr> :: (unit, fake shared) policy"
  have t: "tidy ''AA:BB - AA:BB: no slot'' ''AA:BB'' = ''AA:BB: no slot''" by code_simp
  have m: "\<exists>m. v = v\<lparr>mem := m\<rparr>" for v :: "fake shared world" by (intro exI [of _ "mem v"]) simp
  have a: "always_refused ?a ?e"
    by (auto simp: always_refused_def refuses_at_once_def fake_session_def fake_connect_def raise_if_def bind_def
        throw_def issubclass_eval m)
  have x: "refusal ?a ?e = with_cause (ConnectFailed ?said None) ?e"
    using t by (simp add: refusal_def connect_error_def fake_session_def FakeDevice_def issubclass_eval)
  have err: "error_text (refusal ?a ?e) = Inr ?said" unfolding x by (simp add: error_text_def ConnectFailed_def)
  have key: "cause_key (Some CONNECT) ?said (Some (refusal ?a ?e)) = Some ''connect.no_slot''"
    unfolding x by code_simp
  have p: "left_to_default ?p" by (simp add: left_to_default_def default_policy_def)
  have "undisturbed (fake_world (FakeClient True))" "p_lock ?p \<longrightarrow> unclaimed (fake_world (FakeClient True))" "1 \<le> p_max ?p"
    by (simp_all add: undisturbed_def fake_world_def idle_def default_policy_def)
  from refusal_reported [OF a p this(3,1,2) err, of "[]" "\<lambda>_. ret ()" "''poll''" "''lamp''" empty_log] key x
  show ?thesis by (auto simp: default_policy_def)
qed

end
