(* ===== verification/Spec2Isabelle.thy ===== *)
theory Spec2Isabelle
  imports Hass Gatt TraceLaws SessionStages WaitTasks TimeBounds CutAttempts Refusals
begin

text \<open>
  A model of blesession (\<open>src/src/blesession\<close>), the library that Home Assistant integrations use for one
  exchange with a Bluetooth Low Energy device: connect, run a protocol under timeouts, disconnect, retry,
  and publish a report that says which stage failed and why.

  The program's parts, and the theories that model them.

  \<^item> Stages (\<open>stages.py\<close>): the seven primary stages and the mapping of a device's own stage names to them.
  \<^item> Errors (\<open>errors.py\<close>): an exception is its class, its text (or the exception its \<open>str\<close> raises), the
    attributes the library reads and its cause; a class is a constructor of \<open>pyclass\<close>, with Python's
    resolution order written out, so that \<open>except\<close> clauses are decided by \<open>isinstance\<close>.
  \<^item> Causes (\<open>causes.py\<close>): the key of a failure, the table of sentences, the advice on placement.
  \<^item> Link (\<open>link.py\<close>), Gatt (\<open>gatt.py\<close>), Hass (\<open>hass.py\<close>): what is read off a client, a characteristic and
    Home Assistant.  Private attributes and Home Assistant's lookups are parameters.
  \<^item> Trace (\<open>trace.py\<close>): the seconds per stage, the stack of running stages, the stage a failure hit.
  \<^item> Report (\<open>report.py\<close>): \<open>build_report\<close>, \<open>report_attempt\<close>, \<open>classify\<close>, \<open>fallback_report\<close>, with the
    deprecated callbacks and what is logged as a state; SessionReports (\<open>report.py\<close>): the published
    slots and their listeners.
  \<^item> Runtime: the event loop, which is Python's own and not the library's.  A coroutine is a function of a
    \<open>world\<close>; its outcome is a value, an exception, or \<open>Hang\<close>.  The world has the clock, the running
    \<open>asyncio.timeout\<close> scopes, the number of outstanding cancellations, the lock, the trace and the shared
    memory, and an agenda: an arbitrary list of what other tasks and the radio do, and when.  Only waiting
    (\<open>park\<close>) moves the clock.  \<open>timed\<close> and \<open>traced\<close> of \<open>trace.py\<close> are here.
  \<^item> Attempt and Attempts (\<open>attempts.py\<close>): the attempt record, \<open>default_retry_if\<close>, and \<open>run_attempts\<close>
    with its lock, guard, bound, retry decision and callback.
  \<^item> Client: the memory the coroutines share (events, queues, the registry of drop events of \<open>session.py\<close>)
    and the record of what the library calls on a bleak client, which is third-party and so a parameter.
  \<^item> Testing (\<open>testing.py\<close>): the fake device and client, the provider of the client's contracts.
  \<^item> Transfers (\<open>transfer.py\<close>): \<open>guarded_write\<close> and \<open>write_chunks\<close>.
  \<^item> Subscribe (\<open>subscribe.py\<close>): \<open>start_notify_with_recovery\<close> and \<open>stop_notify_best_effort\<close>.
  \<^item> Sessions (\<open>session.py\<close>): \<open>ble_session\<close> with its settle and its close.
  \<^item> Notifications (\<open>notifications.py\<close>): the queue and \<open>next\<close>, \<open>next_burst\<close>, \<open>wait_for\<close>, \<open>request\<close>.
  \<^item> WaitTasks (\<open>notifications.py\<close>): the tasks inside one wait of \<open>_next\<close> and the callbacks of the event loop
    between them, one by one; any sequence of frames, drops, cancellations and turns of the loop is a history.
  \<^item> Recording (\<open>attempts.py\<close> with \<open>report.py\<close>): \<open>run_attempts\<close> whose callback files the report of each attempt.
  \<^item> Prelude and Values: lists, association lists as Python dicts, Python values and number formatting.

  What the lemmas show.

  \<^item> RuntimeLaws: relations between worlds that every wait keeps (locales \<open>world_frame\<close> and
    \<open>scoped_frame\<close>, interpreted for the clock and the scopes, for a part of the memory, for the lock, for
    deadlines and for the queue), and \<open>polite\<close>: a coroutine that ends once a scope around it fires.  A
    polite body under a bound ends in time (\<open>ends_within_bounded\<close>); that is what every "never hangs" rests on.
  \<^item> AttemptLaws, TraceLaws, ReportLaws, SessionLaws, NotificationLaws: the properties of each component;
    the contracts a client must keep for them are the locales \<open>ble_client\<close>, \<open>write_log\<close>, \<open>closing\<close> and
    \<open>counted\<close>, each interpreted for the fake client.
  \<^item> AttemptLaws also has the lemmas of a recorder (\<open>files\<close>, \<open>attempts_over_files\<close>): what the callback does to
    a part of the memory, once per attempt and in order; attempts in sequence and Recording rest on them.
  \<^item> SessionStages: the time of a session, part by part, is booked to its stages, and a failure to the stage it hit.
  \<^item> WaitTasks: invariants of every history of a wait, and from them that no frame is lost, that the wait
    wakes, and that the wait in one step used everywhere else covers every interleaving of its tasks.
  \<^item> SessionAttempts: the same for whole coroutines of the library, with what their clean-up adds: a session
    its disconnect, a subscription its unsubscribe.
  \<^item> TraceLaws also has what an integration may do to a trace as a step relation (\<open>trace_step\<close>), with the
    invariant of every reachable trace by rule induction.
  \<^item> TimeBounds: a transfer and a request end within the sum of the bounds of their parts.
  \<^item> CutAttempts: an attempt cut at its bound, followed to the entries of its report.
  \<^item> Refusals: a refused connect followed from the connector through the session, the retry loop and the
    trace to the entries of the report (\<open>refusal_reported\<close>).
  \<^item> This theory: properties that span components; that an exchange over notifications, in a session, in
    bounded attempts always comes back (\<open>exchange_comes_back\<close>) is the end of that chain.

  Bounds and termination.  Time is a rational number of seconds.  No fuel is used: a wait ends because
  each step without a timer uses up the finite agenda, the settle because each poll lasts a quarter of a
  second or ends it, the reading loops because each frame comes from the queue or the agenda, the tasks
  of a wait because every turn of the loop takes something off what it has left to run (at most nine).  A wait
  that nothing ends is \<open>Hang\<close>, and every claim that something returns excludes it.

  Not modelled: what is logged for debugging; the option names of \<open>const.py\<close> and the re-exports of
  \<open>__init__.py\<close>, which compute nothing; \<open>current_client_class\<close>, which reads an attribute of bleak; the
  private trace a session makes when none is given (there is always a live one).  Outside WaitTasks a wait is
  one step and what happens inside a turn of the event loop is not interleaved with it: what is due at the
  same time happens before the task runs again, and whether the drop beats a frame that comes with it is a
  parameter of the handle, which \<open>tasks_refine_wait\<close> justifies.  Callbacks that are not coroutines have no
  effect on the world beyond setting events, except where they are a parameter that may do anything.
\<close>

text \<open>Reading the radio facts never fails a report: an ordinary exception of Home Assistant gives no
  facts, and the facts there are have distinct keys, all of the documented vocabulary.\<close>

lemma radio_facts_safe:
  "case radio_facts h address link of
     Inl e \<Rightarrow> \<not> isinstance e ExceptionC
   | Inr d \<Rightarrow> distinct (dict_keys d) \<and> set (dict_keys d) \<subseteq> set FACT_KEYS"
  using read_radio_facts_keys [of h address link]
  by (auto simp: radio_facts_def never_raises_def FACT_KEYS_def split: sum.splits)

section \<open>Coming back\<close>

text \<open>The exchange of the documentation: subscribe for the session's duration, talk, unsubscribe.\<close>

definition exchange ::
  "string \<Rightarrow> seconds \<Rightarrow> bool \<Rightarrow> (seconds \<Rightarrow> 'e shared \<Rightarrow> bool) \<Rightarrow> ('e notif \<Rightarrow> ('r, 'e) ble) \<Rightarrow> 'e client \<Rightarrow> ('r, 'e) ble" where
  "exchange characteristic settle_s recovering race talk c =
     bind (Notifications c characteristic settle_s None recovering race) (\<lambda>n. with_notifications n (talk n))"

lemma tame_exchange:
  assumes "calm c" and "\<And>n. tame (talk n)"
  shows "tame_within STOP_NOTIFY_TIMEOUT_S (exchange ch s rec race talk c)"
proof (rule tame_within_pointwise)
  fix w
  let ?n = "\<lambda>q. \<lparr>n_client = c, n_char = ch, n_settle = s, n_dropped = dropped_event c w, n_queue = q, n_recover = rec,
    n_race = race\<rparr>"
  have "exchange ch s rec race talk c w = bind allocate (\<lambda>q. with_notifications (?n q) (talk (?n q))) w"
    by (simp add: exchange_def Notifications_def bind_def ret_def Let_def split: prod.split outcome.split)
  moreover have "tame_within STOP_NOTIFY_TIMEOUT_S (bind allocate (\<lambda>q. with_notifications (?n q) (talk (?n q))))"
    by (intro tame_within_bind tame_allocate tame_with_notifications assms(2)) (simp add: assms(1))
  ultimately show "\<exists>g. tame_within STOP_NOTIFY_TIMEOUT_S g \<and> exchange ch s rec race talk c w = g w" by blast
qed

text \<open>The integration's callbacks return without waiting.\<close>

definition quick :: "('r, 'm) policy \<Rightarrow> bool" where
  "quick p \<longleftrightarrow>
     (\<forall>g. p_guard p = Some g \<longrightarrow> immediate g) \<and> (\<forall>a. immediate (p_retry_if p a))
     \<and> (\<forall>f a. p_on_attempt p = Some f \<longrightarrow> immediate (f a))"

text \<open>
  C1: The whole exchange always comes back.  An integration that talks over notifications in a session
  in bounded attempts gets an Attempt, whatever the link, the proxy and the stack do, as long as they
  give way to a cancellation: within \<open>max_attempts\<close> times the attempt's bound, what the unsubscribe and
  the disconnect may take on top of it, and the pause.
\<close>

theorem exchange_comes_back:
  assumes "calm c" and "closing c (\<lambda>_. True)" and "opens a c" and "\<And>n. tame (talk n)" and "quick p"
    and "p_timeout p = Some t" and "1 \<le> p_max p" and "undisturbed w" and "p_lock p \<longrightarrow> unclaimed w"
  shows "\<exists>att w'. run_attempts p (\<lambda>_. ble_session a (exchange ch s rec race talk)) w = (Return att, w')
    \<and> reports t att \<and> \<not> retrying att
    \<and> now w' \<le> now w + of_int (p_max p)
        * (max 0 t + (STOP_NOTIFY_TIMEOUT_S + max 0 (s_disconnect_timeout_s a)) + max 0 (p_pause p))"
proof (rule loop_returns [OF _ assms(6-9)])
  have "tame_within (STOP_NOTIFY_TIMEOUT_S + max 0 (s_disconnect_timeout_s a)) (ble_session a (exchange ch s rec race talk))"
    using tame_session [OF assms(3,2), where body = "exchange ch s rec race talk" and b = STOP_NOTIFY_TIMEOUT_S]
      tame_exchange [where talk = talk, OF assms(1,4)] by blast
  with assms(5) show "well_behaved p (\<lambda>_. ble_session a (exchange ch s rec race talk))
      (STOP_NOTIFY_TIMEOUT_S + max 0 (s_disconnect_timeout_s a))"
    by (simp add: well_behaved_def quick_def tame_within_def)
qed

text \<open>A proxy that connects and then answers nothing any more.\<close>

definition dead_proxy :: "unit client" where
  "dead_proxy =
     \<lparr>c_id = 1, c_weakref = True, c_connected = \<lambda>_. True, c_start_notify = \<lambda>_ _. ret (),
      c_stop_notify = \<lambda>_. park None (\<lambda>_. False), c_write = \<lambda>_ _ _. park None (\<lambda>_. False),
      c_disconnect = park None (\<lambda>_. False), c_get_services = None, c_mtu_size = \<lambda>_. Inr (PyInt 247, False),
      c_internals = \<lambda>_. \<lparr>connected_scanner = PyNone, backend_of = None\<rparr>\<rparr>"

definition dead_session :: "unit session_args" where
  "dead_session =
     \<lparr>s_device = FakeDevice ''AA:BB'' DetailsOther, s_name = None, s_client = None, s_settle_s = 0,
      s_disconnect_timeout_s = DISCONNECT_TIMEOUT_S, s_keep = False, s_close_stale = False, s_callback = [],
      s_establish = \<lambda>_ _. ret dead_proxy, s_close_stale_connections = \<lambda>_. ret ()\<rparr>"

theorem exchange_comes_back_witness:
  "\<exists>att w'. run_attempts (default_policy\<lparr>p_max := 2, p_timeout := Some 20\<rparr>)
       (\<lambda>_. ble_session dead_session (exchange ''2a19'' 0 True (\<lambda>_ _. False)
          (\<lambda>n. if n_client n = dead_proxy then request n ''2a1a'' [1] 30 ''ask'' None (Some False) None 0 else ret [])))
       (idle \<lparr>events = \<lambda>_. False, queues = \<lambda>_. [], fresh = 0, watched = \<lambda>_. None, env = ()\<rparr>) = (Return att, w')
     \<and> now w' \<le> 72"
proof -
  let ?p = "default_policy\<lparr>p_max := 2, p_timeout := Some 20\<rparr> :: (bytes, unit shared) policy"
  let ?m = "\<lparr>events = \<lambda>_. False, queues = \<lambda>_. [], fresh = 0, watched = \<lambda>_. None, env = ()\<rparr>"
  let ?talk = "\<lambda>n. if n_client n = dead_proxy then request n ''2a1a'' [1] 30 ''ask'' None (Some False) None 0 else ret []"
  have calm: "calm dead_proxy"
    by (simp add: calm_def dead_proxy_def ble_client_def orderly_ret orderly_park polite_ret polite_park ret_def)
  have closing: "closing dead_proxy (\<lambda>_. True)"
  proof (intro closing.intro closing_axioms.intro)
    show "ble_client dead_proxy" using calm by (rule calmD)
    show "isinstance e ExceptionC \<and> \<not> isl (exc_str e) \<or> isinstance e CancelledErrorC \<and> cancels w < cancels w'"
      if "c_disconnect dead_proxy w = (Raise e, w')" for w e w'
      using that park_raises_cancelled orderlyD [OF orderly_park]
      by (fastforce simp: dead_proxy_def cancelled_error_def issubclass_eval)
  qed (simp_all add: dead_proxy_def)
  have opens: "opens dead_session dead_proxy"
    by (simp add: opens_def dead_session_def polite_ret orderly_ret ret_def)
  have talk: "tame (?talk n)" for n using tame_request [of n None] calm by (simp add: tame_ret)
  have quick: "quick ?p" by (simp add: quick_def default_policy_def immediate_def ret_def)
  have "undisturbed (idle ?m)" "p_timeout ?p = Some 20" "1 \<le> p_max ?p" "p_lock ?p \<longrightarrow> unclaimed (idle ?m)"
    by (simp_all add: undisturbed_def idle_def default_policy_def)
  from exchange_comes_back [where talk = ?talk, OF calm closing opens talk quick this(2,3,1,4)] obtain att w' where
    run: "run_attempts ?p (\<lambda>_. ble_session dead_session (exchange ''2a19'' 0 True (\<lambda>_ _. False) ?talk)) (idle ?m)
      = (Return att, w')" and "now w' \<le> now (idle ?m) + of_int (p_max ?p)
        * (max 0 20 + (STOP_NOTIFY_TIMEOUT_S + max 0 (s_disconnect_timeout_s dead_session)) + max 0 (p_pause ?p))"
    by blast
  then have "now w' \<le> 72"
    by (simp add: dead_session_def default_policy_def STOP_NOTIFY_TIMEOUT_S_def DISCONNECT_TIMEOUT_S_def idle_def)
  with run show ?thesis by blast
qed

end
